(* ===== verification/Superbank_Prelude.thy ===== *)
theory Superbank_Prelude
  imports Main "HOL-Library.Product_Lexorder" "HOL-Library.Code_Target_Numeral"
begin

text \<open>
  The vocabulary every component theory shares: unsigned machine integers of the Rust sources,
  inclusive slot spans, and the list facts behind \<open>sort_unstable\<close> and \<open>dedup\<close>.

  A \<open>u64\<close>, \<open>u32\<close> or \<open>usize\<close> of the sources is a natural number; that it fits its width is the
  hypothesis \<open>is_u64\<close> or \<open>is_u32\<close>, written where a result depends on it.  The saturating and
  checked operations of the sources are the functions below.  A plain \<open>+ 1\<close> of the sources is
  \<open>Suc\<close> or \<open>+ 1\<close> here only where a guard of the code keeps it in range; counters that may wrap are
  machine words in their own theories.
\<close>

section \<open>Collections of facts\<close>

named_theorems u64_simps \<open>the saturating operations unfolded\<close>
named_theorems span_simps \<open>membership in spans and lists of spans\<close>

section \<open>Unsigned integers\<close>

type_synonym slot = nat
type_synonym span = "nat \<times> nat"

definition u64_max :: nat where
  "u64_max = 18446744073709551615"

definition u32_max :: nat where
  "u32_max = 4294967295"

definition is_u64 :: "nat \<Rightarrow> bool" where
  "is_u64 n \<longleftrightarrow> n \<le> u64_max"

definition is_u32 :: "nat \<Rightarrow> bool" where
  "is_u32 n \<longleftrightarrow> n \<le> u32_max"

definition sat_add :: "nat \<Rightarrow> nat \<Rightarrow> nat" where
  "sat_add a b = min (a + b) u64_max"

definition sat_sub :: "nat \<Rightarrow> nat \<Rightarrow> nat" where
  "sat_sub a b = a - b"

definition sat_mul :: "nat \<Rightarrow> nat \<Rightarrow> nat" where
  "sat_mul a b = min (a * b) u64_max"

definition sat_add32 :: "nat \<Rightarrow> nat \<Rightarrow> nat" where
  "sat_add32 a b = min (a + b) u32_max"

definition checked_add :: "nat \<Rightarrow> nat \<Rightarrow> nat option" where
  "checked_add a b = (if a + b \<le> u64_max then Some (a + b) else None)"

definition checked_sub :: "nat \<Rightarrow> nat \<Rightarrow> nat option" where
  "checked_sub a b = (if b \<le> a then Some (a - b) else None)"

text \<open>An unchecked \<open>u64\<close> operation of a release build keeps the low 64 bits.\<close>

definition wrap64 :: "nat \<Rightarrow> nat" where
  "wrap64 n = n mod (u64_max + 1)"

lemma wrap64_id: "is_u64 n \<Longrightarrow> wrap64 n = n"
  by (simp add: wrap64_def is_u64_def)

lemmas [u64_simps] = sat_add_def sat_sub_def sat_mul_def sat_add32_def is_u64_def is_u32_def

lemma is_u64_sat_add [simp, intro]: "is_u64 (sat_add a b)"
  by (simp add: u64_simps)

lemma is_u64_sat_mul [simp, intro]: "is_u64 (sat_mul a b)"
  by (simp add: u64_simps)

lemma is_u64_mono: "is_u64 b \<Longrightarrow> a \<le> b \<Longrightarrow> is_u64 a"
  by (simp add: u64_simps)

lemma sat_add_one_le_iff:
  assumes "is_u64 b"
  shows "sat_add a 1 \<le> b \<longleftrightarrow> (a < b \<or> b = u64_max)"
  using assms by (auto simp: u64_simps)

lemma sat_add_one_ge_iff: "is_u64 b \<Longrightarrow> b \<le> sat_add a 1 \<longleftrightarrow> b \<le> Suc a"
  by (auto simp: u64_simps)

lemma sat_add_one_eq: "a < u64_max \<Longrightarrow> sat_add a 1 = Suc a"
  by (simp add: u64_simps)

section \<open>Inclusive spans\<close>

definition span_set :: "span \<Rightarrow> nat set" where
  "span_set p = {fst p..snd p}"

definition spans_set :: "span list \<Rightarrow> nat set" where
  "spans_set ps = (\<Union>p\<in>set ps. span_set p)"

definition span_ok :: "span \<Rightarrow> bool" where
  "span_ok p \<longleftrightarrow> fst p \<le> snd p"

lemma span_set_pair [simp]: "span_set (a, b) = {a..b}"
  by (simp add: span_set_def)

lemma span_ok_pair [simp]: "span_ok (a, b) \<longleftrightarrow> a \<le> b"
  by (simp add: span_ok_def)

lemma spans_set_Nil [simp]: "spans_set [] = {}"
  by (simp add: spans_set_def)

lemma spans_set_Cons [simp]: "spans_set (p # ps) = span_set p \<union> spans_set ps"
  by (simp add: spans_set_def)

lemma spans_set_append [simp]: "spans_set (ps @ qs) = spans_set ps \<union> spans_set qs"
  by (simp add: spans_set_def)

lemma spans_set_sort [simp]: "spans_set (sort ps) = spans_set ps"
  by (simp add: spans_set_def)

lemma spans_set_rev [simp]: "spans_set (rev ps) = spans_set ps"
  by (simp add: spans_set_def)

lemma spans_set_concat [simp]: "spans_set (concat pss) = (\<Union>ps\<in>set pss. spans_set ps)"
  by (auto simp: spans_set_def)

lemma in_spans_set: "x \<in> spans_set ps \<longleftrightarrow> (\<exists>a b. (a, b) \<in> set ps \<and> a \<le> x \<and> x \<le> b)"
  by (force simp: spans_set_def span_set_def)

lemma spans_setI [intro]: "(a, b) \<in> set ps \<Longrightarrow> a \<le> x \<Longrightarrow> x \<le> b \<Longrightarrow> x \<in> spans_set ps"
  by (auto simp: in_spans_set)

lemma list_ex_span [simp]: "list_ex (\<lambda>(a, b). a \<le> x \<and> x \<le> b) ps \<longleftrightarrow> x \<in> spans_set ps"
  by (auto simp: list_ex_iff in_spans_set)

lemma finite_spans_set [simp, intro]: "finite (spans_set ps)"
  by (simp add: spans_set_def span_set_def)

text \<open>Spans in ascending order, each starting after the previous one has ended.\<close>

definition spans_ascending :: "span list \<Rightarrow> bool" where
  "spans_ascending ps \<longleftrightarrow> list_all span_ok ps \<and> sorted_wrt (\<lambda>p q. snd p < fst q) ps"

text \<open>The stronger order of a merged set: a slot is missing between two neighbours.\<close>

definition spans_separated :: "span list \<Rightarrow> bool" where
  "spans_separated ps \<longleftrightarrow> list_all span_ok ps \<and> sorted_wrt (\<lambda>p q. Suc (snd p) < fst q) ps"

lemma spans_ascending_Nil [simp]: "spans_ascending []"
  by (simp add: spans_ascending_def)

lemma spans_ascending_Cons [simp]:
  "spans_ascending (p # ps) \<longleftrightarrow>
     span_ok p \<and> (\<forall>q\<in>set ps. snd p < fst q) \<and> spans_ascending ps"
  by (auto simp: spans_ascending_def)

lemma spans_separated_Nil [simp]: "spans_separated []"
  by (simp add: spans_separated_def)

lemma spans_separated_Cons [simp]:
  "spans_separated (p # ps) \<longleftrightarrow>
     span_ok p \<and> (\<forall>q\<in>set ps. Suc (snd p) < fst q) \<and> spans_separated ps"
  by (auto simp: spans_separated_def)

lemma sorted_wrt_snd_lt_imp_fst_lt:
  "list_all span_ok ps \<Longrightarrow> sorted_wrt (\<lambda>p q. snd p < fst q) ps \<Longrightarrow> sorted_wrt (<) (map fst ps)"
  by (induction ps) (force simp: span_ok_def)+

lemma in_pairs_comprehension:
  "p \<in> set [f a b c d. (a, b) \<leftarrow> xs, (c, d) \<leftarrow> ys, P a b c d] \<longleftrightarrow>
     (\<exists>a b c d. (a, b) \<in> set xs \<and> (c, d) \<in> set ys \<and> p = f a b c d \<and> P a b c d)"
  by force

section \<open>Sorted slot lists\<close>

text \<open>\<open>sort_unstable\<close> then \<open>dedup\<close> on a list of slots.\<close>

definition sort_dedup :: "'a::linorder list \<Rightarrow> 'a list" where
  "sort_dedup xs = remdups_adj (sort xs)"

lemma set_sort_dedup [simp]: "set (sort_dedup xs) = set xs"
  by (simp add: sort_dedup_def)

lemma sorted_wrt_remdups_adj: "sorted xs \<Longrightarrow> sorted_wrt (<) (remdups_adj xs)"
  by (induction xs rule: remdups_adj.induct) (auto simp: less_le)

lemma strict_sorted_sort_dedup [simp]: "sorted_wrt (<) (sort_dedup xs)"
  by (simp add: sort_dedup_def sorted_wrt_remdups_adj)

lemma sort_dedup_eq: "sort_dedup xs = sorted_list_of_set (set xs)"
  by (rule strict_sorted_equal) auto

end
