(* ===== verification/Bitmaps.thy ===== *)
theory Bitmaps
  imports Superbank_Prelude "HOL-Library.Word"
begin

text \<open>
  The \<open>u64\<close> bitmap idioms of the sources: \<open>trailing_zeros\<close>, clearing the lowest set bit with
  \<open>word & (word - 1)\<close>, the masks that cut a first and a last word, and the loop that drains a word.
\<close>

unbundle bit_operations_syntax

definition trailing_zeros :: "64 word \<Rightarrow> nat" where
  "trailing_zeros w = length (takeWhile (\<lambda>i. \<not> bit w i) [0..<64])"

lemma trailing_zeros_first:
  assumes "w \<noteq> 0"
  shows "trailing_zeros w < 64" "bit w (trailing_zeros w)" "i < trailing_zeros w \<Longrightarrow> \<not> bit w i"
proof -
  let ?t = "takeWhile (\<lambda>i. \<not> bit w i) [0..<64]"
  obtain n where "bit w n" using assms by (metis bit.compl_zero bit_eqI bit_0_eq bot_apply bot_bool_def)
  then have "n < 64" using bit_imp_le_length [of w n] by simp
  then have "?t \<noteq> [0..<64]" using \<open>bit w n\<close> by (auto simp: takeWhile_eq_all_conv)
  then have "length ?t \<noteq> 64"
    using takeWhile_eq_take [of "\<lambda>i. \<not> bit w i" "[0..<64]"] by (metis diff_zero length_upt order_refl take_all)
  then show lt: "trailing_zeros w < 64"
    using length_takeWhile_le [of "\<lambda>i. \<not> bit w i" "[0..<64]"] by (simp add: trailing_zeros_def)
  then show "bit w (trailing_zeros w)"
    using nth_length_takeWhile [of "\<lambda>i. \<not> bit w i" "[0..<64]"] by (simp add: trailing_zeros_def)
  show "i < trailing_zeros w \<Longrightarrow> \<not> bit w i"
    using lt nth_mem [of i ?t] set_takeWhileD [of "?t ! i" "\<lambda>i. \<not> bit w i" "[0..<64]"]
      takeWhile_nth [of i "\<lambda>i. \<not> bit w i" "[0..<64]"]
    by (simp add: trailing_zeros_def)
qed

text \<open>\<open>word & (word - 1)\<close> clears exactly the lowest set bit.\<close>

lemma bit_clear_lowest:
  assumes "w \<noteq> (0 :: 64 word)"
  shows "bit (w AND (w - 1)) i \<longleftrightarrow> bit w i \<and> i \<noteq> trailing_zeros w"
proof -
  define k where "k = trailing_zeros w"
  note tz = trailing_zeros_first [OF assms, folded k_def]
  define n where "n = Suc k"
  let ?x = "push_bit n (drop_bit n w)"
  have "take_bit n w = 2 ^ k"
    by (rule bit_eqI) (use tz in \<open>auto simp: n_def bit_take_bit_iff bit_exp_iff less_Suc_eq\<close>)
  then have "w = ?x + 2 ^ k" by (metis bits_ident)
  then have "w - 1 = ?x + mask k" by (simp add: mask_eq_exp_minus_1)
  also have "\<dots> = ?x OR mask k"
    by (rule disjunctive_add) (auto simp: n_def bit_push_bit_iff bit_mask_iff)
  finally have "bit (w - 1) i \<longleftrightarrow> i < 64 \<and> ((n \<le> i \<and> bit w i) \<or> i < k)"
    using bit_imp_le_length [of w i]
    by (auto simp: bit_or_iff bit_push_bit_iff bit_drop_bit_eq bit_mask_iff possible_bit_def)
  then show ?thesis using tz bit_imp_le_length [of w i] unfolding k_def [symmetric]
    by (auto simp: n_def bit_and_iff not_less_eq_eq intro: le_neq_implies_less)
qed

lemma clear_lowest_less: "w \<noteq> (0 :: 64 word) \<Longrightarrow> unat (w AND (w - 1)) < unat w"
proof -
  assume w: "w \<noteq> 0"
  have "w AND (w - 1) \<noteq> w"
    using bit_clear_lowest [OF w, of "trailing_zeros w"] trailing_zeros_first(2) [OF w] by auto
  moreover have "w AND (w - 1) \<le> w" by (rule word_and_le2)
  ultimately have "w AND (w - 1) < w" by (rule order.not_eq_order_implies_strict)
  then show ?thesis by (simp only: word_less_nat_alt)
qed

text \<open>The draining loop \<open>while word != 0\<close>, as the list of the bit positions it pushes.\<close>

function drain_word :: "64 word \<Rightarrow> nat list" where
  "drain_word w = (if w = 0 then [] else trailing_zeros w # drain_word (w AND (w - 1)))"
  by auto
termination
  by (relation "measure unat") (simp_all add: clear_lowest_less)

declare drain_word.simps [simp del]

lemma drain_word_sorted: "sorted_wrt (<) (drain_word w) \<and> set (drain_word w) = {i. bit w i}"
proof (induction w rule: drain_word.induct)
  case (1 w)
  show ?case
  proof (cases "w = 0")
    case False
    have rest: "set (drain_word (w AND (w - 1))) = {i. bit w i \<and> i \<noteq> trailing_zeros w}"
      using 1 [OF False] bit_clear_lowest [OF False] by simp
    have "trailing_zeros w < i" if "bit w i" "i \<noteq> trailing_zeros w" for i
      using trailing_zeros_first(3) [OF False, of i] that by (cases i "trailing_zeros w" rule: linorder_cases) auto
    then show ?thesis
      using 1 [OF False] rest trailing_zeros_first(2) [OF False] False
      by (auto simp: drain_word.simps [of w])
  qed (simp add: drain_word.simps)
qed

text \<open>\<open>word &= u64::MAX << first\<close> and \<open>word &= (1 << (last + 1)) - 1\<close>.\<close>

definition mask_from :: "nat \<Rightarrow> 64 word \<Rightarrow> 64 word" where
  "mask_from first w = w AND push_bit first (- 1)"

definition mask_upto :: "nat \<Rightarrow> 64 word \<Rightarrow> 64 word" where
  "mask_upto final w = w AND (push_bit (final + 1) 1 - 1)"

lemma bit_mask_from: "bit (mask_from first w) i \<longleftrightarrow> bit w i \<and> first \<le> i"
  using bit_imp_le_length [of w i] by (auto simp: mask_from_def bit_and_iff bit_not_iff bit_mask_iff)

lemma bit_mask_upto: "bit (mask_upto final w) i \<longleftrightarrow> bit w i \<and> i \<le> final"
proof -
  have "push_bit (final + 1) 1 - 1 = (mask (final + 1) :: 64 word)"
    by (simp add: mask_eq_exp_minus_1 push_bit_eq_mult)
  then show ?thesis using bit_imp_le_length [of w i]
    by (auto simp: mask_upto_def bit_and_iff bit_mask_iff)
qed

definition set_bit64 :: "nat \<Rightarrow> 64 word \<Rightarrow> 64 word" where
  "set_bit64 k w = w OR push_bit k 1"

lemma bit_set_bit64: "k < 64 \<Longrightarrow> bit (set_bit64 k w) i \<longleftrightarrow> bit w i \<or> i = k"
  by (auto simp: set_bit64_def bit_or_iff bit_exp_iff)

end
