(* ===== verification/Rust_Collections.thy ===== *)
theory Rust_Collections
  imports Superbank_Prelude "HOL-Library.AList"
begin

text \<open>
  The standard collections the sources use.  A \<open>BTreeMap\<close> is the list of its entries in strictly
  ascending key order (\<open>bt_ok\<close>), so that \<open>range\<close>, \<open>next_back\<close>, \<open>first_key_value\<close> and iteration are
  list functions a witness can evaluate.  A \<open>HashMap\<close> is an association list with distinct keys
  (\<open>hm_ok\<close>); wherever the sources depend on its iteration order the order is a parameter of the
  definition concerned.  A \<open>BTreeSet\<close> or \<open>HashSet\<close> is a set.  The locale \<open>finite_store\<close> states the
  laws of a keyed store; both representations interpret it, and the facts its clients share
  (lookups after several writes) are proved once there.
\<close>

section \<open>Ordered maps\<close>

type_synonym ('k, 'v) btree = "('k \<times> 'v) list"

definition bt_ok :: "('k::linorder, 'v) btree \<Rightarrow> bool" where
  "bt_ok m \<longleftrightarrow> sorted_wrt (<) (map fst m)"

fun bt_insert :: "'k::linorder \<Rightarrow> 'v \<Rightarrow> ('k, 'v) btree \<Rightarrow> ('k, 'v) btree" where
  "bt_insert k v [] = [(k, v)]"
| "bt_insert k v ((k', v') # m) =
     (if k < k' then (k, v) # (k', v') # m
      else if k = k' then (k, v) # m
      else (k', v') # bt_insert k v m)"

definition bt_get :: "('k, 'v) btree \<Rightarrow> 'k \<Rightarrow> 'v option" where
  "bt_get m k = map_of m k"

definition bt_remove :: "'k \<Rightarrow> ('k, 'v) btree \<Rightarrow> ('k, 'v) btree" where
  "bt_remove k m = filter (\<lambda>p. fst p \<noteq> k) m"

definition bt_retain :: "('k \<Rightarrow> 'v \<Rightarrow> bool) \<Rightarrow> ('k, 'v) btree \<Rightarrow> ('k, 'v) btree" where
  "bt_retain P m = filter (\<lambda>p. P (fst p) (snd p)) m"

text \<open>\<open>range(..=k)\<close>, \<open>range(..k)\<close>, \<open>range(k..)\<close> and \<open>range(lo..=hi)\<close>.\<close>

definition bt_upto :: "'k::linorder \<Rightarrow> ('k, 'v) btree \<Rightarrow> ('k, 'v) btree" where
  "bt_upto k m = filter (\<lambda>p. fst p \<le> k) m"

definition bt_below :: "'k::linorder \<Rightarrow> ('k, 'v) btree \<Rightarrow> ('k, 'v) btree" where
  "bt_below k m = filter (\<lambda>p. fst p < k) m"

definition bt_from :: "'k::linorder \<Rightarrow> ('k, 'v) btree \<Rightarrow> ('k, 'v) btree" where
  "bt_from k m = filter (\<lambda>p. k \<le> fst p) m"

definition bt_range :: "'k::linorder \<Rightarrow> 'k \<Rightarrow> ('k, 'v) btree \<Rightarrow> ('k, 'v) btree" where
  "bt_range lo hi m = filter (\<lambda>p. lo \<le> fst p \<and> fst p \<le> hi) m"

definition bt_first :: "('k, 'v) btree \<Rightarrow> ('k \<times> 'v) option" where
  "bt_first m = (case m of [] \<Rightarrow> None | p # _ \<Rightarrow> Some p)"

definition bt_last :: "('k, 'v) btree \<Rightarrow> ('k \<times> 'v) option" where
  "bt_last m = (if m = [] then None else Some (last m))"

definition bt_keys :: "('k, 'v) btree \<Rightarrow> 'k list" where
  "bt_keys m = map fst m"

section \<open>Hash maps\<close>

type_synonym ('k, 'v) hmap = "('k \<times> 'v) list"

definition hm_ok :: "('k, 'v) hmap \<Rightarrow> bool" where
  "hm_ok m \<longleftrightarrow> distinct (map fst m)"

definition hm_get :: "('k, 'v) hmap \<Rightarrow> 'k \<Rightarrow> 'v option" where
  "hm_get m k = map_of m k"

definition hm_insert :: "'k \<Rightarrow> 'v \<Rightarrow> ('k, 'v) hmap \<Rightarrow> ('k, 'v) hmap" where
  "hm_insert k v m = AList.update k v m"

definition hm_remove :: "'k \<Rightarrow> ('k, 'v) hmap \<Rightarrow> ('k, 'v) hmap" where
  "hm_remove k m = AList.delete k m"

definition hm_retain :: "('k \<Rightarrow> 'v \<Rightarrow> bool) \<Rightarrow> ('k, 'v) hmap \<Rightarrow> ('k, 'v) hmap" where
  "hm_retain P m = filter (\<lambda>p. P (fst p) (snd p)) m"

definition hm_len :: "('k, 'v) hmap \<Rightarrow> nat" where
  "hm_len m = length m"

text \<open>\<open>get_mut\<close> and \<open>entry(k).or_default()\<close> with the update written through the reference.\<close>

definition hm_modify :: "'k \<Rightarrow> ('v \<Rightarrow> 'v) \<Rightarrow> ('k, 'v) hmap \<Rightarrow> ('k, 'v) hmap" where
  "hm_modify k f m = (case hm_get m k of None \<Rightarrow> m | Some v \<Rightarrow> hm_insert k (f v) m)"

definition hm_entry :: "'k \<Rightarrow> 'v \<Rightarrow> ('v \<Rightarrow> 'v) \<Rightarrow> ('k, 'v) hmap \<Rightarrow> ('k, 'v) hmap" where
  "hm_entry k d f m = hm_insert k (f (case hm_get m k of None \<Rightarrow> d | Some v \<Rightarrow> v)) m"

section \<open>The laws of a keyed store\<close>

locale finite_store =
  fixes empty :: "'m"
    and get :: "'m \<Rightarrow> 'k \<Rightarrow> 'v option"
    and put :: "'k \<Rightarrow> 'v \<Rightarrow> 'm \<Rightarrow> 'm"
    and drop_key :: "'k \<Rightarrow> 'm \<Rightarrow> 'm"
    and retain :: "('k \<Rightarrow> 'v \<Rightarrow> bool) \<Rightarrow> 'm \<Rightarrow> 'm"
    and ok :: "'m \<Rightarrow> bool"
  assumes get_empty: "get empty = (\<lambda>_. None)"
    and get_put: "ok m \<Longrightarrow> get (put k v m) = (get m)(k \<mapsto> v)"
    and get_drop: "ok m \<Longrightarrow> get (drop_key k m) = (get m)(k := None)"
    and get_retain: "ok m \<Longrightarrow>
      get (retain P m) k = (case get m k of None \<Rightarrow> None | Some v \<Rightarrow> if P k v then Some v else None)"
    and finite_dom: "finite (dom (get m))"
    and ok_empty: "ok empty"
    and ok_put: "ok m \<Longrightarrow> ok (put k v m)"
    and ok_drop: "ok m \<Longrightarrow> ok (drop_key k m)"
    and ok_retain: "ok m \<Longrightarrow> ok (retain P m)"
begin

lemma get_put_same: "ok m \<Longrightarrow> get (put k v m) k = Some v"
  by (simp add: get_put)

lemma get_put_other: "ok m \<Longrightarrow> k' \<noteq> k \<Longrightarrow> get (put k v m) k' = get m k'"
  by (simp add: get_put)

lemma get_drop_same: "ok m \<Longrightarrow> get (drop_key k m) k = None"
  by (simp add: get_drop)

lemma get_drop_other: "ok m \<Longrightarrow> k' \<noteq> k \<Longrightarrow> get (drop_key k m) k' = get m k'"
  by (simp add: get_drop)

lemma dom_put: "ok m \<Longrightarrow> dom (get (put k v m)) = insert k (dom (get m))"
  by (simp add: get_put)

lemma dom_drop: "ok m \<Longrightarrow> dom (get (drop_key k m)) = dom (get m) - {k}"
  by (simp add: get_drop)

lemma get_retain_Some:
  "ok m \<Longrightarrow> get (retain P m) k = Some v \<longleftrightarrow> get m k = Some v \<and> P k v"
  by (auto simp: get_retain split: option.splits if_splits)

lemma dom_retain_subset: "ok m \<Longrightarrow> dom (get (retain P m)) \<subseteq> dom (get m)"
  by (auto simp: get_retain_Some)

lemma drop_put: "ok m \<Longrightarrow> get (drop_key k (put k v m)) = get (drop_key k m)"
  by (simp add: get_put get_drop ok_put)

lemma card_put: "ok m \<Longrightarrow> card (dom (get (put k v m))) \<le> Suc (card (dom (get m)))"
  by (simp add: dom_put card_insert_if finite_dom)

end

section \<open>Both representations are stores\<close>

lemma bt_get_eq: "bt_get m = map_of m"
  by (rule ext) (simp add: bt_get_def)

lemma hm_get_eq: "hm_get m = map_of m"
  by (rule ext) (simp add: hm_get_def)

lemma bt_ok_Nil [simp]: "bt_ok []"
  by (simp add: bt_ok_def)

lemma bt_ok_Cons: "bt_ok (p # m) \<longleftrightarrow> (\<forall>q\<in>set m. fst p < fst q) \<and> bt_ok m"
  by (auto simp: bt_ok_def)

lemma bt_ok_filter [simp]: "bt_ok m \<Longrightarrow> bt_ok (filter P m)"
  by (induction m) (auto simp: bt_ok_Cons)

lemma bt_ok_parts [simp]:
  assumes "bt_ok m"
  shows "bt_ok (bt_upto k m)" "bt_ok (bt_below k m)" "bt_ok (bt_from k m)" "bt_ok (bt_range k k' m)"
  using assms by (simp_all add: bt_upto_def bt_below_def bt_from_def bt_range_def)

lemma bt_ok_distinct: "bt_ok m \<Longrightarrow> distinct (map fst m)"
  by (simp add: bt_ok_def strict_sorted_iff)

lemma set_bt_insert:
  "bt_ok m \<Longrightarrow> set (bt_insert k v m) = insert (k, v) {p \<in> set m. fst p \<noteq> k}"
  by (induction k v m rule: bt_insert.induct) (auto simp: bt_ok_Cons)

lemma bt_ok_insert [simp]: "bt_ok m \<Longrightarrow> bt_ok (bt_insert k v m)"
  by (induction k v m rule: bt_insert.induct) (auto simp: bt_ok_Cons set_bt_insert)

lemma map_of_bt_insert: "map_of (bt_insert k v m) = (map_of m)(k \<mapsto> v)"
  by (induction k v m rule: bt_insert.induct) (auto simp: fun_eq_iff)

lemma map_of_filter_key: "map_of (filter (\<lambda>p. P (fst p)) m) k = (if P k then map_of m k else None)"
  by (induction m) auto

lemma map_of_filter_distinct:
  "distinct (map fst m) \<Longrightarrow> map_of (filter (\<lambda>p. P (fst p) (snd p)) m) k =
     (case map_of m k of None \<Rightarrow> None | Some v \<Rightarrow> if P k v then Some v else None)"
  by (induction m) (auto simp: image_iff split: option.splits dest: map_of_SomeD)

interpretation bt: finite_store "[]" bt_get bt_insert bt_remove bt_retain bt_ok
proof
  fix m :: "('a, 'b) btree" and k :: 'a and P
  assume "bt_ok m"
  show "bt_get (bt_retain P m) k =
      (case bt_get m k of None \<Rightarrow> None | Some v \<Rightarrow> if P k v then Some v else None)"
    using bt_ok_distinct [OF \<open>bt_ok m\<close>] by (simp add: bt_get_def bt_retain_def map_of_filter_distinct)
next
  fix m :: "('a, 'b) btree" and k :: 'a
  show "bt_get (bt_remove k m) = (bt_get m)(k := None)"
    using map_of_filter_key [of "\<lambda>x. x \<noteq> k" m] by (auto simp: bt_get_eq bt_remove_def)
qed (auto simp: bt_get_eq map_of_bt_insert bt_remove_def bt_retain_def finite_dom_map_of)

lemma hm_ok_Nil [simp]: "hm_ok []"
  by (simp add: hm_ok_def)

lemma hm_ok_filter [simp]: "hm_ok m \<Longrightarrow> hm_ok (filter P m)"
  by (simp add: hm_ok_def distinct_map_filter)

interpretation hm: finite_store "[]" hm_get hm_insert hm_remove hm_retain hm_ok
proof
  fix m :: "('a, 'b) hmap" and k :: 'a and P
  assume "hm_ok m"
  then show "hm_get (hm_retain P m) k =
      (case hm_get m k of None \<Rightarrow> None | Some v \<Rightarrow> if P k v then Some v else None)"
    by (simp add: hm_get_def hm_retain_def map_of_filter_distinct hm_ok_def)
qed (auto simp: hm_get_eq hm_insert_def hm_remove_def hm_retain_def hm_ok_def
    update_conv' delete_conv' finite_dom_map_of distinct_update distinct_delete distinct_map_filter)

text \<open>Lookups in hash maps need no well-formedness where only keys are inspected.\<close>

lemma hm_get_insert: "hm_get (hm_insert k v m) = (hm_get m)(k \<mapsto> v)"
  by (simp add: hm_get_eq hm_insert_def update_conv')

lemma hm_get_remove: "hm_get (hm_remove k m) = (hm_get m)(k := None)"
  by (simp add: hm_get_eq hm_remove_def delete_conv')

lemma hm_get_retain_key:
  "hm_get (hm_retain (\<lambda>k v. P k) m) k = (if P k then hm_get m k else None)"
  by (simp add: hm_get_eq hm_retain_def map_of_filter_key)

lemma hm_get_modify:
  "hm_get (hm_modify k f m) k' = (if k' = k then map_option f (hm_get m k) else hm_get m k')"
  by (simp add: hm_modify_def hm_get_insert split: option.split)

lemma hm_get_entry:
  "hm_get (hm_entry k d f m) = (hm_get m)(k \<mapsto> f (case hm_get m k of None \<Rightarrow> d | Some v \<Rightarrow> v))"
  by (simp add: hm_entry_def hm_get_insert)

lemmas hm_gets = hm_get_insert hm_get_remove hm_get_retain_key hm_get_modify hm_get_entry

lemma hm_get_Nil [simp]: "hm_get [] k = None"
  by (simp add: hm_get_def)

lemma dom_hm_get: "dom (hm_get m) = fst ` set m"
  by (simp add: hm_get_eq dom_map_of_conv_image_fst)

lemma hm_len_card: "hm_ok m \<Longrightarrow> hm_len m = card (dom (hm_get m))"
  using distinct_card [of "map fst m"] by (simp add: hm_len_def hm_ok_def dom_hm_get)

lemma hm_len_insert_le: "hm_ok m \<Longrightarrow> hm_len (hm_insert k v m) \<le> Suc (hm_len m)"
  by (simp add: hm_len_card hm.ok_put hm.card_put)

lemma hm_len_remove:
  "hm_ok m \<Longrightarrow> k \<in> dom (hm_get m) \<Longrightarrow> Suc (hm_len (hm_remove k m)) = hm_len m"
  using card_Suc_Diff1 [OF hm.finite_dom, of k m]
  by (simp add: hm_len_card hm.ok_drop hm.dom_drop del: card_Diff_singleton)

end
