(* ===== verification/Coverage_Map.thy ===== *)
theory Coverage_Map
  imports Rust_Collections
begin

text \<open>
  In-memory coverage of the disk cache and of the block-time index
  (\<^verbatim>\<open>src/crates/superbank-rpc/src/disk_cache/coverage.rs\<close>): a \<open>BTreeMap\<close> from the start of a range to
  its inclusive end.  Its invariant \<open>coverage_ok\<close> is the comment of the source, ``ranges are disjoint
  and non-adjacent''.  The contract is the locale \<open>slot_set\<close>, a set of slots under insertion of a
  range, removal of a slot and eviction below a floor; \<open>CoverageMap\<close> interprets it at the end.
\<close>

section \<open>Model\<close>

record coverage_map =
  cm_ranges :: "(slot, slot) btree"

definition coverage_map_new :: coverage_map where
  "coverage_map_new = \<lparr>cm_ranges = []\<rparr>"

text \<open>The first absorption of \<open>insert_range\<close>: a range that starts before and touches \<open>start\<close>.\<close>

definition absorb_previous ::
  "(slot, slot) btree \<Rightarrow> slot \<Rightarrow> slot \<Rightarrow> slot \<times> slot \<times> (slot, slot) btree" where
  "absorb_previous ranges start end =
     (case bt_last (bt_upto start ranges) of
        Some (prev_start, prev_end) \<Rightarrow>
          if start \<le> sat_add prev_end 1
          then (prev_start, max end prev_end, bt_remove prev_start ranges)
          else (start, end, ranges)
      | None \<Rightarrow> (start, end, ranges))"

text \<open>The second absorption: one step of the loop over \<open>absorbed\<close>.\<close>

definition absorb_step ::
  "slot \<times> (slot, slot) btree \<Rightarrow> slot \<Rightarrow> slot \<times> (slot, slot) btree" where
  "absorb_step st range_start =
     (case bt_get (snd st) range_start of
        Some range_end \<Rightarrow> (max (fst st) range_end, bt_remove range_start (snd st))
      | None \<Rightarrow> st)"

definition coverage_map_insert_range :: "slot \<Rightarrow> slot \<Rightarrow> coverage_map \<Rightarrow> coverage_map" where
  "coverage_map_insert_range start end self =
     (if end < start then self
      else
        let (new_start, new_end, ranges) = absorb_previous (cm_ranges self) start end;
            absorbed = bt_keys (bt_range new_start (sat_add new_end 1) ranges);
            (new_end', ranges') = foldl absorb_step (new_end, ranges) absorbed
        in self\<lparr>cm_ranges := bt_insert new_start new_end' ranges'\<rparr>)"

definition coverage_map_insert :: "slot \<Rightarrow> coverage_map \<Rightarrow> coverage_map" where
  "coverage_map_insert s self = coverage_map_insert_range s s self"

definition coverage_map_remove :: "slot \<Rightarrow> coverage_map \<Rightarrow> coverage_map" where
  "coverage_map_remove s self =
     (case bt_last (bt_upto s (cm_ranges self)) of
        None \<Rightarrow> self
      | Some (start, end) \<Rightarrow>
          if end < s then self
          else
            let r1 = bt_remove start (cm_ranges self);
                r2 = (if start < s then bt_insert start (s - 1) r1 else r1);
                r3 = (if s < end then bt_insert (s + 1) end r2 else r2)
            in self\<lparr>cm_ranges := r3\<rparr>)"

definition evict_step :: "slot \<Rightarrow> (slot, slot) btree \<Rightarrow> slot \<Rightarrow> (slot, slot) btree" where
  "evict_step floor ranges start =
     (case bt_get ranges start of
        Some end \<Rightarrow>
          (if floor \<le> end then bt_insert floor end (bt_remove start ranges)
           else bt_remove start ranges)
      | None \<Rightarrow> ranges)"

definition coverage_map_remove_below :: "slot \<Rightarrow> coverage_map \<Rightarrow> coverage_map" where
  "coverage_map_remove_below floor self =
     self\<lparr>cm_ranges :=
       foldl (evict_step floor) (cm_ranges self) (bt_keys (bt_below floor (cm_ranges self)))\<rparr>"

definition coverage_map_contains :: "coverage_map \<Rightarrow> slot \<Rightarrow> bool" where
  "coverage_map_contains self s =
     (case bt_last (bt_upto s (cm_ranges self)) of Some (_, end) \<Rightarrow> s \<le> end | None \<Rightarrow> False)"

definition coverage_map_intersects :: "coverage_map \<Rightarrow> slot \<Rightarrow> slot \<Rightarrow> bool" where
  "coverage_map_intersects self start end =
     (case bt_last (bt_upto end (cm_ranges self)) of
        Some (_, range_end) \<Rightarrow> start \<le> range_end | None \<Rightarrow> False)"

definition coverage_map_covered_span :: "coverage_map \<Rightarrow> span option" where
  "coverage_map_covered_span self =
     (case (bt_first (cm_ranges self), bt_last (cm_ranges self)) of
        (Some (first_start, _), Some (_, last_end)) \<Rightarrow> Some (first_start, last_end)
      | _ \<Rightarrow> None)"

definition coverage_map_contiguous_tip_span :: "coverage_map \<Rightarrow> span option" where
  "coverage_map_contiguous_tip_span self = bt_last (cm_ranges self)"

definition coverage_map_intersections :: "coverage_map \<Rightarrow> slot \<Rightarrow> slot \<Rightarrow> span list" where
  "coverage_map_intersections self start end =
     List.map_filter (\<lambda>(floor, tip).
        (if max floor start \<le> min tip end then Some (max floor start, min tip end) else None))
       (bt_upto end (cm_ranges self))"

fun holes_loop :: "span list \<Rightarrow> slot \<Rightarrow> slot \<Rightarrow> span list" where
  "holes_loop [] cursor end = (if cursor \<le> end then [(cursor, end)] else [])"
| "holes_loop ((range_start, range_end) # rest) cursor end =
     (if cursor < range_start then [(cursor, range_start - 1)] else []) @
     (if end \<le> range_end then [] else holes_loop rest (range_end + 1) end)"

definition coverage_map_holes_in :: "coverage_map \<Rightarrow> slot \<Rightarrow> slot \<Rightarrow> span list" where
  "coverage_map_holes_in self start end =
     (if end < start then []
      else
        case bt_last (bt_upto start (cm_ranges self)) of
          Some (_, prev_end) \<Rightarrow>
            (if start \<le> prev_end then
               if end \<le> prev_end then []
               else holes_loop (bt_range (prev_end + 1) end (cm_ranges self)) (prev_end + 1) end
             else holes_loop (bt_range start end (cm_ranges self)) start end)
        | None \<Rightarrow> holes_loop (bt_range start end (cm_ranges self)) start end)"

section \<open>Specification\<close>

definition coverage_ok :: "coverage_map \<Rightarrow> bool" where
  "coverage_ok m \<longleftrightarrow> spans_separated (cm_ranges m) \<and> (\<forall>p\<in>set (cm_ranges m). is_u64 (snd p))"

definition coverage_slots :: "coverage_map \<Rightarrow> slot set" where
  "coverage_slots m = spans_set (cm_ranges m)"

text \<open>A history of the map and the set of slots it stands for.\<close>

datatype coverage_op = Insert_range slot slot | Remove slot | Remove_below slot

fun coverage_op_ok :: "coverage_op \<Rightarrow> bool" where
  "coverage_op_ok (Insert_range a b) \<longleftrightarrow> is_u64 b"
| "coverage_op_ok _ \<longleftrightarrow> True"

fun coverage_apply :: "coverage_map \<Rightarrow> coverage_op \<Rightarrow> coverage_map" where
  "coverage_apply m (Insert_range a b) = coverage_map_insert_range a b m"
| "coverage_apply m (Remove s) = coverage_map_remove s m"
| "coverage_apply m (Remove_below f) = coverage_map_remove_below f m"

fun slots_apply :: "slot set \<Rightarrow> coverage_op \<Rightarrow> slot set" where
  "slots_apply S (Insert_range a b) = S \<union> {a..b}"
| "slots_apply S (Remove s) = S - {s}"
| "slots_apply S (Remove_below f) = S - {..<f}"

text \<open>The contract of a set of covered slots.\<close>

locale slot_set =
  fixes slots :: "'c \<Rightarrow> slot set"
    and ok :: "'c \<Rightarrow> bool"
    and empty_set :: 'c
    and insert_range :: "slot \<Rightarrow> slot \<Rightarrow> 'c \<Rightarrow> 'c"
    and remove :: "slot \<Rightarrow> 'c \<Rightarrow> 'c"
    and remove_below :: "slot \<Rightarrow> 'c \<Rightarrow> 'c"
    and contains :: "'c \<Rightarrow> slot \<Rightarrow> bool"
    and holes :: "'c \<Rightarrow> slot \<Rightarrow> slot \<Rightarrow> span list"
  assumes slots_empty: "slots empty_set = {}"
    and slots_insert: "ok c \<Longrightarrow> is_u64 b \<Longrightarrow> slots (insert_range a b c) = slots c \<union> {a..b}"
    and slots_remove: "ok c \<Longrightarrow> slots (remove x c) = slots c - {x}"
    and slots_remove_below: "ok c \<Longrightarrow> slots (remove_below f c) = slots c - {..<f}"
    and contains_iff: "ok c \<Longrightarrow> contains c x \<longleftrightarrow> x \<in> slots c"
    and holes_set: "ok c \<Longrightarrow> spans_set (holes c a b) = {a..b} - slots c"
    and holes_ascending: "ok c \<Longrightarrow> spans_ascending (holes c a b)"
    and ok_empty: "ok empty_set"
    and ok_insert: "ok c \<Longrightarrow> is_u64 b \<Longrightarrow> ok (insert_range a b c)"
    and ok_remove: "ok c \<Longrightarrow> ok (remove x c)"
    and ok_remove_below: "ok c \<Longrightarrow> ok (remove_below f c)"
begin

lemma holes_Nil_iff: "ok c \<Longrightarrow> holes c a b = [] \<longleftrightarrow> {a..b} \<subseteq> slots c"
proof -
  assume ok: "ok c"
  have "spans_set (holes c a b) = {} \<longleftrightarrow> holes c a b = []"
    using holes_ascending [OF ok, of a b]
    by (cases "holes c a b") (auto simp: span_set_def span_ok_def)
  then show ?thesis using holes_set [OF ok, of a b] by auto
qed

text \<open>Inserting a list of spans one after another, as a worker publishes what it filled.\<close>

definition insert_all :: "span list \<Rightarrow> 'c \<Rightarrow> 'c" where
  "insert_all ps c = foldl (\<lambda>c p. insert_range (fst p) (snd p) c) c ps"

lemma insert_all_invariant:
  "ok c \<Longrightarrow> \<forall>p\<in>set ps. is_u64 (snd p) \<Longrightarrow>
     ok (insert_all ps c) \<and> slots (insert_all ps c) = slots c \<union> spans_set ps"
  unfolding insert_all_def
  by (induction ps arbitrary: c) (auto simp: ok_insert slots_insert span_set_def)

text \<open>Filling every hole of a window makes the whole window covered.\<close>

lemma fill_holes:
  assumes "ok c" "is_u64 b"
  shows "slots (insert_all (holes c a b) c) = slots c \<union> {a..b}"
    and "holes (insert_all (holes c a b) c) a b = []"
proof -
  have "snd p \<le> b" if "p \<in> set (holes c a b)" for p
  proof -
    have "snd p \<in> span_set p"
      using holes_ascending [OF assms(1), of a b] that
      by (auto simp: spans_ascending_def list_all_iff span_ok_def span_set_def)
    then show ?thesis using that holes_set [OF assms(1), of a b] by (auto simp: spans_set_def)
  qed
  then have "\<forall>p\<in>set (holes c a b). is_u64 (snd p)"
    using assms(2) by (auto intro: is_u64_mono)
  from insert_all_invariant [OF assms(1) this]
  have inv: "ok (insert_all (holes c a b) c)"
    and slots: "slots (insert_all (holes c a b) c) = slots c \<union> ({a..b} - slots c)"
    by (simp_all add: holes_set [OF assms(1)])
  then show "slots (insert_all (holes c a b) c) = slots c \<union> {a..b}" by auto
  then show "holes (insert_all (holes c a b) c) a b = []"
    by (simp add: holes_Nil_iff [OF inv])
qed

lemma contains_after_evict: "ok c \<Longrightarrow> contains (remove_below f c) x \<longleftrightarrow> f \<le> x \<and> contains c x"
  by (auto simp: contains_iff ok_remove_below slots_remove_below)

end

section \<open>Separated lists of ranges\<close>

lemma separated_iff:
  "spans_separated m \<longleftrightarrow>
     bt_ok m \<and> (\<forall>(a, b)\<in>set m. a \<le> b \<and> (\<forall>(c, d)\<in>set m. a < c \<longrightarrow> Suc b < c))"
proof (induction m)
  case (Cons p m)
  then show ?case by (cases p) (fastforce simp: bt_ok_Cons)
qed (simp add: bt_ok_def)

lemma separated_bt_ok: "spans_separated m \<Longrightarrow> bt_ok m"
  by (simp add: separated_iff)

lemma separated_ascending: "spans_separated m \<Longrightarrow> spans_ascending m"
  by (induction m) auto

lemma separated_filter: "spans_separated m \<Longrightarrow> spans_separated (filter P m)"
  by (induction m) auto

lemma separated_bt_insert:
  "spans_separated m \<Longrightarrow> k \<le> v \<Longrightarrow> \<forall>(a, b)\<in>set m. Suc b < k \<or> Suc v < a \<Longrightarrow>
     spans_separated (bt_insert k v m) \<and> set (bt_insert k v m) = insert (k, v) (set m)"
proof (induction m)
  case (Cons p m)
  then show ?case by (cases p) fastforce
qed simp

lemma separated_pairD:
  assumes "spans_separated m" "(a, b) \<in> set m" "(c, d) \<in> set m"
  shows "a \<le> b" "a < c \<Longrightarrow> Suc b < c" "a = c \<Longrightarrow> b = d"
proof -
  show "a \<le> b" "a < c \<Longrightarrow> Suc b < c" using assms by (auto simp: separated_iff)
  have "distinct (map fst m)" using assms(1) by (auto dest: separated_bt_ok bt_ok_distinct)
  then show "a = c \<Longrightarrow> b = d" using assms(2,3) by (auto dest: eq_key_imp_eq_value)
qed

text \<open>The entry \<open>range(..=k).next_back()\<close> finds.\<close>

lemma bt_last_upto_Some:
  assumes "bt_ok m" "bt_last (bt_upto k m) = Some (a, b)"
  shows "(a, b) \<in> set m" "a \<le> k" "(c, d) \<in> set m \<Longrightarrow> c \<le> k \<Longrightarrow> c \<le> a"
proof -
  let ?u = "filter (\<lambda>p. fst p \<le> k) m"
  have u: "?u \<noteq> []" "last ?u = (a, b)"
    using assms(2) by (auto simp: bt_last_def bt_upto_def split: if_splits)
  from last_in_set [OF u(1)] u(2) show "(a, b) \<in> set m" "a \<le> k" by auto
  have "sorted_wrt (<) (map fst ?u)"
    using bt_ok_filter [OF assms(1), of "\<lambda>p. fst p \<le> k"] by (simp add: bt_ok_def)
  then have sorted: "sorted_wrt (\<lambda>p q. fst p < fst q) (butlast ?u @ [(a, b)])"
    using append_butlast_last_id [OF u(1)] u(2) by (simp add: sorted_wrt_map)
  show "c \<le> a" if "(c, d) \<in> set m" "c \<le> k"
  proof -
    have "(c, d) \<in> set (butlast ?u @ [(a, b)])"
      using that append_butlast_last_id [OF u(1)] u(2) by simp
    then show ?thesis using sorted by (auto simp: sorted_wrt_append)
  qed
qed

lemma bt_last_upto_None: "bt_last (bt_upto k m) = None \<Longrightarrow> (c, d) \<in> set m \<Longrightarrow> k < c"
  by (auto simp: bt_last_def bt_upto_def filter_empty_conv split: if_splits)

lemma set_bt_remove: "set (bt_remove k m) = {p \<in> set m. fst p \<noteq> k}"
  by (auto simp: bt_remove_def)

lemma spans_set_split:
  assumes "spans_separated m" "(a, b) \<in> set m"
  shows "spans_set m = {a..b} \<union> spans_set (bt_remove a m)"
proof -
  have "p \<in> set m \<longleftrightarrow> p = (a, b) \<or> p \<in> set (bt_remove a m)" for p
    using assms separated_pairD(3) [OF assms, of "fst p" "snd p"]
    by (cases p) (simp add: set_bt_remove, blast)
  then have "set m = insert (a, b) (set (bt_remove a m))" by blast
  then show ?thesis by (simp add: spans_set_def)
qed

section \<open>Insertion of a range\<close>

lemma absorb_step_ranges:
  "snd (foldl absorb_step st ks) = filter (\<lambda>p. fst p \<notin> set ks) (snd st)"
proof (induction ks arbitrary: st)
  case (Cons k ks)
  have "snd (absorb_step st k) = filter (\<lambda>p. fst p \<noteq> k) (snd st)"
  proof (cases "bt_get (snd st) k")
    case None
    then have "filter (\<lambda>p. fst p \<noteq> k) (snd st) = snd st"
      by (auto simp: bt_get_def map_of_eq_None_iff filter_id_conv)
    with None show ?thesis by (simp add: absorb_step_def)
  qed (simp add: absorb_step_def bt_remove_def)
  with Cons show ?case by (auto intro!: filter_cong)
qed simp

lemma absorb_step_end:
  "bt_ok (snd st) \<Longrightarrow> set ks \<subseteq> fst ` set (snd st) \<Longrightarrow> distinct ks \<Longrightarrow>
   (let e = fst (foldl absorb_step st ks) in
      fst st \<le> e \<and> (\<forall>(a, b)\<in>set (snd st). a \<in> set ks \<longrightarrow> b \<le> e) \<and>
      (e = fst st \<or> (\<exists>a\<in>set ks. (a, e) \<in> set (snd st))))"
proof (induction ks arbitrary: st)
  case (Cons k ks)
  from Cons.prems obtain b where kb: "(k, b) \<in> set (snd st)" by auto
  have dist: "distinct (map fst (snd st))" using Cons.prems(1) by (rule bt_ok_distinct)
  then have get: "bt_get (snd st) k = Some b" using kb by (simp add: bt_get_def)
  let ?st = "(max (fst st) b, bt_remove k (snd st))"
  have step: "absorb_step st k = ?st" using get by (simp add: absorb_step_def)
  have "bt_ok (snd ?st)"
    using bt_ok_filter [OF Cons.prems(1), of "\<lambda>p. fst p \<noteq> k"] by (simp add: bt_remove_def)
  moreover have "set ks \<subseteq> fst ` set (snd ?st)"
  proof
    fix x assume "x \<in> set ks"
    then have "x \<in> fst ` set (snd st)" "x \<noteq> k" using Cons.prems(2,3) by auto
    then obtain y where "(x, y) \<in> set (snd st)" "x \<noteq> k" by auto
    then have "(x, y) \<in> set (snd ?st)" by (simp add: set_bt_remove)
    then show "x \<in> fst ` set (snd ?st)" by force
  qed
  ultimately have "bt_ok (snd ?st)" "set ks \<subseteq> fst ` set (snd ?st)" .
  note ih = Cons.IH [OF this, unfolded Let_def]
  define e where "e = fst (foldl absorb_step ?st ks)"
  have ge: "fst st \<le> e" "b \<le> e"
    and all: "\<And>a b'. (a, b') \<in> set (snd st) \<Longrightarrow> a \<noteq> k \<Longrightarrow> a \<in> set ks \<Longrightarrow> b' \<le> e"
    and attained: "e = max (fst st) b \<or> (\<exists>a\<in>set ks. (a, e) \<in> set (snd st))"
    using ih Cons.prems(3) unfolding e_def by (auto simp: set_bt_remove)
  have uniq: "b' = b" if "(k, b') \<in> set (snd st)" for b'
    using dist kb that by (rule eq_key_imp_eq_value [THEN sym])
  have "\<forall>(a, b')\<in>set (snd st). a \<in> set (k # ks) \<longrightarrow> b' \<le> e"
    using all uniq ge by fastforce
  moreover have "e = fst st \<or> (\<exists>a\<in>set (k # ks). (a, e) \<in> set (snd st))"
    using attained kb by (cases "fst st \<le> b") (auto simp: max_def)
  ultimately show ?case using ge by (simp add: step e_def Let_def)
qed (simp add: Let_def)

text \<open>What the first absorption leaves: no range below \<open>new_start\<close> touches it.\<close>

lemma absorb_previous_props:
  assumes sep: "spans_separated m" and u: "\<forall>p\<in>set m. is_u64 (snd p)"
    and "start \<le> end" "is_u64 end"
    and eq: "absorb_previous m start end = (ns, ne, m1)"
  shows "spans_separated m1" "set m1 \<subseteq> set m" "ns \<le> ne" "is_u64 ne"
    and "(a, b) \<in> set m1 \<Longrightarrow> a \<le> ns \<Longrightarrow> Suc b < ns"
    and "{ns..ne} \<union> spans_set m1 = {start..end} \<union> spans_set m"
proof -
  have start: "is_u64 start" using assms(3,4) by (rule is_u64_mono [rotated])
  consider (keep) "ns = start" "ne = end" "m1 = m" "\<And>a b. (a, b) \<in> set m \<Longrightarrow> a \<le> start \<Longrightarrow> Suc b < start"
    | (absorb) ps pe where "(ps, pe) \<in> set m" "ps \<le> start" "start \<le> Suc pe"
        "ns = ps" "ne = max end pe" "m1 = bt_remove ps m"
        "\<And>a b. (a, b) \<in> set m \<Longrightarrow> a \<le> start \<Longrightarrow> a \<le> ps"
  proof (cases "bt_last (bt_upto start m)")
    case None
    have "Suc b < start" if "(a, b) \<in> set m" "a \<le> start" for a b
      using bt_last_upto_None [OF None that(1)] that(2) by simp
    then show ?thesis using eq that(1) None by (simp add: absorb_previous_def)
  next
    case (Some p)
    then obtain ps pe where p: "bt_last (bt_upto start m) = Some (ps, pe)" by (cases p) auto
    note last = bt_last_upto_Some [OF separated_bt_ok [OF sep] p]
    show ?thesis
    proof (cases "start \<le> Suc pe")
      case True
      then have "ns = ps \<and> ne = max end pe \<and> m1 = bt_remove ps m"
        using eq p start by (auto simp: absorb_previous_def sat_add_one_ge_iff simp del: One_nat_def)
      then show ?thesis using that(2) [of ps pe] last True by simp
    next
      case False
      have "Suc b < start" if "(a, b) \<in> set m" "a \<le> start" for a b
        using last(3) [OF that] separated_pairD [OF sep that(1) last(1)]
          separated_pairD(1) [OF sep last(1) last(1)] False
        by (cases "a = ps") auto
      moreover have "ns = start \<and> ne = end \<and> m1 = m"
        using eq p start False
        by (auto simp: absorb_previous_def sat_add_one_ge_iff simp del: One_nat_def)
      ultimately show ?thesis using that(1) by simp
    qed
  qed
  then have "spans_separated m1 \<and> set m1 \<subseteq> set m \<and> ns \<le> ne \<and> is_u64 ne \<and>
    ((a, b) \<in> set m1 \<longrightarrow> a \<le> ns \<longrightarrow> Suc b < ns) \<and>
    {ns..ne} \<union> spans_set m1 = {start..end} \<union> spans_set m"
  proof cases
    case keep
    then show ?thesis using sep assms(3,4) by simp
  next
    case absorb
    have pe: "is_u64 pe" using u absorb(1) by auto
    have le: "ps \<le> pe" using separated_pairD(1) [OF sep absorb(1) absorb(1)] .
    have "Suc b < ps" if "(a, b) \<in> set (bt_remove ps m)" "a \<le> ps"
      using that separated_pairD(2) [OF sep _ absorb(1), of a b] by (simp add: set_bt_remove)
    moreover have "spans_set m = {ps..pe} \<union> spans_set (bt_remove ps m)"
      by (rule spans_set_split [OF sep absorb(1)])
    moreover have "{ps..max end pe} = {start..end} \<union> {ps..pe}"
      using absorb(2,3) assms(3) le by (auto simp: max_def)
    moreover have "{ps..max end pe} \<union> spans_set (bt_remove ps m) = {start..end} \<union> spans_set m"
      unfolding calculation(2,3) by (simp add: Un_assoc)
    moreover have "spans_separated (bt_remove ps m)" "is_u64 (max end pe)" "ps \<le> max end pe"
      using separated_filter [OF sep, of "\<lambda>p. fst p \<noteq> ps"] assms(4) pe le
      by (simp_all add: bt_remove_def max_def)
    ultimately show ?thesis unfolding absorb(4-6) by (simp add: set_bt_remove)
  qed
  then show "spans_separated m1" "set m1 \<subseteq> set m" "ns \<le> ne" "is_u64 ne"
    "(a, b) \<in> set m1 \<Longrightarrow> a \<le> ns \<Longrightarrow> Suc b < ns"
    "{ns..ne} \<union> spans_set m1 = {start..end} \<union> spans_set m" by blast+
qed

text \<open>What the loop over \<open>absorbed\<close> leaves: no range at all touches the new one.\<close>

lemma absorb_rest_props:
  assumes sep: "spans_separated m1" and u: "\<forall>p\<in>set m1. is_u64 (snd p)"
    and "ns \<le> ne" "is_u64 ne" and below: "\<forall>(a, b)\<in>set m1. a \<le> ns \<longrightarrow> Suc b < ns"
    and fold: "foldl absorb_step (ne, m1) (bt_keys (bt_range ns (sat_add ne 1) m1)) = (e, m2)"
  shows "spans_separated m2" "set m2 \<subseteq> set m1" "ns \<le> e" "is_u64 e"
    and "\<forall>(a, b)\<in>set m2. Suc b < ns \<or> Suc e < a"
    and "{ns..e} \<union> spans_set m2 = {ns..ne} \<union> spans_set m1"
proof -
  define ks where "ks = bt_keys (bt_range ns (sat_add ne 1) m1)"
  let ?in = "filter (\<lambda>p. fst p \<in> set ks) m1"
  have m2: "m2 = filter (\<lambda>p. fst p \<notin> set ks) m1"
    using absorb_step_ranges [of "(ne, m1)" ks] fold by (simp add: ks_def)
  have in_ks: "a \<in> set ks \<longleftrightarrow> ns \<le> a \<and> a \<le> Suc ne" if "(a, b) \<in> set m1" for a b
  proof -
    have "is_u64 a" using separated_pairD(1) [OF sep that that] u that by (auto intro: is_u64_mono)
    then have "a \<le> sat_add ne 1 \<longleftrightarrow> a \<le> Suc ne" by (rule sat_add_one_ge_iff)
    then show ?thesis using that by (force simp: ks_def bt_keys_def bt_range_def image_iff)
  qed
  have "set ks \<subseteq> fst ` set m1" "distinct ks"
    using bt_ok_distinct [OF separated_bt_ok [OF sep]]
    by (auto simp: ks_def bt_keys_def bt_range_def distinct_map_filter)
  then have e: "ne \<le> e" "\<And>a b. (a, b) \<in> set m1 \<Longrightarrow> a \<in> set ks \<Longrightarrow> b \<le> e"
    "e = ne \<or> (\<exists>a\<in>set ks. (a, e) \<in> set m1)"
    using absorb_step_end [of "(ne, m1)" ks] separated_bt_ok [OF sep] fold
    by (auto simp: Let_def ks_def)
  show "spans_separated m2" "set m2 \<subseteq> set m1" "ns \<le> e" "is_u64 e"
    using separated_filter [OF sep] e assms(3,4) u by (auto simp: m2)
  have touch: "Suc b < ns \<or> Suc e < a" if "(a, b) \<in> set m2" for a b
  proof (cases "a \<le> ns")
    case True
    then show ?thesis using below that by (auto simp: m2)
  next
    case False
    then have "Suc ne < a" using that in_ks [of a b] by (simp add: m2)
    then show ?thesis using e(3) in_ks that separated_pairD(2) [OF sep] by (fastforce simp: m2)
  qed
  then show "\<forall>(a, b)\<in>set m2. Suc b < ns \<or> Suc e < a" by auto
  have "{ns..ne} \<union> spans_set ?in = {ns..e}" (is "?l = ?r")
  proof
    show "?l \<subseteq> ?r" using e(1,2) in_ks by (fastforce simp: in_spans_set)
    show "?r \<subseteq> ?l"
    proof (cases "e = ne")
      case False
      then obtain a where a: "a \<in> set ks" "(a, e) \<in> set m1" using e(3) by blast
      then have "a \<le> Suc ne" "(a, e) \<in> set ?in" using in_ks [of a e] by simp_all
      then show ?thesis by (fastforce simp: in_spans_set)
    qed simp
  qed
  moreover have "spans_set m1 = spans_set ?in \<union> spans_set m2"
    by (auto simp: spans_set_def m2)
  ultimately show "{ns..e} \<union> spans_set m2 = {ns..ne} \<union> spans_set m1" by blast
qed

lemma insert_range_ranges:
  assumes ok: "coverage_ok m" and "start \<le> end" "is_u64 end"
    and r: "r = cm_ranges (coverage_map_insert_range start end m)"
  shows "spans_separated r \<and> (\<forall>p\<in>set r. is_u64 (snd p)) \<and>
         spans_set r = spans_set (cm_ranges m) \<union> {start..end}"
proof -
  have sep: "spans_separated (cm_ranges m)" and u: "\<forall>p\<in>set (cm_ranges m). is_u64 (snd p)"
    using ok by (simp_all add: coverage_ok_def)
  obtain ns ne m1 where prev: "absorb_previous (cm_ranges m) start end = (ns, ne, m1)"
    by (cases "absorb_previous (cm_ranges m) start end")
  note p = absorb_previous_props [OF sep u assms(2,3) prev]
  obtain e m2 where
    fold: "foldl absorb_step (ne, m1) (bt_keys (bt_range ns (sat_add ne 1) m1)) = (e, m2)"
    by fastforce
  have u1: "\<forall>p\<in>set m1. is_u64 (snd p)" using p(2) u by auto
  have below: "\<forall>(a, b)\<in>set m1. a \<le> ns \<longrightarrow> Suc b < ns" using p(5) by auto
  note q = absorb_rest_props [OF p(1) u1 p(3,4) below fold]
  have "r = bt_insert ns e m2"
    using assms(2) fold by (simp add: r coverage_map_insert_range_def prev)
  moreover have "spans_separated (bt_insert ns e m2) \<and> set (bt_insert ns e m2) = insert (ns, e) (set m2)"
    by (rule separated_bt_insert [OF q(1,3,5)])
  moreover have "spans_set (bt_insert ns e m2) = {ns..e} \<union> spans_set m2"
    using calculation(2) by (simp add: spans_set_def)
  moreover have "\<forall>p\<in>set m2. is_u64 (snd p)" using u1 q(2) by auto
  ultimately show ?thesis using q(4,6) p(6) by (simp add: Un_commute)
qed

lemma coverage_slots_insert_range:
  assumes "coverage_ok m" "is_u64 end"
  shows "coverage_ok (coverage_map_insert_range start end m)"
    and "coverage_slots (coverage_map_insert_range start end m) = coverage_slots m \<union> {start..end}"
proof -
  have "coverage_ok (coverage_map_insert_range start end m) \<and>
    coverage_slots (coverage_map_insert_range start end m) = coverage_slots m \<union> {start..end}"
  proof (cases "start \<le> end")
    case True
    from insert_range_ranges [OF assms(1) True assms(2) refl]
    show ?thesis by (simp add: coverage_ok_def coverage_slots_def)
  next
    case False
    then show ?thesis using assms(1) by (simp add: coverage_map_insert_range_def)
  qed
  then show "coverage_ok (coverage_map_insert_range start end m)"
    and "coverage_slots (coverage_map_insert_range start end m) = coverage_slots m \<union> {start..end}"
    by simp_all
qed

section \<open>Removal\<close>

lemma remove_outside:
  assumes "spans_separated m" "\<And>a b. bt_last (bt_upto s m) = Some (a, b) \<Longrightarrow> b < s"
  shows "s \<notin> spans_set m"
proof
  assume "s \<in> spans_set m"
  then obtain a b where ab: "(a, b) \<in> set m" "a \<le> s" "s \<le> b" by (auto simp: in_spans_set)
  then obtain c d where cd: "bt_last (bt_upto s m) = Some (c, d)"
    using bt_last_upto_None [of s m a b] by (cases "bt_last (bt_upto s m)") auto
  note last = bt_last_upto_Some [OF separated_bt_ok [OF assms(1)] cd]
  have "a \<le> c" by (rule last(3) [OF ab(1,2)])
  then show False
    using separated_pairD [OF assms(1) ab(1) last(1)] assms(2) [OF cd] ab(3) last(2)
    by (cases "a = c") auto
qed

lemma separated_others:
  assumes "spans_separated m" "(a, b) \<in> set m" "(x, y) \<in> set (bt_remove a m)"
  shows "Suc y < a \<or> Suc b < x"
proof -
  have xy: "(x, y) \<in> set m" "x \<noteq> a" using assms(3) by (auto simp: set_bt_remove)
  then show ?thesis
    using separated_pairD(2) [OF assms(1) xy(1) assms(2)] separated_pairD(2) [OF assms(1,2) xy(1)]
    by (cases x a rule: linorder_cases) simp_all
qed

lemma separated_insert_below:
  assumes "spans_separated m" "(a, b) \<in> set m" "a \<le> c" "c \<le> d" "d \<le> b"
  shows "spans_separated (bt_insert c d (bt_remove a m)) \<and>
         set (bt_insert c d (bt_remove a m)) = insert (c, d) (set (bt_remove a m))"
proof (rule separated_bt_insert)
  show "spans_separated (bt_remove a m)"
    unfolding bt_remove_def by (rule separated_filter [OF assms(1)])
  show "\<forall>(x, y)\<in>set (bt_remove a m). Suc y < c \<or> Suc d < x"
    using separated_others [OF assms(1,2)] assms(3,5) by fastforce
qed (fact assms(4))

lemma remove_props:
  assumes sep: "spans_separated m" and last: "(a, b) \<in> set m" and "a \<le> s" "s \<le> b"
    and r2: "r2 = (if a < s then bt_insert a (s - 1) (bt_remove a m) else bt_remove a m)"
    and r3: "r3 = (if s < b then bt_insert (s + 1) b r2 else r2)"
  shows "spans_separated r3" "spans_set r3 = spans_set m - {s}" "snd ` set r3 \<subseteq> snd ` set m \<union> {..s}"
proof -
  have others: "\<And>x y. (x, y) \<in> set (bt_remove a m) \<Longrightarrow> Suc y < a \<or> Suc b < x"
    by (rule separated_others [OF sep last])
  have sep1: "spans_separated (bt_remove a m)"
    unfolding bt_remove_def by (rule separated_filter [OF sep])
  have s2: "spans_separated r2 \<and>
    set r2 = (if a < s then insert (a, s - 1) (set (bt_remove a m)) else set (bt_remove a m))"
    using separated_insert_below [OF sep last, of a "s - 1"] sep1 assms(4) by (auto simp: r2)
  have s3: "spans_separated r3 \<and> set r3 = (if s < b then insert (s + 1, b) (set r2) else set r2)"
  proof (cases "s < b")
    case True
    have "\<forall>(x, y)\<in>set r2. Suc y < s + 1 \<or> Suc b < x"
      using others s2 assms(3) by (fastforce split: if_splits)
    then show ?thesis
      using separated_bt_insert [of r2 "s + 1" b] s2 True by (simp add: r3)
  qed (simp add: r3 s2)
  show "spans_separated r3" using s3 by simp
  have "s \<notin> spans_set (bt_remove a m)"
    using others assms(3,4) by (fastforce simp: in_spans_set)
  moreover have "spans_set r3 = ({a..b} - {s}) \<union> spans_set (bt_remove a m)"
    using s3 s2 assms(3,4) unfolding spans_set_def by auto
  ultimately show "spans_set r3 = spans_set m - {s}"
    by (simp add: spans_set_split [OF sep last] Un_Diff)
  show "snd ` set r3 \<subseteq> snd ` set m \<union> {..s}"
  proof (rule image_subsetI)
    fix p assume "p \<in> set r3"
    then consider "p = (s + 1, b)" | "p = (a, s - 1)" | "p \<in> set (bt_remove a m)"
      using s3 s2 by (metis (full_types) insert_iff)
    then show "snd p \<in> snd ` set m \<union> {..s}" using last by cases (force simp: set_bt_remove)+
  qed
qed

lemma coverage_slots_remove:
  assumes "coverage_ok m"
  shows "coverage_ok (coverage_map_remove s m) \<and>
         coverage_slots (coverage_map_remove s m) = coverage_slots m - {s}"
proof -
  have sep: "spans_separated (cm_ranges m)" and u: "\<forall>p\<in>set (cm_ranges m). is_u64 (snd p)"
    using assms by (simp_all add: coverage_ok_def)
  show ?thesis
  proof (cases "\<exists>a b. bt_last (bt_upto s (cm_ranges m)) = Some (a, b) \<and> s \<le> b")
    case True
    then obtain a b where last: "bt_last (bt_upto s (cm_ranges m)) = Some (a, b)" "s \<le> b" by blast
    note ab = bt_last_upto_Some(1,2) [OF separated_bt_ok [OF sep] last(1)]
    note r = remove_props [OF sep ab last(2) refl refl]
    have "is_u64 s" using u ab(1) last(2) by (auto intro: is_u64_mono)
    then have "\<forall>p\<in>set (cm_ranges (coverage_map_remove s m)). is_u64 (snd p)"
      using r(3) u last by (fastforce simp: coverage_map_remove_def Let_def intro: is_u64_mono)
    then show ?thesis using r(1,2) last
      by (simp add: coverage_ok_def coverage_slots_def coverage_map_remove_def Let_def)
  next
    case False
    then have "s \<notin> spans_set (cm_ranges m)" by (intro remove_outside [OF sep]) (meson not_less)
    moreover have "coverage_map_remove s m = m"
      using False by (auto simp: coverage_map_remove_def split: option.splits)
    ultimately show ?thesis using assms by (simp add: coverage_slots_def)
  qed
qed

lemma evict_step_props:
  assumes sep: "spans_separated m" and "k < f" and r: "r = evict_step f m k"
  shows "spans_separated r" "snd ` set r \<subseteq> snd ` set m"
    and "f \<le> x \<Longrightarrow> x \<in> spans_set r \<longleftrightarrow> x \<in> spans_set m"
    and "(a, b) \<in> set r \<Longrightarrow> a < f \<Longrightarrow> (a, b) \<in> set m \<and> a \<noteq> k"
proof -
  have "spans_separated r \<and> snd ` set r \<subseteq> snd ` set m \<and>
    (f \<le> x \<longrightarrow> x \<in> spans_set r \<longleftrightarrow> x \<in> spans_set m) \<and>
    ((a, b) \<in> set r \<longrightarrow> a < f \<longrightarrow> (a, b) \<in> set m \<and> a \<noteq> k)"
  proof (cases "bt_get m k")
    case None
    then have "k \<notin> fst ` set m" by (simp add: bt_get_def map_of_eq_None_iff)
    then have "a \<noteq> k" if "(a, b) \<in> set m" using that by force
    then show ?thesis using sep None by (simp add: r evict_step_def)
  next
    case (Some e)
    then have ke: "(k, e) \<in> set m" by (simp add: bt_get_def map_of_SomeD)
    have sep': "spans_separated (bt_remove k m)"
      unfolding bt_remove_def by (rule separated_filter [OF sep])
    show ?thesis
    proof (cases "f \<le> e")
      case True
      have ins: "spans_separated (bt_insert f e (bt_remove k m)) \<and>
          set (bt_insert f e (bt_remove k m)) = insert (f, e) (set (bt_remove k m))"
        using separated_insert_below [OF sep ke, of f e] assms(2) True by simp
      then have set_r: "set r = insert (f, e) (set (bt_remove k m))"
        using Some True by (simp add: r evict_step_def)
      have "spans_set r = {f..e} \<union> spans_set (bt_remove k m)" by (simp add: spans_set_def set_r)
      then have "f \<le> x \<longrightarrow> x \<in> spans_set r \<longleftrightarrow> x \<in> spans_set m"
        using spans_set_split [OF sep ke] assms(2) by auto
      moreover have "snd ` set r \<subseteq> snd ` set m"
        using ke unfolding set_r set_bt_remove by force
      moreover have "spans_separated r" using ins Some True by (simp add: r evict_step_def)
      ultimately show ?thesis using set_r by (simp add: set_bt_remove)
    next
      case False
      then have "r = bt_remove k m" using Some by (simp add: r evict_step_def)
      moreover have "f \<le> x \<longrightarrow> x \<in> spans_set (bt_remove k m) \<longleftrightarrow> x \<in> spans_set m"
        using spans_set_split [OF sep ke] False by auto
      ultimately show ?thesis using sep' by (simp add: set_bt_remove) blast
    qed
  qed
  then show "spans_separated r" "snd ` set r \<subseteq> snd ` set m"
    "f \<le> x \<Longrightarrow> x \<in> spans_set r \<longleftrightarrow> x \<in> spans_set m"
    "(a, b) \<in> set r \<Longrightarrow> a < f \<Longrightarrow> (a, b) \<in> set m \<and> a \<noteq> k" by blast+
qed

lemma evict_fold_props:
  "spans_separated m \<Longrightarrow> \<forall>k\<in>set ks. k < f \<Longrightarrow> r = foldl (evict_step f) m ks \<Longrightarrow>
     spans_separated r \<and> snd ` set r \<subseteq> snd ` set m \<and>
     (\<forall>x\<ge>f. x \<in> spans_set r \<longleftrightarrow> x \<in> spans_set m) \<and>
     (\<forall>a b. (a, b) \<in> set r \<longrightarrow> a < f \<longrightarrow> (a, b) \<in> set m \<and> a \<notin> set ks)"
proof (induction ks arbitrary: m)
  case (Cons k ks)
  have k: "k < f" and ks: "\<forall>k\<in>set ks. k < f"
    and r: "r = foldl (evict_step f) (evict_step f m k) ks"
    using Cons.prems(2,3) by simp_all
  note step = evict_step_props [OF Cons.prems(1) k refl]
  have ih: "spans_separated r" "snd ` set r \<subseteq> snd ` set (evict_step f m k)"
    "\<And>x. f \<le> x \<Longrightarrow> x \<in> spans_set r \<longleftrightarrow> x \<in> spans_set (evict_step f m k)"
    "\<And>a b. (a, b) \<in> set r \<Longrightarrow> a < f \<Longrightarrow> (a, b) \<in> set (evict_step f m k) \<and> a \<notin> set ks"
    using Cons.IH [OF step(1) ks r] by blast+
  have "snd ` set r \<subseteq> snd ` set m" using ih(2) step(2) by (rule subset_trans)
  moreover have "(a, b) \<in> set m \<and> a \<notin> set (k # ks)" if "(a, b) \<in> set r" "a < f" for a b
    using ih(4) [OF that] step(4) [of a b] that(2) by simp
  moreover have "x \<in> spans_set r \<longleftrightarrow> x \<in> spans_set m" if "f \<le> x" for x
    using ih(3) [OF that] step(3) [OF that] by simp
  ultimately show ?case using ih(1) by blast
qed auto

lemma coverage_slots_remove_below:
  assumes "coverage_ok m"
  shows "coverage_ok (coverage_map_remove_below f m) \<and>
         coverage_slots (coverage_map_remove_below f m) = coverage_slots m - {..<f}"
proof -
  have sep: "spans_separated (cm_ranges m)" and u: "\<forall>p\<in>set (cm_ranges m). is_u64 (snd p)"
    using assms by (simp_all add: coverage_ok_def)
  let ?ks = "bt_keys (bt_below f (cm_ranges m))"
  have ks: "set ?ks = {k \<in> fst ` set (cm_ranges m). k < f}"
    by (auto simp: bt_keys_def bt_below_def)
  define r where "r = foldl (evict_step f) (cm_ranges m) ?ks"
  have p: "spans_separated r" "snd ` set r \<subseteq> snd ` set (cm_ranges m)"
    "\<forall>x\<ge>f. x \<in> spans_set r \<longleftrightarrow> x \<in> spans_set (cm_ranges m)"
    "\<And>a b. (a, b) \<in> set r \<Longrightarrow> a < f \<Longrightarrow> (a, b) \<in> set (cm_ranges m) \<and> a \<notin> set ?ks"
    using evict_fold_props [OF sep _ r_def] ks by simp_all
  have "\<not> a < f" if "(a, b) \<in> set r" for a b
    using p(4) [OF that] ks by force
  then have "f \<le> x" if "x \<in> spans_set r" for x
    using that by (fastforce simp: in_spans_set)
  then have "spans_set r = spans_set (cm_ranges m) - {..<f}"
    using p(3) by (simp add: set_eq_iff not_less) blast
  moreover have "\<forall>p\<in>set r. is_u64 (snd p)" using p(2) u by fastforce
  ultimately show ?thesis
    using p(1) by (simp add: coverage_map_remove_below_def coverage_ok_def coverage_slots_def flip: r_def)
qed

section \<open>Queries\<close>

lemma last_upto_intersects:
  assumes "spans_separated m" "start \<le> end"
  shows "(case bt_last (bt_upto end m) of Some (_, e) \<Rightarrow> start \<le> e | None \<Rightarrow> False) \<longleftrightarrow>
         (\<exists>x\<in>{start..end}. x \<in> spans_set m)"
proof
  assume "case bt_last (bt_upto end m) of Some (_, e) \<Rightarrow> start \<le> e | None \<Rightarrow> False"
  then obtain a b where last: "bt_last (bt_upto end m) = Some (a, b)" "start \<le> b"
    by (auto split: option.splits)
  note ab = bt_last_upto_Some(1,2) [OF separated_bt_ok [OF assms(1)] last(1)]
  have "a \<le> b" using separated_pairD(1) [OF assms(1) ab(1) ab(1)] .
  then have "max a start \<in> {start..end}" "max a start \<in> spans_set m"
    using ab last(2) assms(2) by (auto intro: spans_setI)
  then show "\<exists>x\<in>{start..end}. x \<in> spans_set m" by blast
next
  assume "\<exists>x\<in>{start..end}. x \<in> spans_set m"
  then obtain x a b where x: "start \<le> x" "x \<le> end" "(a, b) \<in> set m" "a \<le> x" "x \<le> b"
    by (auto simp: in_spans_set)
  then obtain c d where cd: "bt_last (bt_upto end m) = Some (c, d)"
    using bt_last_upto_None [of "end" m a b] by (cases "bt_last (bt_upto end m)") auto
  note last = bt_last_upto_Some [OF separated_bt_ok [OF assms(1)] cd]
  have "a \<le> c" using last(3) [OF x(3)] x(2,4) by simp
  then have "b \<le> d"
    using separated_pairD(2,3) [OF assms(1) x(3) last(1)] separated_pairD(1) [OF assms(1) last(1) last(1)]
    by (cases "a = c") auto
  then show "case bt_last (bt_upto end m) of Some (_, e) \<Rightarrow> start \<le> e | None \<Rightarrow> False"
    using cd x(1,5) by simp
qed

lemma coverage_intersects_iff:
  "coverage_ok m \<Longrightarrow> start \<le> end \<Longrightarrow>
     coverage_map_intersects m start end \<longleftrightarrow> (\<exists>x\<in>{start..end}. x \<in> coverage_slots m)"
  unfolding coverage_map_intersects_def coverage_ok_def coverage_slots_def
  by (rule last_upto_intersects) simp_all

lemma coverage_contains_iff: "coverage_ok m \<Longrightarrow> coverage_map_contains m s \<longleftrightarrow> s \<in> coverage_slots m"
  using last_upto_intersects [of "cm_ranges m" s s]
  by (simp add: coverage_map_contains_def coverage_ok_def coverage_slots_def)

lemma last_separated:
  "spans_separated (p # m) \<Longrightarrow> q \<in> set (p # m) \<Longrightarrow> snd q \<le> snd (last (p # m)) \<and> fst q \<le> fst (last (p # m))"
  by (induction m arbitrary: p q) (force simp: span_ok_def)+

lemma coverage_covered_span:
  assumes "coverage_ok m"
  shows "coverage_map_covered_span m =
    (if coverage_slots m = {} then None else Some (Min (coverage_slots m), Max (coverage_slots m)))"
proof (cases "cm_ranges m")
  case Nil
  then show ?thesis by (simp add: coverage_map_covered_span_def bt_first_def coverage_slots_def)
next
  case (Cons p ps)
  then have sep: "spans_separated (p # ps)" using assms by (simp add: coverage_ok_def)
  obtain a b where p: "p = (a, b)" by (cases p)
  let ?S = "coverage_slots m"
  have S: "?S = spans_set (p # ps)" using Cons by (simp add: coverage_slots_def)
  have last: "last (p # ps) \<in> set (p # ps)" by (rule last_in_set) simp
  have ok: "fst q \<le> snd q" if "q \<in> set (p # ps)" for q
    using sep that by (auto simp: spans_separated_def list_all_iff span_ok_def)
  have "Min ?S = a"
  proof (rule Min_eqI)
    show "a \<le> x" if "x \<in> ?S" for x
      using that sep ok [of p] unfolding S by (fastforce simp: p in_spans_set)
  qed (use ok [of p] in \<open>simp_all add: S p\<close>)
  moreover have "Max ?S = snd (last (p # ps))"
  proof (rule Max_eqI)
    show "x \<le> snd (last (p # ps))" if x: "x \<in> ?S" for x
    proof -
      obtain c d where "(c, d) \<in> set (p # ps)" "x \<le> d" using x unfolding S in_spans_set by blast
      then show ?thesis using last_separated [OF sep, of "(c, d)"] by simp
    qed
    show "snd (last (p # ps)) \<in> ?S"
      unfolding S by (rule spans_setI [of "fst (last (p # ps))" "snd (last (p # ps))"])
        (use last ok [OF last] in simp_all)
  qed (simp only: S finite_spans_set)
  moreover have "?S \<noteq> {}" using ok [of p] by (auto simp: S p)
  ultimately show ?thesis
    by (simp add: coverage_map_covered_span_def Cons bt_first_def bt_last_def p split_beta)
qed

lemma coverage_contiguous_tip_span:
  assumes "coverage_ok m" "coverage_map_contiguous_tip_span m = Some (a, b)"
  shows "a \<le> b" "{a..b} \<subseteq> coverage_slots m" "b = Max (coverage_slots m)"
    and "0 < a \<Longrightarrow> a - 1 \<notin> coverage_slots m"
proof -
  have sep: "spans_separated (cm_ranges m)" using assms(1) by (simp add: coverage_ok_def)
  have last: "cm_ranges m \<noteq> []" "last (cm_ranges m) = (a, b)"
    using assms(2) by (simp_all add: coverage_map_contiguous_tip_span_def bt_last_def split: if_splits)
  then have mem: "(a, b) \<in> set (cm_ranges m)" using last_in_set [of "cm_ranges m"] by simp
  show "a \<le> b" using separated_pairD(1) [OF sep mem mem] .
  show "{a..b} \<subseteq> coverage_slots m" using mem by (auto simp: coverage_slots_def)
  then have "coverage_slots m \<noteq> {}" using \<open>a \<le> b\<close> by fastforce
  then show "b = Max (coverage_slots m)"
    using coverage_covered_span [OF assms(1)] last
    by (auto simp: coverage_map_covered_span_def bt_last_def split: option.splits)
  show "a - 1 \<notin> coverage_slots m" if "0 < a"
  proof
    assume "a - 1 \<in> coverage_slots m"
    then obtain c d where cd: "(c, d) \<in> set (cm_ranges m)" "c \<le> a - 1" "a - 1 \<le> d"
      by (auto simp: coverage_slots_def in_spans_set)
    then have "Suc d < a" using separated_pairD(2) [OF sep cd(1) mem] that by linarith
    then show False using cd(3) that by linarith
  qed
qed

lemma coverage_intersections_set:
  "spans_set (coverage_map_intersections m start end) = coverage_slots m \<inter> {start..end}"
proof -
  have "x \<in> spans_set (coverage_map_intersections m start end) \<longleftrightarrow>
      (\<exists>a b. (a, b) \<in> set (cm_ranges m) \<and> a \<le> end \<and> max a start \<le> min b end \<and>
             max a start \<le> x \<and> x \<le> min b end)" for x
    by (auto simp: coverage_map_intersections_def in_spans_set map_filter_def bt_upto_def
        split: if_splits) force+
  then show ?thesis by (fastforce simp: coverage_slots_def in_spans_set)
qed

lemma coverage_intersections_separated:
  "spans_separated (cm_ranges m) \<Longrightarrow> spans_separated (coverage_map_intersections m start end)"
proof -
  have "spans_separated ps \<Longrightarrow> spans_separated (List.map_filter (\<lambda>(floor, tip).
      (if max floor start \<le> min tip end then Some (max floor start, min tip end) else None)) ps)" for ps
  proof (induction ps)
    case (Cons p ps)
    then show ?case by (cases p) (force simp: map_filter_def split: if_splits)
  qed (simp add: map_filter_def)
  then show "spans_separated (cm_ranges m) \<Longrightarrow> ?thesis"
    unfolding coverage_map_intersections_def bt_upto_def by (blast intro: separated_filter)
qed

lemma holes_loop_ge: "\<forall>(a, b)\<in>set ps. cursor \<le> a \<and> a \<le> b \<Longrightarrow> spans_separated ps \<Longrightarrow>
    p \<in> set (holes_loop ps cursor end) \<Longrightarrow> cursor \<le> fst p"
proof (induction ps cursor "end" rule: holes_loop.induct)
  case (2 rs re ps c "end")
  have "Suc re \<le> fst p" if "p \<in> set (holes_loop ps (re + 1) end)" "\<not> end \<le> re"
    using 2(1) [OF that(2)] that 2(2,3) by (fastforce simp: span_ok_def spans_separated_def list_all_iff)
  then show ?case using 2(2,3,4) by (fastforce split: if_splits)
qed (simp split: if_splits)

lemma holes_loop_props:
  "\<forall>(a, b)\<in>set ps. cursor \<le> a \<and> a \<le> end \<Longrightarrow> spans_separated ps \<Longrightarrow>
    spans_set (holes_loop ps cursor end) = {cursor..end} - spans_set ps \<and>
    spans_separated (holes_loop ps cursor end)"
proof (induction ps cursor "end" rule: holes_loop.induct)
  case (2 rs re ps c "end")
  have le: "c \<le> rs" "rs \<le> end" "rs \<le> re" using 2(2,3) by auto
  have pred: "c < rs \<longrightarrow> c \<le> rs - 1" by linarith
  have rest: "\<forall>q\<in>set ps. Suc re < fst q \<and> fst q \<le> snd q" "spans_separated ps"
    using 2(3) by (auto simp: spans_separated_def list_all_iff span_ok_def)
  have beyond: "y \<notin> spans_set ps" if "y \<le> Suc re" for y
    using rest(1) that by (fastforce simp: in_spans_set)
  show ?case
  proof (cases "end \<le> re")
    case True
    have "{c..end} - ({rs..re} \<union> spans_set ps) = (if c < rs then {c..rs - 1} else {})"
    proof (rule set_eqI)
      show "x \<in> {c..end} - ({rs..re} \<union> spans_set ps) \<longleftrightarrow> x \<in> (if c < rs then {c..rs - 1} else {})" for x
        using le True beyond [of x] by (cases "x \<le> Suc re") auto
    qed
    then show ?thesis using True pred by simp
  next
    case False
    have ps: "\<forall>(a, b)\<in>set ps. re + 1 \<le> a \<and> a \<le> end" "\<forall>(a, b)\<in>set ps. re + 1 \<le> a \<and> a \<le> b"
      using rest(1) 2(2) by fastforce+
    note ih = 2(1) [OF False ps(1) rest(2)]
    have ge: "Suc re \<le> fst q" if "q \<in> set (holes_loop ps (re + 1) end)" for q
      using holes_loop_ge [OF ps(2) rest(2) that] by simp
    have "{c..end} - ({rs..re} \<union> spans_set ps) =
        (if c < rs then {c..rs - 1} else {}) \<union> ({re + 1..end} - spans_set ps)"
    proof (rule set_eqI)
      show "x \<in> {c..end} - ({rs..re} \<union> spans_set ps) \<longleftrightarrow>
          x \<in> (if c < rs then {c..rs - 1} else {}) \<union> ({re + 1..end} - spans_set ps)" for x
        using le False beyond [of x] by (cases "x \<le> Suc re") auto
    qed
    moreover have "\<forall>q\<in>set (holes_loop ps (re + 1) end). rs < fst q" using ge le(3) by fastforce
    ultimately show ?thesis using ih False pred by simp
  qed
qed simp

lemma holes_in_window:
  assumes "spans_separated m" "\<forall>(a, b)\<in>set m. a < c \<longrightarrow> b < c"
  shows "spans_set (holes_loop (bt_range c end m) c end) = {c..end} - spans_set m"
    and "spans_separated (holes_loop (bt_range c end m) c end)"
proof -
  have props: "spans_set (holes_loop (bt_range c end m) c end) = {c..end} - spans_set (bt_range c end m) \<and>
      spans_separated (holes_loop (bt_range c end m) c end)"
    by (rule holes_loop_props) (auto simp: bt_range_def intro: separated_filter [OF assms(1)])
  have "x \<in> spans_set (bt_range c end m) \<longleftrightarrow> x \<in> spans_set m" if "x \<in> {c..end}" for x
    using that assms(2) unfolding in_spans_set bt_range_def by fastforce
  then show "spans_set (holes_loop (bt_range c end m) c end) = {c..end} - spans_set m"
    using props by blast
  show "spans_separated (holes_loop (bt_range c end m) c end)" using props by simp
qed

lemma coverage_holes_in:
  assumes "coverage_ok m"
  shows "spans_set (coverage_map_holes_in m start end) = {start..end} - coverage_slots m \<and>
         spans_separated (coverage_map_holes_in m start end)"
proof -
  let ?m = "cm_ranges m"
  have sep: "spans_separated ?m" using assms by (simp add: coverage_ok_def)
  note ok = separated_bt_ok [OF sep]
  consider "end < start" | (swallowed) a b where "bt_last (bt_upto start ?m) = Some (a, b)" "start \<le> b" "start \<le> end"
    | (clear) "start \<le> end" "\<And>a b. bt_last (bt_upto start ?m) = Some (a, b) \<Longrightarrow> b < start"
    by (metis not_le)
  then show ?thesis
  proof cases
    case swallowed
    note last = bt_last_upto_Some [OF ok swallowed(1)]
    have covered: "{start..b} \<subseteq> spans_set ?m" using last(1,2) by auto
    have "y < b + 1" if "(x, y) \<in> set ?m" "x < b + 1" for x y
    proof (cases x a rule: linorder_cases)
      case greater
      then show ?thesis using separated_pairD(2) [OF sep last(1) that(1)] that(2) by simp
    qed (use separated_pairD(2,3) [OF sep that(1) last(1)]
          separated_pairD(1) [OF sep last(1) last(1)] in simp_all)
    then have "\<forall>(x, y)\<in>set ?m. x < b + 1 \<longrightarrow> y < b + 1" by blast
    note window = holes_in_window [OF sep this, of "end"]
    have "{start..end} - spans_set ?m = {b + 1..end} - spans_set ?m"
      using covered swallowed(2) by (auto simp: subset_iff not_le)
    then show ?thesis using window swallowed covered
      by (auto simp: coverage_map_holes_in_def coverage_slots_def)
  next
    case clear
    have "y < start" if "(x, y) \<in> set ?m" "x < start" for x y
      using remove_outside [OF sep clear(2)] that spans_setI [of x y ?m start] by force
    then have "\<forall>(x, y)\<in>set ?m. x < start \<longrightarrow> y < start" by blast
    note window = holes_in_window [OF sep this, of "end"]
    then show ?thesis using clear
      by (auto simp: coverage_map_holes_in_def coverage_slots_def split: option.splits)
  qed (simp add: coverage_map_holes_in_def)
qed

section \<open>The map implements the contract\<close>

lemma coverage_ok_new [simp]: "coverage_ok coverage_map_new"
  and coverage_slots_new [simp]: "coverage_slots coverage_map_new = {}"
  by (simp_all add: coverage_map_new_def coverage_ok_def coverage_slots_def)

interpretation cov: slot_set coverage_slots coverage_ok coverage_map_new coverage_map_insert_range
  coverage_map_remove coverage_map_remove_below coverage_map_contains coverage_map_holes_in
proof unfold_locales
  show "spans_ascending (coverage_map_holes_in c a b)" if "coverage_ok c" for c a b
    using coverage_holes_in [OF that, of a b] by (blast intro: separated_ascending)
qed (simp_all add: coverage_slots_insert_range coverage_slots_remove coverage_slots_remove_below
      coverage_contains_iff coverage_holes_in)

lemma coverage_apply_refines:
  "coverage_ok m \<Longrightarrow> coverage_op_ok x \<Longrightarrow>
     coverage_ok (coverage_apply m x) \<and>
     coverage_slots (coverage_apply m x) = slots_apply (coverage_slots m) x"
  by (cases x) (simp_all add: cov.ok_insert cov.slots_insert cov.ok_remove cov.slots_remove
      cov.ok_remove_below cov.slots_remove_below)

lemma coverage_foldl_refines:
  "coverage_ok m \<Longrightarrow> list_all coverage_op_ok ops \<Longrightarrow>
     coverage_ok (foldl coverage_apply m ops) \<and>
     coverage_slots (foldl coverage_apply m ops) = foldl slots_apply (coverage_slots m) ops"
  by (induction ops arbitrary: m) (simp_all add: coverage_apply_refines)

text \<open>
  C10. Functional refinement of the disk cache's coverage map: after any sequence of range
  insertions, single-slot removals and evictions the map's ranges are disjoint and non-adjacent,
  and \<open>contains\<close> answers exactly as the set of slots the same sequence builds.
\<close>

theorem coverage_map_refines_set:
  assumes "list_all coverage_op_ok ops"
  shows "let m = foldl coverage_apply coverage_map_new ops in
         spans_separated (cm_ranges m) \<and>
         (\<forall>s. coverage_map_contains m s \<longleftrightarrow> s \<in> foldl slots_apply {} ops)"
  using coverage_foldl_refines [OF coverage_ok_new assms(1)]
  by (simp add: Let_def cov.contains_iff) (simp add: coverage_ok_def)

theorem coverage_map_refines_set_witness:
  "let ops = [Insert_range 10 20, Insert_range 30 40, Insert_range 18 29, Remove 25, Remove_below 12];
       m = foldl coverage_apply coverage_map_new ops
   in spans_separated (cm_ranges m) \<and> coverage_map_contains m 40 \<and> \<not> coverage_map_contains m 25 \<and>
      \<not> coverage_map_contains m 11 \<and> cm_ranges m = [(12, 24), (26, 40)]"
proof -
  let ?ops = "[Insert_range 10 20, Insert_range 30 40, Insert_range 18 29, Remove 25, Remove_below 12]"
  have "list_all coverage_op_ok ?ops" by (simp add: u64_simps u64_max_def)
  moreover have "cm_ranges (foldl coverage_apply coverage_map_new ?ops) = [(12, 24), (26, 40)]"
    by code_simp
  moreover have "40 \<in> foldl slots_apply {} ?ops" "25 \<notin> foldl slots_apply {} ?ops"
    "11 \<notin> foldl slots_apply {} ?ops" by simp_all
  ultimately show ?thesis
    using coverage_map_refines_set [of ?ops] unfolding Let_def by blast
qed

text \<open>
  C26. Exactness of \<open>holes_in\<close>: on a well-formed map the holes of a window are precisely its
  uncovered slots, listed as maximal ranges in ascending order, and \<open>intersections\<close> lists precisely
  the covered ones; together they partition the window.
\<close>

theorem coverage_holes_partition:
  assumes "coverage_ok m"
  shows "spans_set (coverage_map_holes_in m start end) = {start..end} - coverage_slots m \<and>
         spans_separated (coverage_map_holes_in m start end) \<and>
         spans_set (coverage_map_intersections m start end) = coverage_slots m \<inter> {start..end} \<and>
         spans_separated (coverage_map_intersections m start end)"
  using assms coverage_holes_in coverage_intersections_set coverage_intersections_separated
  by (simp_all add: coverage_ok_def)

theorem coverage_holes_partition_witness:
  "let m = \<lparr>cm_ranges = [(5, 9), (12, 13), (20, 25)]\<rparr> in
     coverage_ok m \<and> coverage_map_holes_in m 7 22 = [(10, 11), (14, 19)] \<and>
     coverage_map_intersections m 7 22 = [(7, 9), (12, 13), (20, 22)] \<and>
     spans_set (coverage_map_holes_in m 7 22) = {7..22} - coverage_slots m"
proof -
  let ?m = "\<lparr>cm_ranges = [(5, 9), (12, 13), (20, 25)]\<rparr>"
  have ok: "coverage_ok ?m" by (simp add: coverage_ok_def u64_simps u64_max_def)
  have "coverage_map_holes_in ?m 7 22 = [(10, 11), (14, 19)]"
    "coverage_map_intersections ?m 7 22 = [(7, 9), (12, 13), (20, 22)]" by code_simp+
  then show ?thesis using ok coverage_holes_partition [OF ok, of 7 22] by (simp only: Let_def)
qed

text \<open>
  C27. The contiguous tip: the only span address scans may be answered from ends at the highest
  covered slot, is covered throughout, and cannot be extended downwards.
\<close>

theorem coverage_tip_span_maximal:
  assumes "coverage_ok m" "coverage_map_contiguous_tip_span m = Some (a, b)"
  shows "a \<le> b \<and> {a..b} \<subseteq> coverage_slots m \<and> b = Max (coverage_slots m) \<and>
         (0 < a \<longrightarrow> \<not> coverage_map_contains m (a - 1)) \<and>
         coverage_map_covered_span m = Some (Min (coverage_slots m), b)"
proof -
  note tip = coverage_contiguous_tip_span [OF assms]
  have "coverage_slots m \<noteq> {}" using tip(1,2) by fastforce
  then show ?thesis
    using tip coverage_covered_span [OF assms(1)] by (simp add: coverage_contains_iff [OF assms(1)])
qed

theorem coverage_tip_span_maximal_witness:
  "let m = \<lparr>cm_ranges = [(5, 9), (20, 25)]\<rparr> in
     coverage_ok m \<and> coverage_map_contiguous_tip_span m = Some (20, 25) \<and>
     {20..25} \<subseteq> coverage_slots m \<and> \<not> coverage_map_contains m 19"
proof -
  let ?m = "\<lparr>cm_ranges = [(5, 9), (20, 25)]\<rparr>"
  have ok: "coverage_ok ?m" by (simp add: coverage_ok_def u64_simps u64_max_def)
  have "coverage_map_contiguous_tip_span ?m = Some (20, 25)" by code_simp
  then show ?thesis using ok coverage_tip_span_maximal [OF ok, of 20 25] by simp
qed

end
