(* ===== verification/Slot_Coverage.thy ===== *)
theory Slot_Coverage
  imports Superbank_Prelude
begin

text \<open>
  Owned answers with their completeness intervals
  (\<^verbatim>\<open>src/crates/superbank-rpc/src/slot_coverage.rs\<close>).  A coverage value lists slots that hold a
  block together with the inclusive intervals on which that list is complete.  The specification is
  \<open>proves P c\<close>: inside the intervals of \<open>c\<close> the listed slots are exactly those of the ledger \<open>P\<close>.
  The lemmas show that \<open>gaps\<close> computes the uncovered remainder of a range, that \<open>merge\<close> keeps proofs
  of one ledger, and that \<open>merge_checked\<close> detects contradicting sources and never keeps a
  contradicted slot.
\<close>

section \<open>Model\<close>

record slot_coverage =
  sc_slots :: "slot list"
  sc_intervals :: "span list"

definition slot_coverage_default :: slot_coverage where
  "slot_coverage_default = \<lparr>sc_slots = [], sc_intervals = []\<rparr>"

definition slot_coverage_new :: "slot list \<Rightarrow> slot \<Rightarrow> slot \<Rightarrow> slot_coverage" where
  "slot_coverage_new slots start end = \<lparr>sc_slots = slots, sc_intervals = [(start, end)]\<rparr>"

definition slot_coverage_merge :: "slot_coverage \<Rightarrow> slot_coverage \<Rightarrow> slot_coverage" where
  "slot_coverage_merge self other =
     \<lparr>sc_slots = remdups_adj (sort (sc_slots self @ sc_slots other)),
      sc_intervals = sort (sc_intervals self @ sc_intervals other)\<rparr>"

text \<open>The loop of \<open>gaps\<close>: the spans it pushes from \<open>cursor\<close> on.\<close>

fun gaps_loop :: "span list \<Rightarrow> slot \<Rightarrow> slot \<Rightarrow> span list" where
  "gaps_loop [] cursor end = [(cursor, end)]"
| "gaps_loop ((floor, tip) # rest) cursor end =
     (if tip < cursor then gaps_loop rest cursor end
      else if end < floor then [(cursor, end)]
      else (if cursor < floor then [(cursor, floor - 1)] else []) @
           (if end \<le> tip then [] else gaps_loop rest (tip + 1) end))"

definition slot_coverage_gaps :: "slot_coverage \<Rightarrow> slot \<Rightarrow> slot \<Rightarrow> span list" where
  "slot_coverage_gaps self start end =
     (if end < start then [] else gaps_loop (sc_intervals self) start end)"

definition slot_coverage_exclude :: "slot_coverage \<Rightarrow> slot_coverage \<Rightarrow> slot_coverage" where
  "slot_coverage_exclude self exclusions =
     (let intervals =
        concat (map (\<lambda>(a, b). slot_coverage_gaps exclusions a b) (sc_intervals self))
      in \<lparr>sc_slots = filter (\<lambda>s. list_ex (\<lambda>(a, b). a \<le> s \<and> s \<le> b) intervals) (sc_slots self),
          sc_intervals = intervals\<rparr>)"

text \<open>The two nested loops of \<open>merge_checked\<close> that collect contradicted overlaps.\<close>

definition slots_within :: "slot \<Rightarrow> slot \<Rightarrow> slot list \<Rightarrow> slot list" where
  "slots_within start end slots = filter (\<lambda>s. start \<le> s \<and> s \<le> end) slots"

definition merge_conflicts :: "slot_coverage \<Rightarrow> slot_coverage \<Rightarrow> span list" where
  "merge_conflicts self other =
     [(max a c, min b d). (a, b) \<leftarrow> sc_intervals self, (c, d) \<leftarrow> sc_intervals other,
       max a c \<le> min b d \<and>
       slots_within (max a c) (min b d) (sc_slots self) \<noteq>
       slots_within (max a c) (min b d) (sc_slots other)]"

definition slot_coverage_merge_checked ::
  "slot_coverage \<Rightarrow> slot_coverage \<Rightarrow> bool \<times> slot_coverage" where
  "slot_coverage_merge_checked self other =
     (let conflicts = merge_conflicts self other;
          changed = (conflicts \<noteq> []);
          exclusions = \<lparr>sc_slots = [], sc_intervals = sort conflicts\<rparr>
      in (changed, slot_coverage_merge (slot_coverage_exclude self exclusions)
                                       (slot_coverage_exclude other exclusions)))"

section \<open>Specification\<close>

abbreviation covered :: "slot_coverage \<Rightarrow> slot set" where
  "covered c \<equiv> spans_set (sc_intervals c)"

definition intervals_ordered :: "slot_coverage \<Rightarrow> bool" where
  "intervals_ordered c \<longleftrightarrow>
     sorted (map fst (sc_intervals c)) \<and> list_all span_ok (sc_intervals c)"

definition proves :: "slot set \<Rightarrow> slot_coverage \<Rightarrow> bool" where
  "proves P c \<longleftrightarrow>
     sorted_wrt (<) (sc_slots c) \<and> set (sc_slots c) = P \<inter> covered c \<and> intervals_ordered c"

section \<open>Gaps\<close>

lemma gaps_loop_set:
  "sorted (map fst ps) \<Longrightarrow> cursor \<le> end \<Longrightarrow>
     spans_set (gaps_loop ps cursor end) = {cursor..end} - spans_set ps"
proof (induction ps cursor "end" rule: gaps_loop.induct)
  case (2 floor tip rest cursor "end")
  have later: "floor \<le> fst q" if "q \<in> set rest" for q
    using 2(3) that by auto
  then have rest_above: "spans_set rest \<subseteq> {floor..}"
    by (force simp: spans_set_def span_set_def)
  show ?case
  proof (cases "tip < cursor \<or> end < floor \<or> end \<le> tip")
    case True
    then show ?thesis using 2 rest_above by auto
  next
    case False
    then have "spans_set (gaps_loop rest (tip + 1) end) = {tip + 1..end} - spans_set rest"
      using 2(2,3) by simp
    then show ?thesis using False rest_above by auto
  qed
qed auto

lemma gaps_loop_bounds:
  "cursor \<le> end \<Longrightarrow> \<forall>q \<in> set (gaps_loop ps cursor end). cursor \<le> fst q \<and> fst q \<le> snd q \<and> snd q \<le> end"
proof (induction ps cursor "end" rule: gaps_loop.induct)
  case (2 floor tip rest cursor "end")
  then show ?case by (fastforce split: if_splits)
qed auto

lemma gaps_loop_separated:
  "list_all span_ok ps \<Longrightarrow> cursor \<le> end \<Longrightarrow> spans_separated (gaps_loop ps cursor end)"
proof (induction ps cursor "end" rule: gaps_loop.induct)
  case (2 floor tip rest cursor "end")
  show ?case
  proof (cases "tip < cursor \<or> end < floor \<or> end \<le> tip")
    case True
    then show ?thesis using 2 by auto
  next
    case False
    have "spans_separated (gaps_loop rest (tip + 1) end)"
      using False 2 by simp
    moreover have "\<forall>q \<in> set (gaps_loop rest (tip + 1) end). tip + 1 \<le> fst q"
      using gaps_loop_bounds [of "tip + 1" "end" rest] False by auto
    then have "cursor < floor \<Longrightarrow>
        \<forall>q \<in> set (gaps_loop rest (tip + 1) end). Suc (floor - 1) < fst q"
      using 2(3) by fastforce
    ultimately show ?thesis using False by auto
  qed
qed auto

lemma gaps_set:
  "sorted (map fst (sc_intervals c)) \<Longrightarrow>
     spans_set (slot_coverage_gaps c start end) = {start..end} - covered c"
  by (simp add: slot_coverage_gaps_def gaps_loop_set)

lemma gaps_separated: "intervals_ordered c \<Longrightarrow> spans_separated (slot_coverage_gaps c start end)"
  by (simp add: slot_coverage_gaps_def gaps_loop_separated intervals_ordered_def)

lemma gaps_ok: "q \<in> set (slot_coverage_gaps c start end) \<Longrightarrow> span_ok q"
  using gaps_loop_bounds [of start "end" "sc_intervals c"]
  by (auto simp: slot_coverage_gaps_def span_ok_def split: if_splits)

section \<open>Merging\<close>

lemma covered_merge [simp]: "covered (slot_coverage_merge c d) = covered c \<union> covered d"
  by (simp add: slot_coverage_merge_def)

lemma set_slots_merge [simp]:
  "set (sc_slots (slot_coverage_merge c d)) = set (sc_slots c) \<union> set (sc_slots d)"
  by (simp add: slot_coverage_merge_def)

lemma strict_sorted_slots_merge [simp]: "sorted_wrt (<) (sc_slots (slot_coverage_merge c d))"
  by (simp add: slot_coverage_merge_def sorted_wrt_remdups_adj)

lemma sorted_map_fst_sort: "sorted (map fst (sort (ps :: span list)))"
proof -
  have "sorted_wrt (\<le>) (sort ps)" by simp
  then have "sorted_wrt (\<lambda>p q. fst p \<le> fst q) (sort ps)"
    by (rule sorted_wrt_mono_rel [rotated]) (auto simp: less_eq_prod_def)
  then show ?thesis by (simp add: sorted_map)
qed

lemma intervals_ordered_merge:
  "list_all span_ok (sc_intervals c) \<Longrightarrow> list_all span_ok (sc_intervals d) \<Longrightarrow>
     intervals_ordered (slot_coverage_merge c d)"
  unfolding intervals_ordered_def slot_coverage_merge_def
  by (simp only: slot_coverage.simps sorted_map_fst_sort) (simp add: list_all_iff ball_Un)

lemma proves_default [simp]: "proves P slot_coverage_default"
  by (simp add: proves_def slot_coverage_default_def intervals_ordered_def)

lemma proves_new:
  "sorted_wrt (<) xs \<Longrightarrow> set xs = P \<inter> {a..b} \<Longrightarrow> a \<le> b \<Longrightarrow> proves P (slot_coverage_new xs a b)"
  by (simp add: proves_def slot_coverage_new_def intervals_ordered_def)

lemma proves_merge: "proves P c \<Longrightarrow> proves P d \<Longrightarrow> proves P (slot_coverage_merge c d)"
  by (auto simp: proves_def intervals_ordered_def intervals_ordered_merge [unfolded intervals_ordered_def])

section \<open>Checked merging\<close>

lemma set_slots_within [simp]: "set (slots_within a b xs) = set xs \<inter> {a..b}"
  by (auto simp: slots_within_def)

lemma sorted_slots_within: "sorted_wrt (<) xs \<Longrightarrow> sorted_wrt (<) (slots_within a b xs)"
  by (simp add: slots_within_def sorted_wrt_filter)

lemma slots_within_eq_iff:
  assumes "sorted_wrt (<) xs" "sorted_wrt (<) ys"
  shows "slots_within a b xs = slots_within a b ys \<longleftrightarrow> set xs \<inter> {a..b} = set ys \<inter> {a..b}"
proof
  assume "set xs \<inter> {a..b} = set ys \<inter> {a..b}"
  then show "slots_within a b xs = slots_within a b ys"
    using assms by (intro strict_sorted_equal) (simp_all add: sorted_slots_within)
next
  assume "slots_within a b xs = slots_within a b ys"
  then show "set xs \<inter> {a..b} = set ys \<inter> {a..b}"
    by (drule_tac arg_cong [where f = set]) simp
qed

lemma in_merge_conflicts:
  "p \<in> set (merge_conflicts c d) \<longleftrightarrow>
     (\<exists>a b a' b'. (a, b) \<in> set (sc_intervals c) \<and> (a', b') \<in> set (sc_intervals d) \<and>
        p = (max a a', min b b') \<and> max a a' \<le> min b b' \<and>
        slots_within (max a a') (min b b') (sc_slots c) \<noteq>
        slots_within (max a a') (min b b') (sc_slots d))"
  unfolding merge_conflicts_def by (simp only: in_pairs_comprehension)

lemma merge_conflictsI:
  "(a, b) \<in> set (sc_intervals c) \<Longrightarrow> (a', b') \<in> set (sc_intervals d) \<Longrightarrow> max a a' \<le> min b b' \<Longrightarrow>
   slots_within (max a a') (min b b') (sc_slots c) \<noteq> slots_within (max a a') (min b b') (sc_slots d) \<Longrightarrow>
   (max a a', min b b') \<in> set (merge_conflicts c d)"
  unfolding in_merge_conflicts by blast

lemma covered_exclude:
  assumes "sorted (map fst (sc_intervals x))"
  shows "covered (slot_coverage_exclude c x) = covered c - covered x"
proof -
  have "covered (slot_coverage_exclude c x) =
        (\<Union>p\<in>set (sc_intervals c). spans_set (slot_coverage_gaps x (fst p) (snd p)))"
    by (simp add: slot_coverage_exclude_def Let_def case_prod_unfold)
  also have "\<dots> = (\<Union>p\<in>set (sc_intervals c). span_set p - covered x)"
    by (simp add: gaps_set [OF assms] span_set_def)
  finally show ?thesis by (auto simp: spans_set_def)
qed

lemma set_slots_exclude:
  "set (sc_slots (slot_coverage_exclude c x)) = set (sc_slots c) \<inter> covered (slot_coverage_exclude c x)"
  by (auto simp: slot_coverage_exclude_def Let_def simp del: spans_set_concat)

lemma exclude_ok: "list_all span_ok (sc_intervals (slot_coverage_exclude c x))"
  by (auto simp: slot_coverage_exclude_def Let_def list_all_iff dest: gaps_ok)

text \<open>The points at which two proofs say different things.\<close>

definition disagreement :: "slot set \<Rightarrow> slot_coverage \<Rightarrow> slot set \<Rightarrow> slot_coverage \<Rightarrow> slot set" where
  "disagreement P c Q d = {x \<in> covered c \<inter> covered d. (x \<in> P) \<noteq> (x \<in> Q)}"

lemma conflicts_cover_disagreement:
  assumes "proves P c" "proves Q d"
  shows "disagreement P c Q d \<subseteq> spans_set (merge_conflicts c d)"
    and "merge_conflicts c d \<noteq> [] \<longleftrightarrow> disagreement P c Q d \<noteq> {}"
proof -
  have sorted: "sorted_wrt (<) (sc_slots c)" "sorted_wrt (<) (sc_slots d)"
    and slots: "set (sc_slots c) = P \<inter> covered c" "set (sc_slots d) = Q \<inter> covered d"
    using assms by (auto simp: proves_def)
  note within_iff = slots_within_eq_iff [OF sorted]
  show sub: "disagreement P c Q d \<subseteq> spans_set (merge_conflicts c d)"
  proof
    fix x assume "x \<in> disagreement P c Q d"
    then obtain a b a' b' where x: "(a, b) \<in> set (sc_intervals c)" "(a', b') \<in> set (sc_intervals d)"
      "x \<in> {a..b}" "x \<in> {a'..b'}" "(x \<in> P) \<noteq> (x \<in> Q)" "x \<in> covered c" "x \<in> covered d"
      by (auto simp: disagreement_def in_spans_set)
    then have "x \<in> {max a a'..min b b'}" by auto
    moreover have "slots_within (max a a') (min b b') (sc_slots c) \<noteq>
        slots_within (max a a') (min b b') (sc_slots d)"
      using x calculation unfolding within_iff slots by blast
    ultimately have "(max a a', min b b') \<in> set (merge_conflicts c d)"
      by (intro merge_conflictsI x) auto
    with \<open>x \<in> {max a a'..min b b'}\<close> show "x \<in> spans_set (merge_conflicts c d)"
      by (auto simp only: atLeastAtMost_iff intro: spans_setI)
  qed
  show "merge_conflicts c d \<noteq> [] \<longleftrightarrow> disagreement P c Q d \<noteq> {}"
  proof
    assume "merge_conflicts c d \<noteq> []"
    then obtain p where "p \<in> set (merge_conflicts c d)" by (cases "merge_conflicts c d") auto
    then obtain a b a' b' where p: "(a, b) \<in> set (sc_intervals c)" "(a', b') \<in> set (sc_intervals d)"
      "set (sc_slots c) \<inter> {max a a'..min b b'} \<noteq> set (sc_slots d) \<inter> {max a a'..min b b'}"
      unfolding in_merge_conflicts within_iff by blast
    then obtain x where x: "x \<in> {max a a'..min b b'}"
      "(x \<in> set (sc_slots c)) \<noteq> (x \<in> set (sc_slots d))" by blast
    from x(1) have "x \<in> covered c" "x \<in> covered d"
      using spans_setI [OF p(1), of x] spans_setI [OF p(2), of x] by auto
    then show "disagreement P c Q d \<noteq> {}" using x slots by (auto simp: disagreement_def)
  qed (use sub in auto)
qed

lemma conflicts_within_overlap: "spans_set (merge_conflicts c d) \<subseteq> covered c \<inter> covered d"
proof
  fix x assume "x \<in> spans_set (merge_conflicts c d)"
  then obtain a b a' b' where "(a, b) \<in> set (sc_intervals c)" "(a', b') \<in> set (sc_intervals d)"
    "max a a' \<le> x" "x \<le> min b b'"
    unfolding in_spans_set in_merge_conflicts by blast
  then show "x \<in> covered c \<inter> covered d" by (auto intro: spans_setI)
qed

lemma merge_checked_unfold:
  "slot_coverage_merge_checked c d =
     (merge_conflicts c d \<noteq> [],
      slot_coverage_merge
        (slot_coverage_exclude c \<lparr>sc_slots = [], sc_intervals = sort (merge_conflicts c d)\<rparr>)
        (slot_coverage_exclude d \<lparr>sc_slots = [], sc_intervals = sort (merge_conflicts c d)\<rparr>))"
  by (simp add: slot_coverage_merge_checked_def Let_def)

lemma covered_merge_checked:
  "covered (snd (slot_coverage_merge_checked c d)) =
     (covered c \<union> covered d) - spans_set (merge_conflicts c d)"
  by (auto simp: merge_checked_unfold covered_exclude sorted_map_fst_sort)

lemma set_slots_merge_checked:
  assumes "proves P c" "proves Q d"
  shows "set (sc_slots (snd (slot_coverage_merge_checked c d))) =
     (P \<inter> covered c \<union> Q \<inter> covered d) - spans_set (merge_conflicts c d)"
  using assms
  by (auto simp: merge_checked_unfold set_slots_exclude covered_exclude sorted_map_fst_sort proves_def)

lemma intervals_ordered_merge_checked:
  "intervals_ordered (snd (slot_coverage_merge_checked c d))"
  by (simp add: merge_checked_unfold intervals_ordered_merge exclude_ok)

lemma merge_checked_agrees:
  assumes "proves P c" "proves Q d" "x \<in> covered (snd (slot_coverage_merge_checked c d))"
  shows "x \<in> covered c \<Longrightarrow>
           x \<in> set (sc_slots (snd (slot_coverage_merge_checked c d))) \<longleftrightarrow> x \<in> P"
    and "x \<in> covered d \<Longrightarrow>
           x \<in> set (sc_slots (snd (slot_coverage_merge_checked c d))) \<longleftrightarrow> x \<in> Q"
  using assms(3) conflicts_cover_disagreement(1) [OF assms(1,2)]
  unfolding covered_merge_checked set_slots_merge_checked [OF assms(1,2)] disagreement_def
  by blast+

lemma merge_checked_unchanged:
  assumes "\<not> fst (slot_coverage_merge_checked c d)"
  shows "covered (snd (slot_coverage_merge_checked c d)) = covered c \<union> covered d"
  using assms by (auto simp: covered_merge_checked) (simp_all add: merge_checked_unfold)

lemma merge_checked_one_ledger:
  assumes "proves P c" "proves P d"
  shows "\<not> fst (slot_coverage_merge_checked c d)"
    and "proves P (snd (slot_coverage_merge_checked c d))"
proof -
  have "merge_conflicts c d = []"
    using conflicts_cover_disagreement(2) [OF assms] by (auto simp: disagreement_def)
  then show "\<not> fst (slot_coverage_merge_checked c d)"
    by (simp add: merge_checked_unfold)
  from \<open>merge_conflicts c d = []\<close> show "proves P (snd (slot_coverage_merge_checked c d))"
    using set_slots_merge_checked [OF assms] covered_merge_checked [of c d]
      intervals_ordered_merge_checked [of c d]
    by (auto simp: proves_def merge_checked_unfold)
qed

section \<open>Properties\<close>

text \<open>
  C28. \<open>gaps(start, end)\<close> returns exactly the slots of the range that no interval covers, as
  non-empty spans in ascending order with at least one covered slot between neighbours, for any
  interval list ordered by start, overlapping intervals included.
\<close>

theorem slot_gaps_exact:
  assumes "intervals_ordered c"
  shows "spans_set (slot_coverage_gaps c start end) = {start..end} - covered c \<and>
         spans_separated (slot_coverage_gaps c start end)"
  using assms by (simp add: gaps_set gaps_separated intervals_ordered_def)

theorem slot_gaps_exact_witness:
  "spans_set (slot_coverage_gaps (slot_coverage_new [4] 3 5) 1 9) = {1..9} - {3..5} \<and>
   slot_coverage_gaps (slot_coverage_new [4] 3 5) 1 9 = [(1, 2), (6, 9)]"
  using slot_gaps_exact [of "slot_coverage_new [4] 3 5" 1 9]
  by (simp add: intervals_ordered_def slot_coverage_new_def slot_coverage_gaps_def)

text \<open>
  C20. \<open>merge_checked\<close> reports a change exactly when the two proofs disagree at a slot both cover;
  the merged proof then covers no disagreement, never contradicts either source on what it still
  covers, and covers everything both covered when nothing changed.
\<close>

theorem merge_checked_sound:
  assumes "proves P c" "proves Q d" "slot_coverage_merge_checked c d = (changed, m)"
  shows "(changed \<longleftrightarrow> (\<exists>x. x \<in> covered c \<and> x \<in> covered d \<and> (x \<in> P) \<noteq> (x \<in> Q))) \<and>
         (\<forall>x. x \<in> covered m \<and> x \<in> covered c \<longrightarrow> (x \<in> set (sc_slots m) \<longleftrightarrow> x \<in> P)) \<and>
         (\<forall>x. x \<in> covered m \<and> x \<in> covered d \<longrightarrow> (x \<in> set (sc_slots m) \<longleftrightarrow> x \<in> Q)) \<and>
         (\<not> changed \<longrightarrow> covered m = covered c \<union> covered d) \<and> intervals_ordered m"
proof (intro conjI allI impI)
  have m: "m = snd (slot_coverage_merge_checked c d)"
    and changed: "changed \<longleftrightarrow> merge_conflicts c d \<noteq> []"
    using assms(3) by (auto simp: merge_checked_unfold)
  show "changed \<longleftrightarrow> (\<exists>x. x \<in> covered c \<and> x \<in> covered d \<and> (x \<in> P) \<noteq> (x \<in> Q))"
    unfolding changed conflicts_cover_disagreement(2) [OF assms(1,2)] disagreement_def by blast
  show "\<And>x. x \<in> covered m \<and> x \<in> covered c \<Longrightarrow> (x \<in> set (sc_slots m) \<longleftrightarrow> x \<in> P)"
    and "\<And>x. x \<in> covered m \<and> x \<in> covered d \<Longrightarrow> (x \<in> set (sc_slots m) \<longleftrightarrow> x \<in> Q)"
    using merge_checked_agrees [OF assms(1,2)] unfolding m by blast+
  show "\<not> changed \<Longrightarrow> covered m = covered c \<union> covered d"
    unfolding m by (rule merge_checked_unchanged) (simp add: assms(3))
  show "intervals_ordered m"
    unfolding m by (rule intervals_ordered_merge_checked)
qed

theorem merge_checked_sound_witness:
  "proves {2, 4} (slot_coverage_new [2, 4] 1 5) \<and> proves {2, 7} (slot_coverage_new [7] 4 8) \<and>
   slot_coverage_merge_checked (slot_coverage_new [2, 4] 1 5) (slot_coverage_new [7] 4 8) =
     (True, \<lparr>sc_slots = [2, 7], sc_intervals = [(1, 3), (6, 8)]\<rparr>) \<and>
   (\<exists>x. x \<in> covered (slot_coverage_new [2, 4] 1 5) \<and> x \<in> covered (slot_coverage_new [7] 4 8) \<and>
        (x \<in> {2, 4 :: nat}) \<noteq> (x \<in> {2, 7}))"
proof -
  have c: "proves {2, 4} (slot_coverage_new [2, 4] 1 5)"
    and d: "proves {2, 7} (slot_coverage_new [7] 4 8)"
    by (auto intro!: proves_new)
  have m: "slot_coverage_merge_checked (slot_coverage_new [2, 4] 1 5) (slot_coverage_new [7] 4 8) =
     (True, \<lparr>sc_slots = [2, 7], sc_intervals = [(1, 3), (6, 8)]\<rparr>)"
    by code_simp
  show ?thesis using c d m merge_checked_sound [OF c d m] by blast
qed

end
