(* ===== verification/Block_Index.thy ===== *)
theory Block_Index
  imports Bitmaps Coverage_Map Slot_Coverage "HOL-Library.Monad_Syntax"
begin

text \<open>
  The block-time index of the disk cache (\<^verbatim>\<open>src/crates/superbank-rpc/src/disk_cache/block_index.rs\<close>):
  a bounded map of million-slot segments, each a table of block times and a bitmap of produced slots,
  with a coverage map that says which slots are proven.  A segment's arrays are functions on their
  index range.  The worker is the only writer, so an operation is one step on the whole state.  A loop
  over \<open>u64\<close> cursors that would not end at the very top of the range is a \<open>partial_function\<close>, and the
  lemmas show that it returns.  \<open>index_sound\<close> ties the state to the ledger; the scans that feed the
  index are in \<open>Block_Index_Scan\<close>.
\<close>

section \<open>State\<close>

definition segment_slots_count :: nat where
  "segment_slots_count = 1000000"

definition unknown_time :: int where
  "unknown_time = - (2 ^ 63)"

definition skipped_time :: int where
  "skipped_time = - (2 ^ 63) + 1"

definition null_time :: int where
  "null_time = - (2 ^ 63) + 2"

definition unproven_settle_slots :: nat where
  "unproven_settle_slots = 1500"

text \<open>\<open>MAX_SKIPPED_RUN\<close> of \<open>disk_cache/filler.rs\<close>.\<close>

definition max_skipped_run :: nat where
  "max_skipped_run = 100000"

definition segment_memory_bytes :: nat where
  "segment_memory_bytes =
     segment_slots_count * 8 + ((segment_slots_count + 63) div 64) * 8"

datatype block_time_lookup = Not_covered | Skipped | Found "int option"

record block_time_row =
  bt_slot :: slot
  bt_parent_slot :: slot
  bt_block_time :: "int option"

record segment_data =
  sg_times :: "nat \<Rightarrow> int"
  sg_produced :: "nat \<Rightarrow> 64 word"

record block_index =
  bi_max_memory_bytes :: nat
  bi_slots_per_query :: nat
  bi_segments :: "(nat, segment_data) hmap"
  bi_durable_coverage :: coverage_map
  bi_coverage :: coverage_map

section \<open>Reading\<close>

definition segment_word :: "segment_data \<Rightarrow> slot \<Rightarrow> slot \<Rightarrow> nat \<Rightarrow> 64 word" where
  "segment_word segment first final index =
     (let word = sg_produced segment index;
          word = (if index = first div 64 then mask_from (first mod 64) word else word)
      in if index = final div 64 \<and> final mod 64 \<noteq> 63 then mask_upto (final mod 64) word else word)"

definition segment_slots :: "segment_data \<Rightarrow> nat \<Rightarrow> slot \<Rightarrow> slot \<Rightarrow> slot list" where
  "segment_slots segment ident start end =
     (let first = start mod segment_slots_count;
          final = end mod segment_slots_count
      in concat (map (\<lambda>index. map (\<lambda>b. ident * segment_slots_count + index * 64 + b)
                              (drain_word (segment_word segment first final index)))
           [first div 64..<Suc (final div 64)]))"

partial_function (option) append_segment_coverage ::
  "(nat, segment_data) hmap \<Rightarrow> slot \<Rightarrow> slot \<Rightarrow> slot_coverage \<Rightarrow> slot_coverage option" where
  [code]: "append_segment_coverage segments cursor end proof =
     (let segment_id = cursor div segment_slots_count;
          tip = min end (sat_add cursor (segment_slots_count - 1 - cursor mod segment_slots_count));
          proof' = (case hm_get segments segment_id of
             Some segment \<Rightarrow>
               slot_coverage_merge proof
                 (slot_coverage_new (segment_slots segment segment_id cursor tip) cursor tip)
           | None \<Rightarrow> proof)
      in if tip = end then Some proof'
         else append_segment_coverage segments (tip + 1) end proof')"

definition block_index_tip_span :: "block_index \<Rightarrow> span option" where
  "block_index_tip_span self = coverage_map_contiguous_tip_span (bi_coverage self)"

definition durable_covered_span :: "block_index \<Rightarrow> span option" where
  "durable_covered_span self = coverage_map_covered_span (bi_durable_coverage self)"

definition block_index_value :: "block_index \<Rightarrow> slot \<Rightarrow> int option" where
  "block_index_value self s =
     map_option (\<lambda>segment. sg_times segment (s mod segment_slots_count))
       (hm_get (bi_segments self) (s div segment_slots_count))"

definition block_index_block_time :: "block_index \<Rightarrow> slot \<Rightarrow> block_time_lookup" where
  "block_index_block_time self s =
     (if \<not> coverage_map_contains (bi_coverage self) s then Not_covered
      else
        case block_index_value self s of
          None \<Rightarrow> Not_covered
        | Some v \<Rightarrow>
            if v = null_time then Found None
            else if v = unknown_time \<or> v = skipped_time then Skipped
            else Found (Some v))"

fun append_all ::
  "(nat, segment_data) hmap \<Rightarrow> span list \<Rightarrow> slot_coverage \<Rightarrow> slot_coverage option" where
  "append_all segments [] proof = Some proof"
| "append_all segments ((floor, tip) # rest) proof =
     append_segment_coverage segments floor tip proof \<bind> append_all segments rest"

definition block_index_range_coverage :: "block_index \<Rightarrow> slot \<Rightarrow> slot \<Rightarrow> slot_coverage option" where
  "block_index_range_coverage self start end =
     append_all (bi_segments self) (coverage_map_intersections (bi_coverage self) start end)
       slot_coverage_default"

section \<open>Publishing\<close>

definition new_segment :: segment_data where
  "new_segment = \<lparr>sg_times = (\<lambda>_. unknown_time), sg_produced = (\<lambda>_. 0)\<rparr>"

fun reserve_loop ::
  "nat \<Rightarrow> nat list \<Rightarrow> (nat, segment_data) hmap \<Rightarrow> nat option \<Rightarrow>
   (nat, segment_data) hmap \<times> nat option" where
  "reserve_loop max_segments [] segments evicted_through = (segments, evicted_through)"
| "reserve_loop max_segments (segment_id # ids) segments evicted_through =
     (if hm_get segments segment_id \<noteq> None then reserve_loop max_segments ids segments evicted_through
      else if max_segments \<le> hm_len segments then
        (if segments = [] then (segments, evicted_through)
         else
           let oldest = Min (fst ` set segments)
           in if segment_id \<le> oldest then reserve_loop max_segments ids segments evicted_through
              else reserve_loop max_segments ids
                     (hm_insert segment_id new_segment (hm_remove oldest segments))
                     (Some (case evicted_through of None \<Rightarrow> oldest | Some v \<Rightarrow> max v oldest)))
      else reserve_loop max_segments ids (hm_insert segment_id new_segment segments) evicted_through)"

definition max_segments :: "block_index \<Rightarrow> nat" where
  "max_segments self = bi_max_memory_bytes self div segment_memory_bytes"

definition block_index_reserve_segments :: "slot \<Rightarrow> slot \<Rightarrow> block_index \<Rightarrow> block_index" where
  "block_index_reserve_segments start end self =
     (let first = start div segment_slots_count;
          final = end div segment_slots_count;
          (segments, evicted) =
            reserve_loop (max_segments self) (rev [first..<Suc final]) (bi_segments self) None
      in self\<lparr>bi_segments := segments,
              bi_coverage :=
                (case evicted of
                   None \<Rightarrow> bi_coverage self
                 | Some e \<Rightarrow>
                     coverage_map_remove_below (sat_mul (sat_add e 1) segment_slots_count)
                       (bi_coverage self))\<rparr>)"

definition store_row :: "segment_data \<Rightarrow> block_time_row \<Rightarrow> segment_data" where
  "store_row segment row =
     (let offset = bt_slot row mod segment_slots_count
      in segment\<lparr>sg_times := (sg_times segment)
                   (offset := (case bt_block_time row of None \<Rightarrow> null_time | Some t \<Rightarrow> t)),
                 sg_produced := (sg_produced segment)
                   (offset div 64 := set_bit64 (offset mod 64) (sg_produced segment (offset div 64)))\<rparr>)"

partial_function (option) publish_loop ::
  "slot \<Rightarrow> block_time_row list \<Rightarrow> slot \<Rightarrow> bool \<Rightarrow> block_index \<Rightarrow> (bool \<times> block_index) option" where
  [code]: "publish_loop end rows cursor published_all self =
     (if end < cursor then Some (published_all, self)
      else
        let segment_id = cursor div segment_slots_count;
            segment_end =
              min end (wrap64 (wrap64 ((segment_id + 1) * segment_slots_count) + u64_max));
            rows = dropWhile (\<lambda>row. bt_slot row < cursor) rows;
            rest = dropWhile (\<lambda>row. bt_slot row \<le> segment_end) rows
        in case hm_get (bi_segments self) segment_id of
             Some segment \<Rightarrow>
               publish_loop end rest (sat_add segment_end 1) published_all
                 (self\<lparr>bi_segments := hm_insert segment_id
                          (foldl store_row segment (takeWhile (\<lambda>row. bt_slot row \<le> segment_end) rows))
                          (bi_segments self),
                        bi_coverage := coverage_map_insert_range cursor segment_end (bi_coverage self)\<rparr>)
           | None \<Rightarrow> publish_loop end rest (sat_add segment_end 1) False self)"

definition block_index_publish_memory ::
  "slot \<Rightarrow> slot \<Rightarrow> block_time_row list \<Rightarrow> block_index \<Rightarrow> (bool \<times> block_index) option" where
  "block_index_publish_memory start end rows self =
     (if end < start then Some (True, self)
      else publish_loop end rows start True (block_index_reserve_segments start end self))"

section \<open>Specification\<close>

abbreviation seg_size :: nat where
  "seg_size \<equiv> segment_slots_count"

definition produced :: "segment_data \<Rightarrow> slot \<Rightarrow> bool" where
  "produced segment s =
     bit (sg_produced segment (s mod seg_size div 64)) (s mod seg_size mod 64)"

definition time_code :: "int option \<Rightarrow> int" where
  "time_code t = (case t of None \<Rightarrow> null_time | Some v \<Rightarrow> v)"

text \<open>The ledger: the slots \<open>P\<close> that hold a block and their block times \<open>T\<close>, all above the sentinels.\<close>

definition times_ok :: "(slot \<Rightarrow> int option) \<Rightarrow> bool" where
  "times_ok T \<longleftrightarrow> (\<forall>s t. T s = Some t \<longrightarrow> null_time < t)"

definition index_ok :: "block_index \<Rightarrow> bool" where
  "index_ok self \<longleftrightarrow>
     hm_ok (bi_segments self) \<and> coverage_ok (bi_coverage self) \<and> coverage_ok (bi_durable_coverage self) \<and>
     hm_len (bi_segments self) \<le> max_segments self \<and>
     (\<forall>i\<in>dom (hm_get (bi_segments self)). (i + 1) * seg_size \<le> u64_max)"

definition segments_true :: "slot set \<Rightarrow> (slot \<Rightarrow> int option) \<Rightarrow> (nat, segment_data) hmap \<Rightarrow> bool" where
  "segments_true P T segments \<longleftrightarrow>
     (\<forall>s seg. hm_get segments (s div seg_size) = Some seg \<longrightarrow>
        (if produced seg s then s \<in> P \<and> sg_times seg (s mod seg_size) = time_code (T s)
         else sg_times seg (s mod seg_size) = unknown_time))"

definition coverage_backed :: "slot set \<Rightarrow> slot set \<Rightarrow> (nat, segment_data) hmap \<Rightarrow> bool" where
  "coverage_backed P C segments \<longleftrightarrow>
     (\<forall>s\<in>C. \<exists>seg. hm_get segments (s div seg_size) = Some seg \<and> (s \<in> P \<longrightarrow> produced seg s))"

definition index_sound :: "slot set \<Rightarrow> (slot \<Rightarrow> int option) \<Rightarrow> block_index \<Rightarrow> bool" where
  "index_sound P T self \<longleftrightarrow>
     index_ok self \<and> segments_true P T (bi_segments self) \<and>
     coverage_backed P (coverage_slots (bi_coverage self)) (bi_segments self)"

text \<open>A row list that is truthful about the ledger; it need not be complete.\<close>

definition rows_true :: "slot set \<Rightarrow> (slot \<Rightarrow> int option) \<Rightarrow> block_time_row list \<Rightarrow> bool" where
  "rows_true P T rows \<longleftrightarrow>
     sorted_wrt (<) (map bt_slot rows) \<and>
     (\<forall>row\<in>set rows. bt_slot row \<in> P \<and> bt_block_time row = T (bt_slot row))"

section \<open>Segment bitmaps\<close>

lemma seg_size_pos [simp]: "0 < seg_size"
  by (simp add: segment_slots_count_def)

lemma bit_segment_word:
  assumes "first div 64 \<le> index" "index \<le> final div 64"
  shows "bit (segment_word segment first final index) b \<longleftrightarrow>
    bit (sg_produced segment index) b \<and> first \<le> index * 64 + b \<and> index * 64 + b \<le> final"
proof (cases "b < 64")
  case True
  have lo: "(index = first div 64 \<longrightarrow> first mod 64 \<le> b) \<longleftrightarrow> first \<le> index * 64 + b"
    using assms(1) div_mult_mod_eq [of first 64] True mod_less_divisor [of 64 first]
    by (cases "index = first div 64") linarith+
  have hi: "(index = final div 64 \<and> final mod 64 \<noteq> 63 \<longrightarrow> b \<le> final mod 64) \<longleftrightarrow> index * 64 + b \<le> final"
    using assms(2) div_mult_mod_eq [of final 64] True mod_less_divisor [of 64 final]
    by (cases "index = final div 64"; cases "final mod 64 = 63") linarith+
  show ?thesis unfolding lo [symmetric] hi [symmetric]
    by (auto simp: segment_word_def bit_mask_from bit_mask_upto Let_def)
next
  case False
  then have "\<not> bit w b" for w :: "64 word" using bit_imp_le_length [of w b] by auto
  then show ?thesis by simp
qed

lemma sorted_concat_blocks:
  assumes "\<And>i. sorted_wrt (<) (g i)" "\<And>i x. x \<in> set (g i) \<Longrightarrow> c + i * 64 \<le> x \<and> x < c + Suc i * (64 :: nat)"
  shows "sorted_wrt (<) (concat (map g [a..<b]))"
proof (induction b)
  case (Suc b)
  show ?case
  proof (cases "a \<le> b")
    case True
    have "x < y" if xy: "x \<in> set (g i)" "i < b" "y \<in> set (g b)" for x y i
    proof -
      have "x < c + Suc i * 64" "c + b * 64 \<le> y" using assms(2) xy by blast+
      moreover have "Suc i * 64 \<le> b * 64" using xy(2) by (intro mult_le_mono1) simp
      ultimately show ?thesis by linarith
    qed
    then show ?thesis using Suc assms(1) True by (fastforce simp: sorted_wrt_append)
  qed simp
qed simp

lemma segment_slots_exact:
  assumes "start \<le> end" "start div seg_size = ident" "end div seg_size = ident"
  shows "sorted_wrt (<) (segment_slots segment ident start end)"
    and "set (segment_slots segment ident start end) = {s \<in> {start..end}. produced segment s}"
proof -
  define first where "first = start mod seg_size"
  define final where "final = end mod seg_size"
  have ends: "start = ident * seg_size + first" "end = ident * seg_size + final"
    using assms(2,3) div_mult_mod_eq [of start seg_size] div_mult_mod_eq [of "end" seg_size]
    by (simp_all add: first_def final_def)
  let ?words = "\<lambda>index. map (\<lambda>b. ident * seg_size + index * 64 + b)
    (drain_word (segment_word segment first final index))"
  have eq: "segment_slots segment ident start end = concat (map ?words [first div 64..<Suc (final div 64)])"
    by (simp add: segment_slots_def first_def final_def Let_def)
  have b64: "b < 64" if "bit w b" for w :: "64 word" and b
    using bit_imp_le_length [OF that] by simp
  show "sorted_wrt (<) (segment_slots segment ident start end)"
    unfolding eq
  proof (rule sorted_concat_blocks [where c = "ident * seg_size"])
    show "sorted_wrt (<) (?words i)" for i using drain_word_sorted by (simp add: sorted_wrt_map)
    show "ident * seg_size + i * 64 \<le> x \<and> x < ident * seg_size + Suc i * 64" if "x \<in> set (?words i)" for i x
      using that b64 drain_word_sorted by fastforce
  qed
  have "x \<in> set (segment_slots segment ident start end) \<longleftrightarrow>
      (\<exists>f. x = ident * seg_size + f \<and> first \<le> f \<and> f \<le> final \<and>
           bit (sg_produced segment (f div 64)) (f mod 64))" for x
  proof
    assume "x \<in> set (segment_slots segment ident start end)"
    then obtain i b where ib: "first div 64 \<le> i" "i \<le> final div 64"
      "bit (segment_word segment first final i) b" "x = ident * seg_size + i * 64 + b"
      using drain_word_sorted by (auto simp: eq)
    then have "(i * 64 + b) div 64 = i" "(i * 64 + b) mod 64 = b" using b64 by auto
    then show "\<exists>f. x = ident * seg_size + f \<and> first \<le> f \<and> f \<le> final \<and>
        bit (sg_produced segment (f div 64)) (f mod 64)"
      using ib bit_segment_word [OF ib(1,2)] by (intro exI [of _ "i * 64 + b"]) simp
  next
    assume "\<exists>f. x = ident * seg_size + f \<and> first \<le> f \<and> f \<le> final \<and>
        bit (sg_produced segment (f div 64)) (f mod 64)"
    then obtain f where f: "x = ident * seg_size + f" "first \<le> f" "f \<le> final"
      "bit (sg_produced segment (f div 64)) (f mod 64)" by blast
    then have i: "first div 64 \<le> f div 64" "f div 64 \<le> final div 64" by (auto intro: div_le_mono)
    then have "bit (segment_word segment first final (f div 64)) (f mod 64)"
      using f bit_segment_word [OF i] by simp
    then have "x \<in> set (?words (f div 64))"
      using f(1) drain_word_sorted by (auto intro: image_eqI [of _ _ "f mod 64"])
    moreover have "f div 64 \<in> set [first div 64..<Suc (final div 64)]" using i by auto
    ultimately show "x \<in> set (segment_slots segment ident start end)"
      unfolding eq set_concat set_map [of ?words] by (intro UN_I [of "?words (f div 64)"] imageI)
  qed
  moreover have "(\<exists>f. x = ident * seg_size + f \<and> first \<le> f \<and> f \<le> final \<and>
      bit (sg_produced segment (f div 64)) (f mod 64)) \<longleftrightarrow> x \<in> {start..end} \<and> produced segment x" for x
  proof -
    have offset: "(ident * seg_size + f) mod seg_size = f" if "f \<le> final" for f
    proof -
      have "final < seg_size" by (simp add: final_def)
      then have "f < seg_size" using that by linarith
      then show ?thesis by simp
    qed
    show ?thesis
    proof
      assume "x \<in> {start..end} \<and> produced segment x"
      then have x: "ident * seg_size + first \<le> x" "x \<le> ident * seg_size + final" "produced segment x"
        using ends by simp_all
      let ?f = "x - ident * seg_size"
      have f: "x = ident * seg_size + ?f" "first \<le> ?f" "?f \<le> final" using x(1,2) by linarith+
      then have "x mod seg_size = ?f" using offset by metis
      then show "\<exists>f. x = ident * seg_size + f \<and> first \<le> f \<and> f \<le> final \<and>
          bit (sg_produced segment (f div 64)) (f mod 64)"
        using f x(3) by (intro exI [of _ ?f]) (simp add: produced_def)
    qed (use ends offset in \<open>auto simp: produced_def\<close>)
  qed
  ultimately show "set (segment_slots segment ident start end) = {s \<in> {start..end}. produced segment s}"
    by (simp add: set_eq_iff)
qed

lemma min_segment_tip:
  assumes "cursor \<le> end" "is_u64 end"
    and "tip = min end (sat_add cursor (seg_size - 1 - cursor mod seg_size))"
  shows "cursor \<le> tip" "tip \<le> end" "tip div seg_size = cursor div seg_size"
proof -
  have "cursor mod seg_size < seg_size" by simp
  then have up: "cursor + (seg_size - 1 - cursor mod seg_size) = cursor div seg_size * seg_size + (seg_size - 1)"
    using div_mult_mod_eq [of cursor seg_size] by linarith
  show le: "cursor \<le> tip" "tip \<le> end" using assms by (auto simp: u64_simps)
  have "tip \<le> cursor div seg_size * seg_size + (seg_size - 1)"
    unfolding assms(3) up [symmetric] by (simp add: sat_add_def min_def)
  also have "\<dots> < Suc (cursor div seg_size) * seg_size" by simp
  finally have "tip div seg_size < Suc (cursor div seg_size)"
    by (rule less_mult_imp_div_less)
  then show "tip div seg_size = cursor div seg_size"
    using div_le_mono [OF le(1), of seg_size] by linarith
qed

text \<open>The proof a covered window of segments yields.\<close>

lemma append_segment_coverage_proves:
  assumes "segments_true P T segments" "is_u64 end"
  shows "cursor \<le> end \<Longrightarrow> coverage_backed P {cursor..end} segments \<Longrightarrow> proves P acc \<Longrightarrow>
    \<exists>c. append_segment_coverage segments cursor end acc = Some c \<and> proves P c \<and>
        covered c = covered acc \<union> {cursor..end}"
proof (induction "end - cursor" arbitrary: cursor acc rule: less_induct)
  case less
  define ident where "ident = cursor div seg_size"
  define tip where "tip = min end (sat_add cursor (seg_size - 1 - cursor mod seg_size))"
  note tip = min_segment_tip [OF less.prems(1) assms(2) tip_def]
  obtain seg where seg: "hm_get segments ident = Some seg"
    using less.prems(2) [unfolded coverage_backed_def, THEN bspec, of cursor] less.prems(1)
    by (auto simp: ident_def)
  let ?new = "slot_coverage_new (segment_slots seg ident cursor tip) cursor tip"
  have same: "x div seg_size = ident" if "x \<in> {cursor..tip}" for x
    using div_le_mono [of cursor x seg_size] div_le_mono [of x tip seg_size] that tip(3)
    by (simp add: ident_def)
  have slots: "set (segment_slots seg ident cursor tip) = P \<inter> {cursor..tip}"
  proof -
    have "produced seg x \<longleftrightarrow> x \<in> P" if "x \<in> {cursor..tip}" for x
      using assms(1) [unfolded segments_true_def, rule_format, of x seg]
        less.prems(2) [unfolded coverage_backed_def, THEN bspec, of x] same [OF that] seg that tip(2)
      by (auto split: if_splits)
    then show ?thesis
      using segment_slots_exact(2) [OF tip(1), of ident seg] tip(3) by (auto simp: ident_def)
  qed
  have new: "proves P ?new"
    using segment_slots_exact(1) [OF tip(1), of ident seg] tip slots
    by (intro proves_new) (simp_all add: ident_def)
  let ?acc = "slot_coverage_merge acc ?new"
  have acc: "proves P ?acc" "covered ?acc = covered acc \<union> {cursor..tip}"
    using proves_merge [OF less.prems(3) new] by (simp_all add: covered_merge slot_coverage_new_def)
  have unfold: "append_segment_coverage segments cursor end acc =
      (if tip = end then Some ?acc else append_segment_coverage segments (tip + 1) end ?acc)"
    by (subst append_segment_coverage.simps)
      (simp only: Let_def seg option.case flip: ident_def tip_def)
  show ?case
  proof (cases "tip = end")
    case True
    then show ?thesis using unfold acc by simp
  next
    case False
    then have lt: "tip + 1 \<le> end" using tip by simp
    have backed: "coverage_backed P {tip + 1..end} segments"
      using less.prems(2) tip(1) by (simp add: coverage_backed_def)
    have "end - (tip + 1) < end - cursor" using tip(1) lt by linarith
    from less.hyps [OF this lt backed acc(1)]
    obtain c where c: "append_segment_coverage segments (tip + 1) end ?acc = Some c" "proves P c"
      "covered c = covered ?acc \<union> {tip + 1..end}" by blast
    have "{cursor..end} = {cursor..tip} \<union> {tip + 1..end}" using tip lt by auto
    then have "covered c = covered acc \<union> {cursor..end}"
      unfolding c(3) acc(2) by (simp only: Un_assoc)
    moreover have "append_segment_coverage segments cursor end acc = Some c"
      using unfold False c(1) by (simp only: if_False)
    ultimately show ?thesis using c(2) by blast
  qed
qed

lemma append_all_proves:
  assumes "segments_true P T segments"
  shows "spans_ascending spans \<Longrightarrow> \<forall>p\<in>set spans. is_u64 (snd p) \<Longrightarrow>
    coverage_backed P (spans_set spans) segments \<Longrightarrow> proves P acc \<Longrightarrow>
    \<exists>c. append_all segments spans acc = Some c \<and> proves P c \<and> covered c = covered acc \<union> spans_set spans"
proof (induction spans arbitrary: acc)
  case (Cons p spans)
  obtain a b where p: "p = (a, b)" by (cases p)
  have ab: "a \<le> b" "is_u64 b" using Cons.prems(1,2) by (simp_all add: p)
  have "coverage_backed P {a..b} segments" "coverage_backed P (spans_set spans) segments"
    using Cons.prems(3) by (simp_all add: p coverage_backed_def)
  note backed = this
  from append_segment_coverage_proves [OF assms ab(2,1) backed(1) Cons.prems(4)]
  obtain c where c: "append_segment_coverage segments a b acc = Some c" "proves P c"
    "covered c = covered acc \<union> {a..b}" by blast
  have "spans_ascending spans" "\<forall>p\<in>set spans. is_u64 (snd p)" using Cons.prems(1,2) by simp_all
  from Cons.IH [OF this backed(2) c(2)]
  obtain d where "append_all segments spans c = Some d" "proves P d"
    "covered d = covered c \<union> spans_set spans" by blast
  then show ?case using c by (simp add: p Un_assoc)
qed simp

lemma range_coverage_proves:
  assumes "index_sound P T self"
  shows "\<exists>c. block_index_range_coverage self start end = Some c \<and> proves P c \<and>
    covered c = coverage_slots (bi_coverage self) \<inter> {start..end}"
proof -
  have ok: "coverage_ok (bi_coverage self)"
    and t: "segments_true P T (bi_segments self)"
    and backed: "coverage_backed P (coverage_slots (bi_coverage self)) (bi_segments self)"
    using assms by (simp_all add: index_sound_def index_ok_def)
  let ?i = "coverage_map_intersections (bi_coverage self) start end"
  have set: "spans_set ?i = coverage_slots (bi_coverage self) \<inter> {start..end}"
    by (rule coverage_intersections_set)
  have asc: "spans_ascending ?i"
    using ok by (simp add: coverage_ok_def coverage_intersections_separated separated_ascending)
  have "\<forall>p\<in>set ?i. is_u64 (snd p)"
  proof
    fix p assume p: "p \<in> set ?i"
    then have "snd p \<in> spans_set ?i"
      using asc by (intro spans_setI [of "fst p" "snd p"]) (auto simp: spans_ascending_def list_all_iff span_ok_def)
    then show "is_u64 (snd p)"
      using ok unfolding set by (auto simp: coverage_ok_def coverage_slots_def in_spans_set intro: is_u64_mono)
  qed
  moreover have "coverage_backed P (spans_set ?i) (bi_segments self)"
    using backed by (simp add: set coverage_backed_def)
  ultimately show ?thesis
    using append_all_proves [OF t asc, of slot_coverage_default] set
    by (simp add: block_index_range_coverage_def) (simp add: slot_coverage_default_def)
qed

lemma block_time_exact:
  assumes "index_sound P T self" "times_ok T"
  shows "block_index_block_time self s =
    (if s \<in> coverage_slots (bi_coverage self) then if s \<in> P then Found (T s) else Skipped
     else Not_covered)"
proof -
  have ok: "coverage_ok (bi_coverage self)"
    and t: "segments_true P T (bi_segments self)"
    and backed: "coverage_backed P (coverage_slots (bi_coverage self)) (bi_segments self)"
    using assms(1) by (simp_all add: index_sound_def index_ok_def)
  show ?thesis
  proof (cases "s \<in> coverage_slots (bi_coverage self)")
    case True
    then obtain seg where seg: "hm_get (bi_segments self) (s div seg_size) = Some seg" "s \<in> P \<longrightarrow> produced seg s"
      using backed [unfolded coverage_backed_def, THEN bspec, OF True] by blast
    have "if s \<in> P then sg_times seg (s mod seg_size) = time_code (T s)
          else sg_times seg (s mod seg_size) = unknown_time"
      using t [unfolded segments_true_def, rule_format, OF seg(1)] seg(2) by (auto split: if_splits)
    moreover have "null_time < t" if "T s = Some t" for t using assms(2) that by (simp add: times_ok_def)
    ultimately show ?thesis using True seg
      by (auto simp: block_index_block_time_def coverage_contains_iff [OF ok] block_index_value_def
          time_code_def unknown_time_def skipped_time_def null_time_def split: option.splits)
  qed (simp add: block_index_block_time_def coverage_contains_iff [OF ok])
qed

section \<open>Reserving segments\<close>

lemma reserve_loop_bounded:
  "hm_ok segs \<Longrightarrow> hm_len segs \<le> limit \<Longrightarrow> reserve_loop limit ids segs ev = (segs', ev') \<Longrightarrow>
     hm_ok segs' \<and> hm_len segs' \<le> limit"
proof (induction limit ids segs ev arbitrary: segs' ev' rule: reserve_loop.induct)
  case (2 limit i ids segs ev)
  have keep: "hm_ok (hm_insert i new_segment segs)" using 2(5) by (rule hm.ok_put)
  have room: "hm_len (hm_insert i new_segment segs) \<le> limit" if "\<not> limit \<le> hm_len segs"
    using hm_len_insert_le [OF 2(5), of i new_segment] that by simp
  have evict: "hm_ok (hm_insert i new_segment (hm_remove k segs)) \<and>
      hm_len (hm_insert i new_segment (hm_remove k segs)) \<le> limit" if "k \<in> fst ` set segs" for k
  proof -
    have "hm_ok (hm_remove k segs)" using 2(5) by (rule hm.ok_drop)
    moreover have "Suc (hm_len (hm_remove k segs)) = hm_len segs"
      using hm_len_remove [OF 2(5)] that by (simp add: dom_hm_get)
    ultimately show ?thesis
      using hm_len_insert_le [of "hm_remove k segs" i new_segment] 2(6) by (simp add: hm.ok_put)
  qed
  have "Min (fst ` set segs) \<in> fst ` set segs" if "segs \<noteq> []" using that by simp
  note old = evict [OF this]
  show ?case using 2(1) [OF _ 2(5,6)] 2(2) [OF _ _ _ refl _ 2(5,6)] 2(3) [OF _ _ _ refl] 2(4) [OF _ _ keep] 2(5-7) room old
    by (simp add: Let_def split: if_splits)
qed simp

text \<open>Segments survive unless they are at or below the highest evicted one; new ones are blank.\<close>

definition reserves ::
  "nat set \<Rightarrow> (nat, segment_data) hmap \<times> nat option \<Rightarrow> (nat, segment_data) hmap \<times> nat option \<Rightarrow> bool" where
  "reserves N st st' \<longleftrightarrow>
     dom (hm_get (fst st')) \<subseteq> dom (hm_get (fst st)) \<union> N \<and>
     (\<forall>i seg. hm_get (fst st') i = Some seg \<longrightarrow> hm_get (fst st) i = Some seg \<or> seg = new_segment) \<and>
     (\<forall>i seg. hm_get (fst st) i = Some seg \<longrightarrow>
        hm_get (fst st') i = Some seg \<or> (\<exists>e. snd st' = Some e \<and> i \<le> e)) \<and>
     (\<forall>e. snd st = Some e \<longrightarrow> (\<exists>e'. snd st' = Some e' \<and> e \<le> e')) \<and>
     (\<forall>e. snd st' = Some e \<longrightarrow> snd st = Some e \<or> e \<in> dom (hm_get (fst st)) \<union> N)"

lemma reserves_refl: "reserves N st st"
  by (simp add: reserves_def)

lemma reservesD:
  assumes "reserves N st st'"
  shows "dom (hm_get (fst st')) \<subseteq> dom (hm_get (fst st)) \<union> N"
    and "hm_get (fst st') i = Some seg \<Longrightarrow> hm_get (fst st) i = Some seg \<or> seg = new_segment"
    and "hm_get (fst st) i = Some seg \<Longrightarrow>
           hm_get (fst st') i = Some seg \<or> (\<exists>e. snd st' = Some e \<and> i \<le> e)"
    and "snd st = Some e \<Longrightarrow> \<exists>e'. snd st' = Some e' \<and> e \<le> e'"
    and "snd st' = Some e \<Longrightarrow> snd st = Some e \<or> e \<in> dom (hm_get (fst st)) \<union> N"
  using assms by (simp_all add: reserves_def)

lemma reserves_trans:
  assumes ab: "reserves N a b" and bc: "reserves N b c" shows "reserves N a c"
  unfolding reserves_def
proof (intro conjI allI impI)
  show "dom (hm_get (fst c)) \<subseteq> dom (hm_get (fst a)) \<union> N"
    using reservesD(1) [OF ab] reservesD(1) [OF bc] by blast
next
  fix i seg assume "hm_get (fst c) i = Some seg"
  then show "hm_get (fst a) i = Some seg \<or> seg = new_segment"
    using reservesD(2) [OF ab] reservesD(2) [OF bc] by blast
next
  fix i seg assume "hm_get (fst a) i = Some seg"
  then show "hm_get (fst c) i = Some seg \<or> (\<exists>e. snd c = Some e \<and> i \<le> e)"
    using reservesD(3) [OF ab, of i seg] reservesD(3) [OF bc, of i seg] reservesD(4) [OF bc]
    by (meson le_trans)
next
  fix e assume "snd a = Some e"
  then show "\<exists>e'. snd c = Some e' \<and> e \<le> e'"
    using reservesD(4) [OF ab, of e] reservesD(4) [OF bc] by (meson le_trans)
next
  fix e assume "snd c = Some e"
  then show "snd a = Some e \<or> e \<in> dom (hm_get (fst a)) \<union> N"
    using reservesD(5) [OF ab, of e] reservesD(5) [OF bc, of e] reservesD(1) [OF ab] by blast
qed

lemma reserves_insert:
  "hm_ok segs \<Longrightarrow> hm_get segs i = None \<Longrightarrow> i \<in> N \<Longrightarrow> reserves N (segs, ev) (hm_insert i new_segment segs, ev)"
  by (auto simp: reserves_def hm.get_put)

lemma reserves_evict:
  assumes "hm_ok segs" "k \<in> dom (hm_get segs)"
  shows "reserves N (segs, ev)
    (hm_remove k segs, Some (case ev of None \<Rightarrow> k | Some v \<Rightarrow> max v k))"
  using assms by (auto simp: reserves_def hm.get_drop split: option.splits)

lemma reserve_loop_reserves:
  "hm_ok segs \<Longrightarrow> set ids \<subseteq> N \<Longrightarrow> reserves N (segs, ev) (reserve_loop limit ids segs ev)"
proof (induction limit ids segs ev rule: reserve_loop.induct)
  case (2 limit i ids segs ev)
  let ?old = "Min (fst ` set segs)"
  let ?ev = "Some (case ev of None \<Rightarrow> ?old | Some v \<Rightarrow> max v ?old)"
  have N: "set ids \<subseteq> N" "i \<in> N" using 2(6) by simp_all
  have room: "reserves N (segs, ev) (hm_insert i new_segment segs, ev)" if "hm_get segs i = None"
    using reserves_insert [OF 2(5) that N(2)] .
  have evict: "reserves N (segs, ev) (hm_insert i new_segment (hm_remove ?old segs), ?ev)"
    if "segs \<noteq> []" "hm_get segs i = None"
  proof -
    have "?old \<in> dom (hm_get segs)" using that(1) by (simp add: dom_hm_get)
    from reserves_evict [OF 2(5) this, of N ev] show ?thesis
      by (rule reserves_trans)
        (use that(2) N(2) 2(5) in \<open>simp add: reserves_insert hm.ok_drop hm.get_drop\<close>)
  qed
  have ok: "hm_ok (hm_insert i new_segment segs)" "hm_ok (hm_insert i new_segment (hm_remove ?old segs))"
    using 2(5) by (simp_all add: hm.ok_put hm.ok_drop)
  show ?case
    using 2(1) [OF _ 2(5) N(1)] 2(2) [OF _ _ _ refl _ 2(5) N(1)]
      reserves_trans [OF evict 2(3) [OF _ _ _ refl _ ok(2) N(1)]]
      reserves_trans [OF room 2(4) [OF _ _ ok(1) N(1)]] reserves_refl
    by (simp add: Let_def)
qed (simp add: reserves_refl)

lemma segment_bound: "i \<le> end div seg_size \<Longrightarrow> (i + 1) * seg_size \<le> end + seg_size"
proof -
  assume "i \<le> end div seg_size"
  then have "i * seg_size \<le> end div seg_size * seg_size" by (rule mult_le_mono1)
  also have "\<dots> \<le> end" by (rule div_times_less_eq_dividend)
  finally show ?thesis by simp
qed

lemma produced_new [simp]: "\<not> produced new_segment s" "sg_times new_segment i = unknown_time"
  by (simp_all add: produced_def new_segment_def)

lemma reserve_segments_sound:
  assumes sound: "index_sound P T self" and le: "end + seg_size \<le> u64_max"
    and eq: "self' = block_index_reserve_segments start end self"
  shows "index_sound P T self'" "coverage_slots (bi_coverage self') \<subseteq> coverage_slots (bi_coverage self)"
    and "bi_durable_coverage self' = bi_durable_coverage self" "max_segments self' = max_segments self"
proof -
  let ?ids = "rev [start div seg_size..<Suc (end div seg_size)]"
  have ok: "hm_ok (bi_segments self)" "hm_len (bi_segments self) \<le> max_segments self"
    and cov: "coverage_ok (bi_coverage self)" "coverage_ok (bi_durable_coverage self)"
    and bound: "\<forall>i\<in>dom (hm_get (bi_segments self)). (i + 1) * seg_size \<le> u64_max"
    and t: "segments_true P T (bi_segments self)"
    and backed: "coverage_backed P (coverage_slots (bi_coverage self)) (bi_segments self)"
    using sound by (simp_all add: index_sound_def index_ok_def)
  obtain segs ev where loop: "reserve_loop (max_segments self) ?ids (bi_segments self) None = (segs, ev)"
    by fastforce
  note bounded = reserve_loop_bounded [OF ok loop]
  have r: "reserves (set ?ids) (bi_segments self, None) (segs, ev)"
    using reserve_loop_reserves [OF ok(1) order_refl, of ?ids None "max_segments self"] loop by simp
  have id_bound: "(i + 1) * seg_size \<le> u64_max" if "i \<in> dom (hm_get (bi_segments self)) \<union> set ?ids" for i
  proof (cases "i \<in> set ?ids")
    case True
    then have "i \<le> end div seg_size" by auto
    from segment_bound [OF this] le show ?thesis by (rule le_trans)
  qed (use that bound in blast)
  have self': "self' = self\<lparr>bi_segments := segs, bi_coverage :=
      (case ev of None \<Rightarrow> bi_coverage self
       | Some e \<Rightarrow> coverage_map_remove_below (sat_mul (sat_add e 1) seg_size) (bi_coverage self))\<rparr>"
    unfolding eq block_index_reserve_segments_def Let_def loop by simp
  have floor: "sat_mul (sat_add e 1) seg_size = (e + 1) * seg_size" if "ev = Some e" for e
  proof -
    have le: "(e + 1) * seg_size \<le> u64_max" using reservesD(5) [OF r] that id_bound by auto
    have "(e + 1) * 1 \<le> (e + 1) * seg_size" by (rule mult_le_mono2) (simp add: segment_slots_count_def)
    then have "sat_add e 1 = e + 1" using le by (simp add: sat_add_def)
    then show ?thesis using le by (simp add: sat_mul_def)
  qed
  have slots: "coverage_slots (bi_coverage self') = coverage_slots (bi_coverage self) -
      (case ev of None \<Rightarrow> {} | Some e \<Rightarrow> {..<(e + 1) * seg_size})"
    by (cases ev) (simp_all add: self' floor cov.slots_remove_below [OF cov(1)] del: One_nat_def)
  have cov': "coverage_ok (bi_coverage self')"
    by (cases ev) (simp_all add: self' cov cov.ok_remove_below)
  have "coverage_backed P (coverage_slots (bi_coverage self')) segs"
    unfolding coverage_backed_def
  proof
    fix s assume s: "s \<in> coverage_slots (bi_coverage self')"
    then obtain seg where seg: "hm_get (bi_segments self) (s div seg_size) = Some seg" "s \<in> P \<longrightarrow> produced seg s"
      using backed slots unfolding coverage_backed_def by blast
    have "\<not> s div seg_size \<le> e" if "ev = Some e" for e
    proof
      assume "s div seg_size \<le> e"
      moreover have "(e + 1) * seg_size \<le> s" using s slots that by auto
      then have "e + 1 \<le> s div seg_size"
        using div_le_mono [of "(e + 1) * seg_size" s seg_size] by simp
      ultimately show False by simp
    qed
    then have "hm_get segs (s div seg_size) = Some seg"
      using reservesD(3) [OF r, of "s div seg_size" seg] seg(1) by auto
    then show "\<exists>seg. hm_get segs (s div seg_size) = Some seg \<and> (s \<in> P \<longrightarrow> produced seg s)"
      using seg(2) by blast
  qed
  moreover have "segments_true P T segs"
    unfolding segments_true_def
  proof (intro allI impI)
    fix s seg assume "hm_get segs (s div seg_size) = Some seg"
    then have "hm_get (bi_segments self) (s div seg_size) = Some seg \<or> seg = new_segment"
      using reservesD(2) [OF r] by simp
    then show "if produced seg s then s \<in> P \<and> sg_times seg (s mod seg_size) = time_code (T s)
        else sg_times seg (s mod seg_size) = unknown_time"
      using t unfolding segments_true_def by (metis produced_new)
  qed
  moreover have "\<forall>i\<in>dom (hm_get segs). (i + 1) * seg_size \<le> u64_max"
    using reservesD(1) [OF r] id_bound by auto
  ultimately show "index_sound P T self'"
    using bounded cov cov' by (simp add: index_sound_def index_ok_def self' max_segments_def)
  show "coverage_slots (bi_coverage self') \<subseteq> coverage_slots (bi_coverage self)" using slots by auto
  show "bi_durable_coverage self' = bi_durable_coverage self" "max_segments self' = max_segments self"
    by (simp_all add: self' max_segments_def)
qed

section \<open>Storing rows\<close>

lemma set_dropWhile_sorted:
  "sorted_wrt (<) (map f xs) \<Longrightarrow> set (dropWhile (\<lambda>x. f x < (a :: nat)) xs) = {x \<in> set xs. a \<le> f x}"
  by (induction xs) (auto simp: not_less)

lemma set_takeWhile_sorted:
  "sorted_wrt (<) (map f xs) \<Longrightarrow> set (takeWhile (\<lambda>x. f x \<le> (b :: nat)) xs) = {x \<in> set xs. f x \<le> b}"
  by (induction xs) (auto simp: not_le)

lemma sorted_dropWhile: "sorted_wrt R (map f xs) \<Longrightarrow> sorted_wrt R (map f (dropWhile Q xs))"
  by (induction xs) auto

lemma produced_store_row:
  assumes "bt_slot row div seg_size = s div seg_size"
  shows "produced (store_row seg row) s \<longleftrightarrow> produced seg s \<or> s = bt_slot row"
    and "sg_times (store_row seg row) (s mod seg_size) =
      (if s = bt_slot row then time_code (bt_block_time row) else sg_times seg (s mod seg_size))"
proof -
  have same: "s mod seg_size = bt_slot row mod seg_size \<longleftrightarrow> s = bt_slot row"
    using assms by (metis div_mult_mod_eq)
  then show "sg_times (store_row seg row) (s mod seg_size) =
      (if s = bt_slot row then time_code (bt_block_time row) else sg_times seg (s mod seg_size))"
    by (simp add: store_row_def Let_def time_code_def)
  let ?o = "s mod seg_size" and ?r = "bt_slot row mod seg_size"
  have "?o div 64 = ?r div 64 \<and> ?o mod 64 = ?r mod 64 \<longleftrightarrow> ?o = ?r"
    by (metis div_mult_mod_eq)
  then show "produced (store_row seg row) s \<longleftrightarrow> produced seg s \<or> s = bt_slot row"
    using same by (auto simp: produced_def store_row_def Let_def bit_set_bit64)
qed

lemma produced_store_rows:
  assumes "\<forall>row\<in>set rows. bt_slot row div seg_size = s div seg_size \<and> bt_block_time row = T (bt_slot row)"
  shows "produced (foldl store_row seg rows) s \<longleftrightarrow> produced seg s \<or> s \<in> bt_slot ` set rows"
    and "sg_times (foldl store_row seg rows) (s mod seg_size) =
       (if s \<in> bt_slot ` set rows then time_code (T s) else sg_times seg (s mod seg_size))"
proof -
  have "(produced (foldl store_row seg rows) s \<longleftrightarrow> produced seg s \<or> s \<in> bt_slot ` set rows) \<and>
    sg_times (foldl store_row seg rows) (s mod seg_size) =
      (if s \<in> bt_slot ` set rows then time_code (T s) else sg_times seg (s mod seg_size))"
    using assms
  proof (induction rows arbitrary: seg)
    case (Cons row rows)
    have row: "bt_slot row div seg_size = s div seg_size" "bt_block_time row = T (bt_slot row)"
      using Cons.prems by simp_all
    have "\<forall>row\<in>set rows. bt_slot row div seg_size = s div seg_size \<and> bt_block_time row = T (bt_slot row)"
      using Cons.prems by simp
    note ih = Cons.IH [OF this, of "store_row seg row"]
    show ?case
      unfolding foldl.simps conjunct1 [OF ih] conjunct2 [OF ih] produced_store_row [OF row(1)] row(2)
      by auto
  qed simp
  then show "produced (foldl store_row seg rows) s \<longleftrightarrow> produced seg s \<or> s \<in> bt_slot ` set rows"
    and "sg_times (foldl store_row seg rows) (s mod seg_size) =
       (if s \<in> bt_slot ` set rows then time_code (T s) else sg_times seg (s mod seg_size))"
    by blast+
qed

text \<open>One segment of a published range: the stored rows are exactly the blocks of the cut.\<close>

lemma publish_segment_sound:
  assumes sound: "index_sound P T self" and seg: "hm_get (bi_segments self) ident = Some seg"
    and cut: "a div seg_size = ident" "b div seg_size = ident" "is_u64 b"
    and rows: "\<forall>row\<in>set rows. bt_slot row \<in> P \<inter> {a..b} \<and> bt_block_time row = T (bt_slot row)"
    and complete: "P \<inter> {a..b} \<subseteq> bt_slot ` set rows"
  shows "index_sound P T (self\<lparr>bi_segments := hm_insert ident (foldl store_row seg rows) (bi_segments self),
    bi_coverage := coverage_map_insert_range a b (bi_coverage self)\<rparr>)" (is "index_sound P T ?self")
proof -
  have ok: "hm_ok (bi_segments self)" "coverage_ok (bi_coverage self)"
    and t: "segments_true P T (bi_segments self)"
    and backed: "coverage_backed P (coverage_slots (bi_coverage self)) (bi_segments self)"
    using sound by (simp_all add: index_sound_def index_ok_def)
  let ?seg = "foldl store_row seg rows"
  have inside: "x div seg_size = ident" if "x \<in> {a..b}" for x
    using div_le_mono [of a x seg_size] div_le_mono [of x b seg_size] that cut by simp
  have get: "hm_get (hm_insert ident ?seg (bi_segments self)) i =
      (if i = ident then Some ?seg else hm_get (bi_segments self) i)" for i
    by (simp add: hm.get_put [OF ok(1)])
  have row_ident: "\<forall>row\<in>set rows. bt_slot row div seg_size = s div seg_size \<and>
      bt_block_time row = T (bt_slot row)" if "s div seg_size = ident" for s
    using rows inside that by simp
  have "segments_true P T (bi_segments ?self)"
    unfolding segments_true_def
  proof (intro allI impI)
    fix s sg assume sg: "hm_get (bi_segments ?self) (s div seg_size) = Some sg"
    show "if produced sg s then s \<in> P \<and> sg_times sg (s mod seg_size) = time_code (T s)
        else sg_times sg (s mod seg_size) = unknown_time"
    proof (cases "s div seg_size = ident")
      case True
      then have "sg = ?seg" using sg get by simp
      moreover have "s \<in> bt_slot ` set rows \<Longrightarrow> s \<in> P" using rows by auto
      ultimately show ?thesis
        using t [unfolded segments_true_def, rule_format, of s seg] seg True
          produced_store_rows [OF row_ident [OF True], of seg] by (simp split: if_splits)
    next
      case False
      then show ?thesis using t sg get by (simp add: segments_true_def)
    qed
  qed
  moreover have "coverage_backed P (coverage_slots (bi_coverage self) \<union> {a..b}) (bi_segments ?self)"
    unfolding coverage_backed_def
  proof
    fix s assume s: "s \<in> coverage_slots (bi_coverage self) \<union> {a..b}"
    show "\<exists>sg. hm_get (bi_segments ?self) (s div seg_size) = Some sg \<and> (s \<in> P \<longrightarrow> produced sg s)"
    proof (cases "s div seg_size = ident")
      case True
      then have "produced ?seg s \<longleftrightarrow> produced seg s \<or> s \<in> bt_slot ` set rows"
        by (rule produced_store_rows(1) [OF row_ident])
      moreover have "s \<in> {a..b} \<or> (s \<in> P \<longrightarrow> produced seg s)"
        using backed [unfolded coverage_backed_def, THEN bspec, of s] s seg True by auto
      ultimately have "s \<in> P \<longrightarrow> produced ?seg s" using complete by blast
      then show ?thesis using True get by simp
    next
      case False
      then have "s \<in> coverage_slots (bi_coverage self)" using s inside by blast
      then show ?thesis
        using backed [unfolded coverage_backed_def, THEN bspec, of s] False get by simp
    qed
  qed
  moreover have "index_ok ?self"
  proof -
    have "dom (hm_get (bi_segments ?self)) = dom (hm_get (bi_segments self))"
      using seg get by (auto simp: dom_def)
    then have "hm_len (bi_segments ?self) = hm_len (bi_segments self)"
      using ok by (simp add: hm_len_card hm.ok_put)
    then show ?thesis
      using sound \<open>dom _ = dom _\<close> cut(3)
      by (simp add: index_sound_def index_ok_def hm.ok_put cov.ok_insert max_segments_def)
  qed
  ultimately show ?thesis
    by (simp add: index_sound_def cov.slots_insert [OF ok(2) cut(3)])
qed

lemma wrap64_pred: "0 < x \<Longrightarrow> is_u64 x \<Longrightarrow> wrap64 (x + u64_max) = x - 1"
proof -
  assume x: "0 < x" "is_u64 x"
  then have "x + u64_max = (x - 1) + (u64_max + 1)" by simp
  then have "wrap64 (x + u64_max) = (x - 1) mod (u64_max + 1)"
    unfolding wrap64_def by (simp only: mod_add_self2)
  then show ?thesis using x by (simp add: is_u64_def)
qed

lemma publish_segment_end:
  assumes "cursor \<le> end" "end + seg_size \<le> u64_max"
    and "e = min end (wrap64 (wrap64 ((cursor div seg_size + 1) * seg_size) + u64_max))"
  shows "cursor \<le> e" "e \<le> end" "e div seg_size = cursor div seg_size" "e < u64_max"
proof -
  let ?x = "(cursor div seg_size + 1) * seg_size"
  have "?x \<le> u64_max"
    using segment_bound [of "cursor div seg_size" "end"] assms(1,2) by (simp add: div_le_mono)
  then have "wrap64 (wrap64 ?x + u64_max) = ?x - 1"
    using wrap64_pred [of ?x] by (simp add: wrap64_id is_u64_def)
  then have e: "e = min end (?x - 1)" by (simp add: assms(3))
  have lt: "cursor < ?x"
    using dividend_less_div_times [of seg_size cursor] by (simp add: algebra_simps)
  show "cursor \<le> e" "e \<le> end" using e lt assms(1) by auto
  then show "e < u64_max" using assms(2) seg_size_pos by linarith
  have "e < Suc (cursor div seg_size) * seg_size" using e lt by simp
  then have "e div seg_size < Suc (cursor div seg_size)" by (rule less_mult_imp_div_less)
  then show "e div seg_size = cursor div seg_size"
    using div_le_mono [OF \<open>cursor \<le> e\<close>, of seg_size] by linarith
qed

lemma publish_loop_sound:
  assumes "end + seg_size \<le> u64_max"
  shows "index_sound P T self \<Longrightarrow> rows_true P T rows \<Longrightarrow> P \<inter> {cursor..end} \<subseteq> bt_slot ` set rows \<Longrightarrow>
    \<exists>all' self'. publish_loop end rows cursor all self = Some (all', self') \<and> index_sound P T self' \<and>
      coverage_slots (bi_coverage self) \<subseteq> coverage_slots (bi_coverage self') \<and>
      coverage_slots (bi_coverage self') \<subseteq> coverage_slots (bi_coverage self) \<union> {cursor..end} \<and>
      bi_durable_coverage self' = bi_durable_coverage self \<and>
      (all' \<longrightarrow> all \<and> {cursor..end} \<subseteq> coverage_slots (bi_coverage self'))"
proof (induction "Suc end - cursor" arbitrary: cursor rows all self rule: less_induct)
  case less
  show ?case
  proof (cases "end < cursor")
    case True
    then show ?thesis using less.prems(1) by (subst publish_loop.simps) simp
  next
    case False
    define ident where "ident = cursor div seg_size"
    define e where "e = min end (wrap64 (wrap64 ((ident + 1) * seg_size) + u64_max))"
    have e: "cursor \<le> e" "e \<le> end" "e div seg_size = ident" "e < u64_max"
      using publish_segment_end [OF _ assms, of cursor e] False by (simp_all add: e_def ident_def)
    let ?rows = "dropWhile (\<lambda>row. bt_slot row < cursor) rows"
    let ?now = "takeWhile (\<lambda>row. bt_slot row \<le> e) ?rows"
    let ?rest = "dropWhile (\<lambda>row. bt_slot row \<le> e) ?rows"
    have sorted: "sorted_wrt (<) (map bt_slot rows)" using less.prems(2) by (simp add: rows_true_def)
    have now: "set ?now = {row \<in> set rows. cursor \<le> bt_slot row \<and> bt_slot row \<le> e}"
      using set_takeWhile_sorted [OF sorted_dropWhile [OF sorted]] set_dropWhile_sorted [OF sorted] by auto
    have rest: "set ?rest = {row \<in> set rows. Suc e \<le> bt_slot row}"
      using set_dropWhile_sorted [OF sorted_dropWhile [OF sorted], where a = "Suc e"]
        set_dropWhile_sorted [OF sorted, of cursor] e(1) by (auto simp: less_Suc_eq_le)
    have rest_true: "rows_true P T ?rest"
      using less.prems(2) sorted_dropWhile [OF sorted_dropWhile [OF sorted]] rest by (auto simp: rows_true_def)
    have rest_complete: "P \<inter> {sat_add e 1..end} \<subseteq> bt_slot ` set ?rest"
      using less.prems(3) e(1) unfolding sat_add_one_eq [OF e(4)] rest by force
    have shrink: "Suc end - sat_add e 1 < Suc end - cursor"
      unfolding sat_add_one_eq [OF e(4)] using e(1,2) by linarith
    have window: "{cursor..end} = {cursor..e} \<union> {sat_add e 1..end}"
      unfolding sat_add_one_eq [OF e(4)] using e(1,2) by auto
    note ih = less.hyps [OF shrink _ rest_true rest_complete]
    show ?thesis
    proof (cases "hm_get (bi_segments self) ident")
      case None
      have "publish_loop end rows cursor all self = publish_loop end ?rest (sat_add e 1) False self"
        using False by (subst publish_loop.simps) (simp only: Let_def None option.case if_False flip: ident_def e_def)
      then show ?thesis using ih [OF less.prems(1), of False] window by force
    next
      case (Some seg)
      let ?self = "self\<lparr>bi_segments := hm_insert ident (foldl store_row seg ?now) (bi_segments self),
        bi_coverage := coverage_map_insert_range cursor e (bi_coverage self)\<rparr>"
      have step: "publish_loop end rows cursor all self = publish_loop end ?rest (sat_add e 1) all ?self"
        using False by (subst publish_loop.simps) (simp only: Let_def Some option.case if_False flip: ident_def e_def)
      have u: "is_u64 e" using e(4) by (simp add: is_u64_def)
      have "index_sound P T ?self"
      proof (rule publish_segment_sound [OF less.prems(1) Some _ e(3) u])
        show "P \<inter> {cursor..e} \<subseteq> bt_slot ` set ?now" using less.prems(3) e(2) unfolding now by force
      qed (use less.prems(2) in \<open>auto simp: now rows_true_def ident_def\<close>)
      from ih [OF this, of all] obtain all' self' where
        r: "publish_loop end ?rest (sat_add e 1) all ?self = Some (all', self')" "index_sound P T self'"
        "coverage_slots (bi_coverage ?self) \<subseteq> coverage_slots (bi_coverage self')"
        "coverage_slots (bi_coverage self') \<subseteq> coverage_slots (bi_coverage ?self) \<union> {sat_add e 1..end}"
        "bi_durable_coverage self' = bi_durable_coverage ?self"
        "all' \<longrightarrow> all \<and> {sat_add e 1..end} \<subseteq> coverage_slots (bi_coverage self')" by blast
      have grow: "coverage_slots (bi_coverage ?self) = coverage_slots (bi_coverage self) \<union> {cursor..e}"
        using less.prems(1) u by (simp add: index_sound_def index_ok_def cov.slots_insert)
      show ?thesis
        using r(2,5,6) r(3,4) [unfolded grow] unfolding step r(1) window
        by (intro exI [of _ all'] exI [of _ self']) auto
    qed
  qed
qed

lemma publish_memory_sound:
  assumes "index_sound P T self" "rows_true P T rows" "P \<inter> {start..end} \<subseteq> bt_slot ` set rows"
    and "end + seg_size \<le> u64_max"
  shows "\<exists>all' self'. block_index_publish_memory start end rows self = Some (all', self') \<and>
    index_sound P T self' \<and> bi_durable_coverage self' = bi_durable_coverage self \<and>
    coverage_slots (bi_coverage self') \<subseteq> coverage_slots (bi_coverage self) \<union> {start..end} \<and>
    (all' \<longrightarrow> {start..end} \<subseteq> coverage_slots (bi_coverage self'))"
proof (cases "end < start")
  case True
  then show ?thesis using assms(1) by (auto simp: block_index_publish_memory_def)
next
  case False
  let ?self = "block_index_reserve_segments start end self"
  note r = reserve_segments_sound [OF assms(1,4) refl, of start]
  from publish_loop_sound [OF assms(4) r(1) assms(2,3), of True] obtain all' self' where
    "publish_loop end rows start True ?self = Some (all', self')" "index_sound P T self'"
    "coverage_slots (bi_coverage self') \<subseteq> coverage_slots (bi_coverage ?self) \<union> {start..end}"
    "bi_durable_coverage self' = bi_durable_coverage ?self"
    "all' \<longrightarrow> {start..end} \<subseteq> coverage_slots (bi_coverage self')" by blast
  then show ?thesis using False r(2,3)
    by (intro exI [of _ all'] exI [of _ self']) (simp add: block_index_publish_memory_def, blast)
qed

end
