(* ===== verification/Block_Index_Scan.thy ===== *)
theory Block_Index_Scan
  imports Block_Index
begin

text \<open>
  The worker that fills the block-time index (second half of
  \<^verbatim>\<open>src/crates/superbank-rpc/src/disk_cache/block_index.rs\<close>): scan windows, the ranges that rows and
  parent links prove, the plan of what to publish, and one round of the worker.  The ClickHouse
  source is a parameter; the lemmas need only that it reports existing blocks with their true
  parents, not that its answers are complete.
\<close>

section \<open>Scanning\<close>

record scan_cursors =
  sk_forward_next :: "slot option"
  sk_backfill_floor :: "slot option"

record scan_window =
  sw_start :: slot
  sw_end :: slot
  sw_forward :: bool

record scan_plan =
  sp_publish :: "span list"
  sp_next :: slot

definition scan_cursors_seeded :: "span option \<Rightarrow> scan_cursors" where
  "scan_cursors_seeded durable_span =
     \<lparr>sk_forward_next = map_option (\<lambda>p. sat_add (snd p) 1) durable_span,
      sk_backfill_floor = map_option fst durable_span\<rparr>"

definition scan_cursors_window :: "scan_cursors \<Rightarrow> slot \<Rightarrow> nat \<Rightarrow> scan_window option" where
  "scan_cursors_window self latest slots_per_query =
     (let width = max slots_per_query 1
      in case sk_forward_next self of
           None \<Rightarrow>
             Some \<lparr>sw_start = sat_sub latest (width - 1), sw_end = latest, sw_forward = True\<rparr>
         | Some nxt \<Rightarrow>
             if nxt \<le> latest then
               Some \<lparr>sw_start = nxt, sw_end = min latest (sat_add nxt (width - 1)), sw_forward = True\<rparr>
             else
               (case sk_backfill_floor self of
                  Some floor \<Rightarrow>
                    if 0 < floor then
                      Some \<lparr>sw_start = sat_sub floor width, sw_end = floor - 1, sw_forward = False\<rparr>
                    else None
                | None \<Rightarrow> None))"

text \<open>\<open>proven_ranges\<close>: the pushed ranges are kept newest first, \<open>ranges.last_mut()\<close> is the head.\<close>

definition push_range :: "span list \<Rightarrow> slot \<Rightarrow> slot \<Rightarrow> span list" where
  "push_range ranges first final =
     (case ranges of
        (floor, tip) # rest \<Rightarrow>
          if first \<le> sat_add tip 1 then (floor, max tip final) # rest else (first, final) # ranges
      | [] \<Rightarrow> [(first, final)])"

definition link_proves_gap :: "slot option \<Rightarrow> span \<Rightarrow> bool" where
  "link_proves_gap previous_slot link \<longleftrightarrow>
     snd link < fst link \<and> fst link - snd link - 1 \<le> max_skipped_run \<and>
     (case previous_slot of None \<Rightarrow> True | Some previous \<Rightarrow> previous \<le> snd link)"

definition proven_step ::
  "slot \<Rightarrow> slot \<Rightarrow> slot option \<times> span list \<Rightarrow> span \<Rightarrow> slot option \<times> span list" where
  "proven_step start end st link =
     (let first = max (if link_proves_gap (fst st) link then snd link + 1 else fst link) start;
          final = min (fst link) end
      in (Some (fst link), if final < first then snd st else push_range (snd st) first final))"

definition proven_ranges :: "slot \<Rightarrow> slot \<Rightarrow> span list \<Rightarrow> span list" where
  "proven_ranges start end links = rev (snd (foldl (proven_step start end) (None, []) links))"

fun plan_scan_loop :: "slot \<Rightarrow> slot \<Rightarrow> span list \<Rightarrow> span list \<Rightarrow> slot \<Rightarrow> scan_plan" where
  "plan_scan_loop end settled [] publish nxt =
     \<lparr>sp_publish = publish,
      sp_next = (if nxt \<le> end \<and> end \<le> settled then sat_add end 1 else nxt)\<rparr>"
| "plan_scan_loop end settled ((first, final) # proven) publish nxt =
     (if nxt < first \<and> settled < first - 1 then \<lparr>sp_publish = publish, sp_next = nxt\<rparr>
      else plan_scan_loop end settled proven (publish @ [(first, final)]) (sat_add final 1))"

definition plan_scan :: "slot \<Rightarrow> slot \<Rightarrow> span list \<Rightarrow> slot \<Rightarrow> scan_plan" where
  "plan_scan start end proven settled = plan_scan_loop end settled proven [] start"

datatype disk_cache_error = Click_house_error | Config_error

text \<open>
  The two source queries are parameters: the rows of a window and the first block after a slot.
  \<open>store\<close> is the outcome of the inserts into the local tables.
\<close>

type_synonym source_rows = "slot \<Rightarrow> slot \<Rightarrow> disk_cache_error + block_time_row list"
type_synonym source_next = "slot \<Rightarrow> disk_cache_error + span option"

definition block_index_scan ::
  "source_rows \<Rightarrow> source_next \<Rightarrow> slot \<Rightarrow> slot \<Rightarrow>
   disk_cache_error + block_time_row list \<times> span list" where
  "block_index_scan get_rows next_block start end =
     (case get_rows start end of
        Inl e \<Rightarrow> Inl e
      | Inr rows \<Rightarrow>
          case (if rows = [] \<or> bt_slot (last rows) < end then next_block end else Inr None) of
            Inl e \<Rightarrow> Inl e
          | Inr successor \<Rightarrow>
              let links = map (\<lambda>row. (bt_slot row, bt_parent_slot row)) rows @
                          (case successor of None \<Rightarrow> [] | Some link \<Rightarrow> [link])
              in Inr (rows, proven_ranges start end links))"

fun publish_ranges ::
  "block_time_row list \<Rightarrow> span list \<Rightarrow> block_index \<Rightarrow> block_index option" where
  "publish_ranges rows [] self = Some self"
| "publish_ranges rows ((start, end) # ranges) self =
     block_index_publish_memory start end rows
       (self\<lparr>bi_durable_coverage := coverage_map_insert_range start end (bi_durable_coverage self)\<rparr>) \<bind>
     (\<lambda>r. publish_ranges rows ranges (snd r))"

definition block_index_persist_ranges ::
  "(span list \<Rightarrow> block_time_row list \<Rightarrow> bool) \<Rightarrow> span list \<Rightarrow> block_time_row list \<Rightarrow> block_index \<Rightarrow>
   ((disk_cache_error + unit) \<times> block_index) option" where
  "block_index_persist_ranges store ranges rows self =
     (if ranges = [] then Some (Inr (), self)
      else if \<not> store ranges
                (filter (\<lambda>row. list_ex (\<lambda>(a, b). a \<le> bt_slot row \<and> bt_slot row \<le> b) ranges) rows)
      then Some (Inl Click_house_error, self)
      else map_option (Pair (Inr ())) (publish_ranges rows ranges self))"

definition block_index_scan_once ::
  "source_rows \<Rightarrow> source_next \<Rightarrow> (span list \<Rightarrow> block_time_row list \<Rightarrow> bool) \<Rightarrow> slot \<Rightarrow>
   block_index \<times> scan_cursors \<Rightarrow> (span option \<times> block_index \<times> scan_cursors) option" where
  "block_index_scan_once get_rows next_block store latest st =
     (let (self, cursors) = st
      in case scan_cursors_window cursors latest (bi_slots_per_query self) of
           None \<Rightarrow> Some (None, self, cursors)
         | Some w \<Rightarrow>
             let window = Some (sw_start w, sw_end w)
             in case block_index_scan get_rows next_block (sw_start w) (sw_end w) of
                  Inl _ \<Rightarrow> Some (window, self, cursors)
                | Inr (rows, proven) \<Rightarrow>
                    let settled = (if sw_forward w then sat_sub latest unproven_settle_slots else u64_max);
                        plan = plan_scan (sw_start w) (sw_end w) proven settled
                    in map_option (\<lambda>(r, self').
                         (window, self',
                          (case r of
                             Inl _ \<Rightarrow> cursors
                           | Inr _ \<Rightarrow>
                               if sw_forward w then
                                 \<lparr>sk_forward_next = Some (sp_next plan),
                                  sk_backfill_floor =
                                    Some (case sk_backfill_floor cursors of
                                            Some f \<Rightarrow> f | None \<Rightarrow> sw_start w)\<rparr>
                               else cursors\<lparr>sk_backfill_floor := Some (sw_start w)\<rparr>)))
                         (block_index_persist_ranges store (sp_publish plan) rows self))"

fun block_index_load_local ::
  "source_rows \<Rightarrow> span list \<Rightarrow> block_index \<Rightarrow> ((disk_cache_error + unit) \<times> block_index) option" where
  "block_index_load_local local_rows [] self = Some (Inr (), self)"
| "block_index_load_local local_rows ((range_start, range_end) # ranges) self =
     (let self' = self\<lparr>bi_durable_coverage :=
                     coverage_map_insert_range range_start range_end (bi_durable_coverage self)\<rparr>
      in case local_rows range_start range_end of
           Inl e \<Rightarrow> Some (Inl e, self')
         | Inr rows \<Rightarrow>
             block_index_publish_memory range_start range_end rows self' \<bind>
             (\<lambda>r. block_index_load_local local_rows ranges (snd r)))"

section \<open>Specification\<close>

text \<open>A truthful parent link: the block exists and no block lies between its parent and it.\<close>

definition link_holds :: "slot set \<Rightarrow> span \<Rightarrow> bool" where
  "link_holds P link \<longleftrightarrow> fst link \<in> P \<and> P \<inter> {snd link<..<fst link} = {}"

text \<open>What is known of the source queries: they report existing blocks with their true parents.\<close>

definition source_true ::
  "slot set \<Rightarrow> (slot \<Rightarrow> int option) \<Rightarrow> source_rows \<Rightarrow> source_next \<Rightarrow> bool" where
  "source_true P T get_rows next_block \<longleftrightarrow>
     (\<forall>a b rows. get_rows a b = Inr rows \<longrightarrow>
        rows_true P T rows \<and>
        (\<forall>row\<in>set rows. a \<le> bt_slot row \<and> bt_slot row \<le> b \<and>
                         link_holds P (bt_slot row, bt_parent_slot row))) \<and>
     (\<forall>e link. next_block e = Inr (Some link) \<longrightarrow> e < fst link \<and> link_holds P link)"

text \<open>The worker's rounds: each round has the outcome of the local inserts and the observed tip.\<close>

fun index_rounds ::
  "source_rows \<Rightarrow> source_next \<Rightarrow> ((span list \<Rightarrow> block_time_row list \<Rightarrow> bool) \<times> slot) list \<Rightarrow>
   block_index \<times> scan_cursors \<Rightarrow> (block_index \<times> scan_cursors) option" where
  "index_rounds get_rows next_block [] st = Some st"
| "index_rounds get_rows next_block ((store, latest) # rounds) st =
     block_index_scan_once get_rows next_block store latest st \<bind>
     (\<lambda>(_, st'). index_rounds get_rows next_block rounds st')"

definition empty_index :: "nat \<Rightarrow> nat \<Rightarrow> block_index" where
  "empty_index memory width =
     \<lparr>bi_max_memory_bytes = memory, bi_slots_per_query = width, bi_segments = [],
      bi_durable_coverage = coverage_map_new, bi_coverage = coverage_map_new\<rparr>"

text \<open>The range of slots the arithmetic of segment ends is exact for: all but the last two segments.\<close>

definition slot_in_reach :: "slot \<Rightarrow> bool" where
  "slot_in_reach s \<longleftrightarrow> s + seg_size \<le> u64_max"

definition cursors_ok :: "scan_cursors \<Rightarrow> bool" where
  "cursors_ok c \<longleftrightarrow> (\<forall>f. sk_backfill_floor c = Some f \<longrightarrow> slot_in_reach f)"

section \<open>Proven ranges\<close>

lemma push_range_separated:
  assumes "spans_separated (rev ranges)" "\<forall>p\<in>set ranges. snd p < first" "first \<le> final" "is_u64 first"
  shows "spans_separated (rev (push_range ranges first final)) \<and>
    spans_set (push_range ranges first final) = spans_set ranges \<union> {first..final} \<and>
    (\<forall>p\<in>set (push_range ranges first final). snd p \<le> final)"
proof (cases ranges)
  case (Cons q rest)
  obtain floor tip where q: "q = (floor, tip)" by (cases q)
  have tip: "tip < first" "\<forall>p\<in>set rest. snd p < first" using assms(2) by (auto simp: Cons q)
  have sep: "spans_separated (rev rest)" "floor \<le> tip" "\<forall>p\<in>set rest. Suc (snd p) < floor"
    using assms(1) by (auto simp: Cons q spans_separated_def sorted_wrt_append list_all_iff)
  have touch: "first \<le> sat_add tip 1 \<longleftrightarrow> first = Suc tip"
    using sat_add_one_ge_iff [OF assms(4)] tip(1) by auto
  show ?thesis
  proof (cases "first = Suc tip")
    case True
    then have "{floor..max tip final} = {floor..tip} \<union> {first..final}" using sep(2) assms(3) by auto
    then show ?thesis using sep tip assms(3) touch True
      by (auto simp: push_range_def Cons q spans_separated_def sorted_wrt_append list_all_iff
          simp del: One_nat_def)
  next
    case False
    then have "Suc tip < first" using tip(1) by simp
    moreover have "Suc (snd p) < first" if "p \<in> set rest" for p
      using sep(3) that calculation sep(2) by fastforce
    ultimately show ?thesis using sep tip assms(3) touch False
      by (auto simp: push_range_def Cons q spans_separated_def sorted_wrt_append list_all_iff
          simp del: One_nat_def)
  qed
qed (use assms in \<open>simp add: push_range_def\<close>)

lemma proven_fold:
  assumes "is_u64 end"
  shows "sorted_wrt (<) (map fst links) \<Longrightarrow> foldl (proven_step start end) (None, []) links = (prev, ranges) \<Longrightarrow>
    spans_separated (rev ranges) \<and> prev = (if links = [] then None else Some (fst (last links))) \<and>
    (\<forall>p\<in>set ranges. \<exists>q. prev = Some q \<and> snd p \<le> q) \<and> spans_set ranges \<subseteq> {start..end} \<and>
    (\<forall>x\<in>spans_set ranges. x \<in> fst ` set links \<or> (\<exists>l\<in>set links. snd l < x \<and> x < fst l)) \<and>
    fst ` set links \<inter> {start..end} \<subseteq> spans_set ranges"
proof (induction links arbitrary: prev ranges rule: rev_induct)
  case (snoc l links)
  obtain prev0 ranges0 where st: "foldl (proven_step start end) (None, []) links = (prev0, ranges0)"
    by fastforce
  have "sorted_wrt (<) (map fst links)" using snoc.prems(1) by (simp add: sorted_wrt_append)
  note all = snoc.IH [OF this st]
  note ih = all [THEN conjunct1] all [THEN conjunct2, THEN conjunct1]
    all [THEN conjunct2, THEN conjunct2, THEN conjunct1]
    all [THEN conjunct2, THEN conjunct2, THEN conjunct2, THEN conjunct1]
    all [THEN conjunct2, THEN conjunct2, THEN conjunct2, THEN conjunct2, THEN conjunct1]
    all [THEN conjunct2, THEN conjunct2, THEN conjunct2, THEN conjunct2, THEN conjunct2]
  have last: "fst (last links) < fst l" if "links \<noteq> []"
    using snoc.prems(1) last_in_set [OF that] by (auto simp: sorted_wrt_append)
  define first where "first = max (if link_proves_gap prev0 l then snd l + 1 else fst l) start"
  define final where "final = min (fst l) end"
  have "proven_step start end (prev0, ranges0) l = (prev, ranges)" using snoc.prems(2) st by simp
  then have new: "prev = Some (fst l)" "ranges = (if final < first then ranges0 else push_range ranges0 first final)"
    by (simp_all add: proven_step_def Let_def first_def final_def split: if_splits)
  have below: "snd p < first" if p: "p \<in> set ranges0" for p
  proof -
    obtain q where q: "prev0 = Some q" "snd p \<le> q" using ih(3) p by blast
    then have "q < fst l" using ih(2) last by (simp split: if_splits)
    then show ?thesis using q by (auto simp: first_def link_proves_gap_def)
  qed
  have in_new: "x \<in> fst ` set (links @ [l]) \<or> (\<exists>l\<in>set (links @ [l]). snd l < x \<and> x < fst l)"
    if "x \<in> {first..final}" for x
    using that by (cases "x = fst l") (auto simp: first_def final_def split: if_splits)
  have l_in: "fst l \<in> {first..final}" if "fst l \<in> {start..end}"
    using that by (auto simp: first_def final_def link_proves_gap_def)
  show ?case
  proof (cases "final < first")
    case True
    then have "fst l \<notin> {start..end}" using l_in by fastforce
    then have "fst ` set (links @ [l]) \<inter> {start..end} \<subseteq> spans_set ranges0" using ih(6) by auto
    moreover have "\<forall>p\<in>set ranges0. \<exists>q. prev = Some q \<and> snd p \<le> q"
    proof
      fix p assume "p \<in> set ranges0"
      then obtain q where q: "prev0 = Some q" "snd p \<le> q" using ih(3) by blast
      then have "q < fst l" using ih(2) last by (simp split: if_splits)
      then show "\<exists>q. prev = Some q \<and> snd p \<le> q" using q(2) new(1) by simp
    qed
    moreover have "\<forall>x\<in>spans_set ranges0. x \<in> fst ` set (links @ [l]) \<or>
        (\<exists>l\<in>set (links @ [l]). snd l < x \<and> x < fst l)" using ih(5) by auto
    ultimately show ?thesis using ih(1,4) new True by simp
  next
    case False
    then have "is_u64 first" using assms by (auto simp: final_def intro: is_u64_mono)
    then have push: "spans_separated (rev ranges)" "spans_set ranges = spans_set ranges0 \<union> {first..final}"
      "\<forall>p\<in>set ranges. snd p \<le> final"
      using push_range_separated [OF ih(1), of first final] below False new(2) by simp_all
    have "\<forall>p\<in>set ranges. \<exists>q. prev = Some q \<and> snd p \<le> q"
      using push(3) new(1) by (auto simp: final_def)
    moreover have "{first..final} \<subseteq> {start..end}" by (auto simp: first_def final_def)
    moreover have "fst ` set (links @ [l]) \<inter> {start..end} \<subseteq> spans_set ranges"
      using ih(6) l_in push(2) by auto
    moreover have "\<forall>x\<in>spans_set ranges0. x \<in> fst ` set (links @ [l]) \<or>
        (\<exists>l\<in>set (links @ [l]). snd l < x \<and> x < fst l)" using ih(5) by auto
    ultimately show ?thesis using ih(4) new(1) push in_new by (simp add: ball_Un)
  qed
qed simp

lemma proven_ranges_exact:
  assumes "is_u64 end" "sorted_wrt (<) (map fst links)" "\<forall>l\<in>set links. link_holds P l"
  shows "spans_separated (proven_ranges start end links)"
    and "spans_set (proven_ranges start end links) \<subseteq> {start..end}"
    and "x \<in> spans_set (proven_ranges start end links) \<Longrightarrow> x \<in> P \<longleftrightarrow> x \<in> fst ` set links"
    and "fst ` set links \<inter> {start..end} \<subseteq> spans_set (proven_ranges start end links)"
proof -
  obtain prev ranges where st: "foldl (proven_step start end) (None, []) links = (prev, ranges)"
    by fastforce
  note all = proven_fold [OF assms(1,2) st]
  have ranges: "proven_ranges start end links = rev ranges" by (simp add: proven_ranges_def st)
  show "spans_separated (proven_ranges start end links)"
    "spans_set (proven_ranges start end links) \<subseteq> {start..end}"
    "fst ` set links \<inter> {start..end} \<subseteq> spans_set (proven_ranges start end links)"
    using all unfolding ranges spans_set_rev by blast+
  assume "x \<in> spans_set (proven_ranges start end links)"
  then have "x \<in> fst ` set links \<or> (\<exists>l\<in>set links. snd l < x \<and> x < fst l)"
    using all unfolding ranges spans_set_rev by blast
  then show "x \<in> P \<longleftrightarrow> x \<in> fst ` set links"
    using assms(3) by (fastforce simp: link_holds_def)
qed

section \<open>Scan plans\<close>

lemma plan_scan_loop_props:
  assumes "\<forall>x. start \<le> x \<and> x < nxt \<longrightarrow> x \<in> spans_set publish \<or> x \<le> settled"
  shows "let plan = plan_scan_loop end settled proven publish nxt in
    (\<exists>taken dropped. proven = taken @ dropped \<and> sp_publish plan = publish @ taken) \<and>
    (\<forall>x. start \<le> x \<and> x < sp_next plan \<longrightarrow> x \<in> spans_set (sp_publish plan) \<or> x \<le> settled)"
  using assms
proof (induction "end" settled proven publish nxt rule: plan_scan_loop.induct)
  case (1 "end" settled publish nxt)
  have "x \<le> end" if "x < sat_add end 1" for x using that by (simp add: sat_add_def)
  then show ?case using 1 by (auto simp: Let_def simp del: One_nat_def intro: le_trans)
next
  case (2 "end" settled first final proven publish nxt)
  show ?case
  proof (cases "nxt < first \<and> settled < first - 1")
    case True
    then show ?thesis using 2(2) by (auto simp: Let_def)
  next
    case False
    have "x \<in> spans_set (publish @ [(first, final)]) \<or> x \<le> settled"
      if x: "start \<le> x" "x < sat_add final 1" for x
    proof -
      have "x \<le> final" using x(2) by (simp add: sat_add_def)
      then show ?thesis using 2(2) x(1) False by (cases "x < nxt"; cases "first \<le> x") auto
    qed
    with 2(1) [OF False] have "let plan = plan_scan_loop end settled proven (publish @ [(first, final)]) (sat_add final 1) in
        (\<exists>taken dropped. proven = taken @ dropped \<and> sp_publish plan = (publish @ [(first, final)]) @ taken) \<and>
        (\<forall>x. start \<le> x \<and> x < sp_next plan \<longrightarrow> x \<in> spans_set (sp_publish plan) \<or> x \<le> settled)" by blast
    then show ?thesis using False by (auto simp: Let_def)
  qed
qed

lemma plan_scan_props:
  obtains taken dropped where "proven = taken @ dropped" "sp_publish (plan_scan start end proven settled) = taken"
    "\<And>x. start \<le> x \<Longrightarrow> x < sp_next (plan_scan start end proven settled) \<Longrightarrow> x \<in> spans_set taken \<or> x \<le> settled"
proof -
  let ?plan = "plan_scan start end proven settled"
  have "(\<exists>taken dropped. proven = taken @ dropped \<and> sp_publish ?plan = taken) \<and>
    (\<forall>x. start \<le> x \<and> x < sp_next ?plan \<longrightarrow> x \<in> spans_set (sp_publish ?plan) \<or> x \<le> settled)"
    using plan_scan_loop_props [of start start "[]" settled "end" proven] by (simp add: plan_scan_def Let_def)
  then obtain taken dropped where "proven = taken @ dropped" "sp_publish ?plan = taken"
    "\<forall>x. start \<le> x \<and> x < sp_next ?plan \<longrightarrow> x \<in> spans_set (sp_publish ?plan) \<or> x \<le> settled" by blast
  then show ?thesis by (intro that [of taken dropped]) simp_all
qed

section \<open>One round of the worker\<close>

lemma scan_exact:
  assumes "source_true P T get_rows next_block" "is_u64 end"
    and "block_index_scan get_rows next_block start end = Inr (rows, proven)"
  shows "rows_true P T rows" "spans_separated proven" "spans_set proven \<subseteq> {start..end}"
    and "x \<in> spans_set proven \<Longrightarrow> x \<in> P \<longleftrightarrow> x \<in> bt_slot ` set rows"
proof -
  obtain succ where rows: "get_rows start end = Inr rows"
    and succ: "(if rows = [] \<or> bt_slot (last rows) < end then next_block end else Inr None) = Inr succ"
    and proven: "proven = proven_ranges start end (map (\<lambda>row. (bt_slot row, bt_parent_slot row)) rows @
      (case succ of None \<Rightarrow> [] | Some link \<Rightarrow> [link]))"
    using assms(3) by (auto simp: block_index_scan_def Let_def split: sum.splits)
  let ?links = "map (\<lambda>row. (bt_slot row, bt_parent_slot row)) rows @ (case succ of None \<Rightarrow> [] | Some link \<Rightarrow> [link])"
  have src: "rows_true P T rows" "\<forall>row\<in>set rows. start \<le> bt_slot row \<and> bt_slot row \<le> end \<and>
      link_holds P (bt_slot row, bt_parent_slot row)"
    using assms(1) rows unfolding source_true_def by blast+
  have nxt: "end < fst link \<and> link_holds P link" if link: "succ = Some link" for link
  proof -
    have "next_block end = Inr (Some link)" using succ link by (simp split: if_splits)
    then show ?thesis using assms(1) unfolding source_true_def by blast
  qed
  show "rows_true P T rows" by (rule src(1))
  have sorted: "sorted_wrt (<) (map fst ?links)"
    using src nxt by (auto simp: rows_true_def sorted_wrt_append comp_def split: option.splits)
  have links: "\<forall>l\<in>set ?links. link_holds P l" using src(2) nxt by (auto split: option.splits)
  note ex = proven_ranges_exact [OF assms(2) sorted links, where start = start]
  show "spans_separated proven" "spans_set proven \<subseteq> {start..end}" using ex(1,2) by (simp_all add: proven)
  assume x: "x \<in> spans_set proven"
  then have "x \<le> end" using ex(2) by (auto simp: proven)
  then have "x \<in> fst ` set ?links \<longleftrightarrow> x \<in> bt_slot ` set rows"
    using nxt by (force split: option.splits)
  then show "x \<in> P \<longleftrightarrow> x \<in> bt_slot ` set rows" using ex(3) [of x] x unfolding proven by blast
qed

lemma publish_ranges_sound:
  "index_sound P T self \<Longrightarrow> rows_true P T rows \<Longrightarrow> \<forall>x\<in>spans_set ranges. x \<in> P \<longrightarrow> x \<in> bt_slot ` set rows \<Longrightarrow>
   \<forall>p\<in>set ranges. slot_in_reach (snd p) \<Longrightarrow>
   \<exists>self'. publish_ranges rows ranges self = Some self' \<and> index_sound P T self' \<and>
     coverage_slots (bi_durable_coverage self') = coverage_slots (bi_durable_coverage self) \<union> spans_set ranges \<and>
     coverage_slots (bi_coverage self') \<subseteq> coverage_slots (bi_coverage self) \<union> spans_set ranges"
proof (induction ranges arbitrary: self)
  case (Cons p ranges)
  obtain a b where p: "p = (a, b)" by (cases p)
  let ?self = "self\<lparr>bi_durable_coverage := coverage_map_insert_range a b (bi_durable_coverage self)\<rparr>"
  have reach: "b + seg_size \<le> u64_max" using Cons.prems(4) by (simp add: p slot_in_reach_def)
  then have u: "is_u64 b" by (simp add: is_u64_def)
  have durable: "coverage_ok (bi_durable_coverage self)"
    using Cons.prems(1) by (simp add: index_sound_def index_ok_def)
  have sound: "index_sound P T ?self"
    using Cons.prems(1) u by (simp add: index_sound_def index_ok_def cov.ok_insert max_segments_def)
  have complete: "P \<inter> {a..b} \<subseteq> bt_slot ` set rows" using Cons.prems(3) by (auto simp: p)
  from publish_memory_sound [OF sound Cons.prems(2) complete reach] obtain all' self1 where
    one: "block_index_publish_memory a b rows ?self = Some (all', self1)" "index_sound P T self1"
    "bi_durable_coverage self1 = bi_durable_coverage ?self"
    "coverage_slots (bi_coverage self1) \<subseteq> coverage_slots (bi_coverage ?self) \<union> {a..b}" by blast
  have rest: "\<forall>x\<in>spans_set ranges. x \<in> P \<longrightarrow> x \<in> bt_slot ` set rows" "\<forall>p\<in>set ranges. slot_in_reach (snd p)"
    using Cons.prems(3,4) by simp_all
  from Cons.IH [OF one(2) Cons.prems(2) rest] obtain self' where
    two: "publish_ranges rows ranges self1 = Some self'" "index_sound P T self'"
    "coverage_slots (bi_durable_coverage self') = coverage_slots (bi_durable_coverage self1) \<union> spans_set ranges"
    "coverage_slots (bi_coverage self') \<subseteq> coverage_slots (bi_coverage self1) \<union> spans_set ranges" by blast
  have "coverage_slots (bi_durable_coverage self1) = coverage_slots (bi_durable_coverage self) \<union> {a..b}"
    using one(3) cov.slots_insert [OF durable u] by simp
  then have "coverage_slots (bi_durable_coverage self') =
      coverage_slots (bi_durable_coverage self) \<union> spans_set (p # ranges)"
    unfolding two(3) by (simp add: p Un_assoc)
  moreover have "coverage_slots (bi_coverage self') \<subseteq> coverage_slots (bi_coverage self) \<union> spans_set (p # ranges)"
    using one(4) two(4) by (auto simp: p)
  moreover have "publish_ranges rows (p # ranges) self = Some self'" using one(1) two(1) by (simp add: p)
  ultimately show ?case using two(2) by blast
qed simp

lemma window_reach:
  assumes "scan_cursors_window cursors latest width = Some w" "slot_in_reach latest" "cursors_ok cursors"
  shows "slot_in_reach (sw_end w)" "sw_start w \<le> sw_end w" "slot_in_reach (sw_start w)"
proof -
  have "slot_in_reach (sw_end w) \<and> sw_start w \<le> sw_end w"
    using assms
    by (auto simp: scan_cursors_window_def Let_def slot_in_reach_def cursors_ok_def sat_add_def sat_sub_def
        is_u64_def split: option.splits if_splits)
  then show "slot_in_reach (sw_end w)" "sw_start w \<le> sw_end w" "slot_in_reach (sw_start w)"
    by (auto simp: slot_in_reach_def)
qed

lemma scan_once_sound:
  assumes "source_true P T get_rows next_block" "index_sound P T self" "cursors_ok cursors" "slot_in_reach latest"
  shows "\<exists>w self' cursors'. block_index_scan_once get_rows next_block store latest (self, cursors) =
      Some (w, self', cursors') \<and> index_sound P T self' \<and> cursors_ok cursors'"
proof (cases "scan_cursors_window cursors latest (bi_slots_per_query self)")
  case None
  then show ?thesis using assms by (simp add: block_index_scan_once_def)
next
  case (Some w)
  note w = window_reach [OF Some assms(4,3)]
  have u: "is_u64 (sw_end w)" using w(1) by (simp add: slot_in_reach_def is_u64_def)
  show ?thesis
  proof (cases "block_index_scan get_rows next_block (sw_start w) (sw_end w)")
    case (Inl e)
    then show ?thesis using assms Some by (simp add: block_index_scan_once_def)
  next
    case (Inr r)
    then obtain rows proven where scan: "block_index_scan get_rows next_block (sw_start w) (sw_end w) = Inr (rows, proven)"
      by (cases r) auto
    note ex = scan_exact [OF assms(1) u scan]
    define plan where "plan = plan_scan (sw_start w) (sw_end w) proven
      (if sw_forward w then sat_sub latest unproven_settle_slots else u64_max)"
    obtain taken dropped where taken: "proven = taken @ dropped" "sp_publish plan = taken"
      unfolding plan_def by (rule plan_scan_props)
    have "\<forall>x\<in>spans_set taken. x \<in> P \<longrightarrow> x \<in> bt_slot ` set rows" using ex(4) taken(1) by auto
    moreover have "\<forall>p\<in>set taken. slot_in_reach (snd p)"
    proof
      fix p assume p: "p \<in> set taken"
      then have "snd p \<in> spans_set proven"
        using ex(2) taken(1) by (intro spans_setI [of "fst p" "snd p"]) (auto simp: spans_separated_def list_all_iff span_ok_def)
      then show "slot_in_reach (snd p)" using ex(3) w(1) by (auto simp: slot_in_reach_def)
    qed
    ultimately obtain self' where pub: "publish_ranges rows taken self = Some self'" "index_sound P T self'"
      using publish_ranges_sound [OF assms(2) ex(1)] by blast
    have "\<exists>res self2. block_index_persist_ranges store taken rows self = Some (res, self2) \<and> index_sound P T self2"
      using pub assms(2) by (simp add: block_index_persist_ranges_def)
    then obtain res self2 where persist: "block_index_persist_ranges store taken rows self = Some (res, self2)"
      "index_sound P T self2" by blast
    show ?thesis
      using Some scan persist assms(3) w(3) taken(2)
      by (auto simp: block_index_scan_once_def Let_def cursors_ok_def plan_def [symmetric] split: sum.splits option.splits)
  qed
qed

lemma index_rounds_sound:
  assumes "source_true P T get_rows next_block"
  shows "index_sound P T self \<Longrightarrow> cursors_ok cursors \<Longrightarrow> \<forall>r\<in>set rounds. slot_in_reach (snd r) \<Longrightarrow>
    \<exists>self' cursors'. index_rounds get_rows next_block rounds (self, cursors) = Some (self', cursors') \<and>
      index_sound P T self' \<and> cursors_ok cursors'"
proof (induction rounds arbitrary: self cursors)
  case (Cons r rounds)
  obtain store latest where r: "r = (store, latest)" by (cases r)
  from scan_once_sound [OF assms Cons.prems(1,2), of latest store] Cons.prems(3)
  obtain w self1 cursors1 where one: "block_index_scan_once get_rows next_block store latest (self, cursors) =
      Some (w, self1, cursors1)" "index_sound P T self1" "cursors_ok cursors1" by (auto simp: r)
  have "\<forall>r\<in>set rounds. slot_in_reach (snd r)" using Cons.prems(3) by simp
  from Cons.IH [OF one(2,3) this] one(1) show ?case by (simp add: r)
qed simp

lemma empty_index_sound: "index_sound P T (empty_index memory width)"
  by (simp add: index_sound_def index_ok_def empty_index_def hm_len_def hm_get_eq segments_true_def
      coverage_backed_def)

section \<open>Properties\<close>

text \<open>
  C2. The block-time index never answers wrongly: start from an empty index and run any number of
  worker rounds against a source that reports only existing blocks with their true parents (it may
  omit blocks, fail, or lag).  Every round returns, memory stays within the configured number of
  segments, a block-time lookup is either \<open>NotCovered\<close> or exactly the ledger's answer (the block's
  time, or \<open>Skipped\<close>), and a range lookup returns a proof of precisely the covered slots.
\<close>

theorem block_index_answers_exact:
  assumes "source_true P T get_rows next_block" "times_ok T" "\<forall>r\<in>set rounds. slot_in_reach (snd r)"
  shows "\<exists>self cursors.
    index_rounds get_rows next_block rounds
      (empty_index memory width, scan_cursors_seeded None) = Some (self, cursors) \<and>
    hm_len (bi_segments self) \<le> max_segments self \<and>
    (\<forall>s. block_index_block_time self s =
       (if coverage_map_contains (bi_coverage self) s then if s \<in> P then Found (T s) else Skipped
        else Not_covered)) \<and>
    (\<forall>start end. \<exists>c. block_index_range_coverage self start end = Some c \<and> proves P c \<and>
       covered c = {s \<in> {start..end}. coverage_map_contains (bi_coverage self) s})"
proof -
  have "cursors_ok (scan_cursors_seeded None)" by (simp add: cursors_ok_def scan_cursors_seeded_def)
  from index_rounds_sound [OF assms(1) empty_index_sound this assms(3)]
  obtain self cursors where run: "index_rounds get_rows next_block rounds
      (empty_index memory width, scan_cursors_seeded None) = Some (self, cursors)"
    and sound: "index_sound P T self" by blast
  have ok: "coverage_ok (bi_coverage self)" "hm_len (bi_segments self) \<le> max_segments self"
    using sound by (simp_all add: index_sound_def index_ok_def)
  have "\<exists>c. block_index_range_coverage self start end = Some c \<and> proves P c \<and>
       covered c = {s \<in> {start..end}. coverage_map_contains (bi_coverage self) s}" for start "end"
    using range_coverage_proves [OF sound, of start "end"]
    by (auto simp: coverage_contains_iff [OF ok(1)])
  then show ?thesis
    using run ok(2) block_time_exact [OF sound assms(2)] by (simp add: coverage_contains_iff [OF ok(1)])
qed

theorem block_index_answers_exact_witness:
  "let P = {0, 3}; T = (\<lambda>s. if s = 3 then Some 7 else None);
       row = (\<lambda>s p t. \<lparr>bt_slot = s, bt_parent_slot = p, bt_block_time = t\<rparr>);
       get_rows = (\<lambda>a b. Inr (filter (\<lambda>r. a \<le> bt_slot r \<and> bt_slot r \<le> b) [row 0 0 None, row 3 0 (Some 7)]));
       next_block = (\<lambda>e. Inr None);
       rounds = [(\<lambda>_ _. True, 5)]
   in source_true P T get_rows next_block \<and> times_ok T \<and>
      (\<exists>self cursors. index_rounds get_rows next_block rounds
         (empty_index 10000000 10, scan_cursors_seeded None) = Some (self, cursors) \<and>
         block_index_block_time self 3 = Found (Some 7) \<and> block_index_block_time self 1 = Skipped \<and>
         block_index_block_time self 5 = Not_covered)"
proof -
  let ?P = "{0, 3 :: nat}" and ?T = "\<lambda>s :: nat. if s = 3 then Some (7 :: int) else None"
  let ?row = "\<lambda>s p t. \<lparr>bt_slot = s, bt_parent_slot = p, bt_block_time = t\<rparr>"
  let ?rows = "\<lambda>a b. Inr (filter (\<lambda>r. a \<le> bt_slot r \<and> bt_slot r \<le> b) [?row 0 0 None, ?row 3 0 (Some 7)])
    :: disk_cache_error + block_time_row list"
  let ?next = "\<lambda>e :: nat. Inr None :: disk_cache_error + span option"
  let ?rounds = "[(\<lambda>_ _. True, 5 :: nat)] :: ((span list \<Rightarrow> block_time_row list \<Rightarrow> bool) \<times> nat) list"
  have src: "source_true ?P ?T ?rows ?next"
    by (auto simp: source_true_def rows_true_def link_holds_def)
  have times: "times_ok ?T" by (simp add: times_ok_def null_time_def)
  have reach: "\<forall>r\<in>set ?rounds. slot_in_reach (snd r)"
    by (simp add: slot_in_reach_def u64_max_def segment_slots_count_def)
  have run: "map_option (\<lambda>(self, _). map (coverage_map_contains (bi_coverage self)) [3, 1, 5])
      (index_rounds ?rows ?next ?rounds (empty_index 10000000 10, scan_cursors_seeded None)) =
      Some [True, True, False]" by code_simp
  obtain self cursors where st: "index_rounds ?rows ?next ?rounds
      (empty_index 10000000 10, scan_cursors_seeded None) = Some (self, cursors)"
    "\<forall>s. block_index_block_time self s =
       (if coverage_map_contains (bi_coverage self) s then if s \<in> ?P then Found (?T s) else Skipped
        else Not_covered)"
    using block_index_answers_exact [OF src times reach, of 10000000 10] by blast
  then have "coverage_map_contains (bi_coverage self) 3" "coverage_map_contains (bi_coverage self) 1"
    "\<not> coverage_map_contains (bi_coverage self) 5"
    using run by simp_all
  then have "block_index_block_time self 3 = Found (Some 7)" "block_index_block_time self 1 = Skipped"
    "block_index_block_time self 5 = Not_covered" using st(2) by simp_all
  then show ?thesis using src times st(1) unfolding Let_def by blast
qed

text \<open>
  C16. What rows and parent links prove: for links in ascending slot order that name existing blocks
  and true parents, the proven ranges are merged, lie in the window, contain every listed block of
  the window, and inside them a slot holds a block exactly when it is listed.
\<close>

theorem proven_ranges_sound:
  assumes "is_u64 end" "sorted_wrt (<) (map fst links)" "\<forall>l\<in>set links. link_holds P l"
  shows "spans_separated (proven_ranges start end links) \<and>
    spans_set (proven_ranges start end links) \<subseteq> {start..end} \<and>
    fst ` set links \<inter> {start..end} \<subseteq> spans_set (proven_ranges start end links) \<and>
    (\<forall>x\<in>spans_set (proven_ranges start end links). x \<in> P \<longleftrightarrow> x \<in> fst ` set links)"
  using proven_ranges_exact [OF assms] by blast

theorem proven_ranges_sound_witness:
  "proven_ranges 10 20 [(11, 9), (14, 11), (18, 16)] = [(10, 14), (17, 18)] \<and>
   spans_set (proven_ranges 10 20 [(11, 9), (14, 11), (18, 16)]) \<inter> {11, 14, 16, 18} =
   spans_set (proven_ranges 10 20 [(11, 9), (14, 11), (18, 16)]) \<inter> fst ` set [(11, 9 :: nat), (14, 11), (18, 16)]"
proof -
  have "is_u64 20" by (simp add: u64_simps u64_max_def)
  moreover have "\<forall>l\<in>set [(11, 9), (14, 11), (18, 16)]. link_holds {11, 14, 16, 18} l"
    by (simp add: link_holds_def)
  ultimately have "\<forall>x\<in>spans_set (proven_ranges 10 20 [(11, 9), (14, 11), (18, 16)]).
      x \<in> {11, 14, 16, 18} \<longleftrightarrow> x \<in> fst ` set [(11, 9 :: nat), (14, 11), (18, 16)]"
    using proven_ranges_sound [of 20 "[(11, 9), (14, 11), (18, 16)]" "{11, 14, 16, 18}" 10] by simp
  moreover have "proven_ranges 10 20 [(11, 9), (14, 11), (18, 16)] = [(10, 14), (17, 18)]" by code_simp
  ultimately show ?thesis by blast
qed

text \<open>
  C19. The forward cursor never overtakes an unsettled hole: \<open>plan_scan\<close> publishes a prefix of the proven
  ranges, and every slot it leaves behind is either published or at most \<open>settled\<close>.
\<close>

theorem plan_scan_never_skips:
  "let plan = plan_scan start end proven settled in
   (\<exists>rest. proven = sp_publish plan @ rest) \<and>
   (\<forall>x\<in>{start..<sp_next plan}. x \<in> spans_set (sp_publish plan) \<or> x \<le> settled)"
proof -
  obtain taken dropped where "proven = taken @ dropped" "sp_publish (plan_scan start end proven settled) = taken"
    "\<And>x. start \<le> x \<Longrightarrow> x < sp_next (plan_scan start end proven settled) \<Longrightarrow> x \<in> spans_set taken \<or> x \<le> settled"
    by (rule plan_scan_props [of proven start "end" settled]) blast
  then show ?thesis by (simp add: Let_def)
qed

theorem plan_scan_never_skips_witness:
  "plan_scan 10 30 [(10, 12), (15, 18), (25, 30)] 20 = \<lparr>sp_publish = [(10, 12), (15, 18)], sp_next = 19\<rparr> \<and>
   {10..<19} \<subseteq> spans_set [(10, 12), (15, 18)] \<union> {..20}"
proof -
  have "plan_scan 10 30 [(10, 12), (15, 18), (25, 30)] 20 = \<lparr>sp_publish = [(10, 12), (15, 18)], sp_next = 19\<rparr>"
    by code_simp
  then show ?thesis using plan_scan_never_skips [of 10 30 "[(10, 12), (15, 18), (25, 30)]" 20]
    unfolding Let_def by auto
qed

end
