(* ===== verification/Head_Coverage.thy ===== *)
theory Head_Coverage
  imports Slot_Coverage Rust_Collections
begin

text \<open>
  Range proofs of the in-memory head cache (\<^verbatim>\<open>src/crates/superbank-rpc/src/head_cache/coverage.rs\<close>).
  A subscription generation keeps one node per slot, three tips (one per commitment level) and walks
  the stored parent links from a tip to prove which slots of a range hold a block.  The walk is a
  \<open>while\<close> loop over stored data, so it is a \<open>partial_function\<close>; that it returns follows from the
  invariant \<open>head_ok\<close>.  Blockhashes are byte strings and instants nanosecond counts.
\<close>

section \<open>Commitment levels\<close>

type_synonym hash = "nat list"
type_synonym instant = nat

datatype commitment_level = Processed | Confirmed | Finalized

fun rank :: "commitment_level \<Rightarrow> nat" where
  "rank Processed = 0"
| "rank Confirmed = 1"
| "rank Finalized = 2"

text \<open>The order \<open>commitment_meets\<close> of \<open>head_cache/mod.rs\<close> is the linear order of the levels.\<close>

instantiation commitment_level :: linorder
begin

definition less_eq_commitment_level :: "commitment_level \<Rightarrow> commitment_level \<Rightarrow> bool" where
  "less_eq_commitment_level a b \<longleftrightarrow> rank a \<le> rank b"

definition less_commitment_level :: "commitment_level \<Rightarrow> commitment_level \<Rightarrow> bool" where
  "less_commitment_level a b \<longleftrightarrow> rank a < rank b"

instance
proof
  fix a b :: commitment_level
  show "a \<le> b \<Longrightarrow> b \<le> a \<Longrightarrow> a = b"
    by (cases a; cases b) (simp_all add: less_eq_commitment_level_def)
qed (auto simp: less_eq_commitment_level_def less_commitment_level_def)

end

definition commitment_meets :: "commitment_level \<Rightarrow> commitment_level \<Rightarrow> bool" where
  "commitment_meets have want \<longleftrightarrow> rank want \<le> rank have"

section \<open>State\<close>

record link =
  lk_slot :: slot
  lk_hash :: hash
  lk_parent :: slot
  lk_parent_hash :: hash

record node =
  nd_link :: "link option"
  nd_commitment :: "commitment_level option"
  nd_invalid :: bool

record tip =
  tip_slot :: slot
  tip_advanced :: instant

record head_coverage =
  hc_connected :: bool
  hc_nodes :: "(slot, node) btree"
  hc_tips :: "tip option list"
  hc_highest :: slot

definition node_default :: node where
  "node_default = \<lparr>nd_link = None, nd_commitment = None, nd_invalid = False\<rparr>"

definition head_coverage_default :: head_coverage where
  "head_coverage_default =
     \<lparr>hc_connected = False, hc_nodes = [], hc_tips = [None, None, None], hc_highest = 0\<rparr>"

definition tip_max_age :: instant where
  "tip_max_age = 1000000000"

text \<open>\<open>entry(k).or_default()\<close> and \<open>get(k).and_then(|node| node.link)\<close>.\<close>

definition node_or_default :: "(slot, node) btree \<Rightarrow> slot \<Rightarrow> node" where
  "node_or_default nodes s = (case bt_get nodes s of Some n \<Rightarrow> n | None \<Rightarrow> node_default)"

definition stored_link :: "(slot, node) btree \<Rightarrow> slot \<Rightarrow> link option" where
  "stored_link nodes s = (case bt_get nodes s of Some n \<Rightarrow> nd_link n | None \<Rightarrow> None)"

section \<open>Operations\<close>

definition head_coverage_connect :: "head_coverage \<Rightarrow> head_coverage" where
  "head_coverage_connect self = head_coverage_default\<lparr>hc_connected := True\<rparr>"

definition head_coverage_disconnect :: "head_coverage \<Rightarrow> head_coverage" where
  "head_coverage_disconnect self = head_coverage_default"

definition head_coverage_invalidate :: "slot \<Rightarrow> head_coverage \<Rightarrow> head_coverage" where
  "head_coverage_invalidate s self =
     self\<lparr>hc_nodes :=
       bt_insert s ((node_or_default (hc_nodes self) s)\<lparr>nd_invalid := True\<rparr>) (hc_nodes self)\<rparr>"

fun invalidate_loop ::
  "(slot, node) btree \<Rightarrow> (slot, hash option) btree \<Rightarrow> (slot, node) btree" where
  "invalidate_loop [] invalid = []"
| "invalidate_loop ((s, nd) # rest) invalid =
     (case nd_link nd of
        None \<Rightarrow> (s, nd) # invalidate_loop rest invalid
      | Some link \<Rightarrow>
          (case bt_get invalid (lk_parent link) of
             None \<Rightarrow> (s, nd) # invalidate_loop rest invalid
           | Some old_hash \<Rightarrow>
               if old_hash = None \<or> old_hash = Some (lk_parent_hash link)
               then (s, nd\<lparr>nd_invalid := True\<rparr>) #
                    invalidate_loop rest (bt_insert s (Some (lk_hash link)) invalid)
               else (s, nd) # invalidate_loop rest invalid))"

definition head_coverage_invalidate_branch :: "slot \<Rightarrow> head_coverage \<Rightarrow> head_coverage" where
  "head_coverage_invalidate_branch s self =
     (let old_hash = map_option lk_hash (stored_link (hc_nodes self) s);
          self' = head_coverage_invalidate s self
      in self'\<lparr>hc_nodes := bt_below s (hc_nodes self') @
                         invalidate_loop (bt_from s (hc_nodes self')) [(s, old_hash)]\<rparr>)"

definition head_coverage_select_bank :: "link \<Rightarrow> head_coverage \<Rightarrow> head_coverage" where
  "head_coverage_select_bank link self =
     (let self' =
        (case stored_link (hc_nodes self) (lk_slot link) of
           Some old \<Rightarrow>
             if old \<noteq> link then head_coverage_invalidate_branch (lk_slot link) self else self
         | None \<Rightarrow> self)
      in self'\<lparr>hc_nodes := bt_insert (lk_slot link) (node_default\<lparr>nd_link := Some link\<rparr>) (hc_nodes self')\<rparr>)"

definition head_coverage_validate_parent ::
  "slot \<Rightarrow> slot option \<Rightarrow> head_coverage \<Rightarrow> head_coverage" where
  "head_coverage_validate_parent s parent self =
     (case (stored_link (hc_nodes self) s, parent) of
        (Some link, Some p) \<Rightarrow>
          if p \<noteq> lk_parent link then head_coverage_invalidate_branch s self else self
      | _ \<Rightarrow> self)"

definition observe_tip :: "slot \<Rightarrow> instant \<Rightarrow> tip option \<Rightarrow> tip option" where
  "observe_tip s now t =
     (case t of
        Some old \<Rightarrow> if tip_slot old < s then Some \<lparr>tip_slot = s, tip_advanced = now\<rparr> else t
      | None \<Rightarrow> Some \<lparr>tip_slot = s, tip_advanced = now\<rparr>)"

definition head_coverage_observe ::
  "slot \<Rightarrow> commitment_level \<Rightarrow> instant \<Rightarrow> head_coverage \<Rightarrow> head_coverage" where
  "head_coverage_observe s commitment now self =
     self\<lparr>hc_tips := map (observe_tip s now) (take (Suc (rank commitment)) (hc_tips self)) @
                      drop (Suc (rank commitment)) (hc_tips self)\<rparr>"

definition head_coverage_publish :: "slot \<Rightarrow> commitment_level \<Rightarrow> head_coverage \<Rightarrow> head_coverage" where
  "head_coverage_publish s commitment self =
     (let nd = node_or_default (hc_nodes self) s;
          nd' = (if (case nd_commitment nd of None \<Rightarrow> True | Some old \<Rightarrow> commitment_meets commitment old)
                 then nd\<lparr>nd_commitment := Some commitment\<rparr> else nd)
      in self\<lparr>hc_nodes := bt_insert s nd' (hc_nodes self)\<rparr>)"

definition head_coverage_retain :: "slot \<Rightarrow> nat \<Rightarrow> head_coverage \<Rightarrow> head_coverage" where
  "head_coverage_retain s retain self =
     (let highest = max (hc_highest self) s;
          floor = sat_sub highest (sat_sub retain 1)
      in self\<lparr>hc_highest := highest, hc_nodes := bt_from floor (hc_nodes self)\<rparr>)"

section \<open>The parent walk\<close>

definition head_coverage_link :: "head_coverage \<Rightarrow> slot \<Rightarrow> commitment_level \<Rightarrow> link option" where
  "head_coverage_link self s commitment =
     (case bt_get (hc_nodes self) s of
        None \<Rightarrow> None
      | Some nd \<Rightarrow>
          if nd_invalid nd then None
          else (case nd_commitment nd of
                  None \<Rightarrow> None
                | Some have \<Rightarrow> if commitment_meets have commitment then nd_link nd else None))"

definition parent_conflicts :: "head_coverage \<Rightarrow> link \<Rightarrow> bool" where
  "parent_conflicts self link =
     (case bt_get (hc_nodes self) (lk_parent link) of
        None \<Rightarrow> False
      | Some nd \<Rightarrow>
          nd_invalid nd \<or>
          (case nd_link nd of None \<Rightarrow> False | Some parent \<Rightarrow> lk_hash parent \<noteq> lk_parent_hash link))"

partial_function (option) chain_loop ::
  "head_coverage \<Rightarrow> commitment_level \<Rightarrow> link option \<Rightarrow> link list \<Rightarrow> link list option" where
  [code]: "chain_loop self commitment current chain =
     (case current of
        None \<Rightarrow> Some chain
      | Some link \<Rightarrow>
          if lk_slot link = 0 then
            (if lk_parent link \<noteq> 0 then Some [] else Some (chain @ [link]))
          else if lk_slot link \<le> lk_parent link then Some []
          else if parent_conflicts self link then Some []
          else chain_loop self commitment
                 (head_coverage_link self (lk_parent link) commitment) (chain @ [link]))"

definition head_coverage_chain :: "head_coverage \<Rightarrow> slot \<Rightarrow> commitment_level \<Rightarrow> link list option" where
  "head_coverage_chain self t commitment =
     chain_loop self commitment (head_coverage_link self t commitment) []"

definition chain_coverage :: "link list \<Rightarrow> slot \<Rightarrow> slot \<Rightarrow> slot_coverage" where
  "chain_coverage chain start end =
     (case chain of
        [] \<Rightarrow> slot_coverage_default
      | first # _ \<Rightarrow>
          let floor = max start (lk_slot (last chain));
              ceiling = min end (lk_slot first)
          in if ceiling < floor then slot_coverage_default
             else slot_coverage_new
               (filter (\<lambda>s. floor \<le> s \<and> s \<le> ceiling) (map lk_slot (rev chain))) floor ceiling)"

datatype tip_error = Untrusted_tip | Commitment_unavailable

text \<open>
  The outer \<open>option\<close> of the functions below is the walk not returning; a \<open>Result\<close> of the sources is
  the sum type inside it.
\<close>

definition trusted_chain ::
  "head_coverage \<Rightarrow> commitment_level \<Rightarrow> instant \<Rightarrow> (tip_error + slot \<times> link list) option" where
  "trusted_chain self commitment now =
     (if \<not> hc_connected self then Some (Inl Untrusted_tip)
      else
        case hc_tips self ! rank commitment of
          None \<Rightarrow> Some (Inl Commitment_unavailable)
        | Some tip \<Rightarrow>
            if tip_max_age < sat_sub now (tip_advanced tip) then Some (Inl Untrusted_tip)
            else
              map_option (\<lambda>chain.
                let rooted = (case chain of [] \<Rightarrow> False | link # _ \<Rightarrow> lk_slot link = 0)
                in if length chain < 2 \<and> \<not> rooted then Inl Untrusted_tip
                   else Inr (tip_slot tip, chain))
                (head_coverage_chain self (tip_slot tip) commitment))"

definition historical_coverage ::
  "head_coverage \<Rightarrow> slot \<Rightarrow> slot \<Rightarrow> commitment_level \<Rightarrow> slot_coverage option" where
  "historical_coverage self start end commitment =
     (if \<not> hc_connected self then Some slot_coverage_default
      else
        case hc_tips self ! rank commitment of
          None \<Rightarrow> Some slot_coverage_default
        | Some tip \<Rightarrow>
            map_option (\<lambda>chain. chain_coverage chain start end)
              (head_coverage_chain self (tip_slot tip) commitment))"

definition head_coverage_snapshot ::
  "head_coverage \<Rightarrow> slot \<Rightarrow> slot option \<Rightarrow> commitment_level \<Rightarrow> instant \<Rightarrow>
   (tip_error + slot \<times> slot_coverage) option" where
  "head_coverage_snapshot self start end commitment now =
     (case end of
        None \<Rightarrow>
          map_option (\<lambda>r. case r of
              Inl e \<Rightarrow> Inl e
            | Inr (tip, chain) \<Rightarrow> Inr (tip, chain_coverage chain start tip))
            (trusted_chain self commitment now)
      | Some e \<Rightarrow>
          map_option (\<lambda>c. Inr (e, c)) (historical_coverage self start e commitment))"

definition head_coverage_snapshot_clamped ::
  "head_coverage \<Rightarrow> slot \<Rightarrow> slot \<Rightarrow> commitment_level \<Rightarrow> instant \<Rightarrow>
   (slot \<times> slot_coverage \<times> bool) option" where
  "head_coverage_snapshot_clamped self start end commitment now =
     (case trusted_chain self commitment now of
        None \<Rightarrow> None
      | Some (Inr (tip, chain)) \<Rightarrow>
          Some (min end tip, chain_coverage chain start (min end tip), tip < end)
      | Some (Inl _) \<Rightarrow>
          map_option (\<lambda>c. (end, c, False)) (historical_coverage self start end commitment))"

section \<open>Specification\<close>

text \<open>A node is filed under the slot of its link, and a lower commitment never lags a higher one.\<close>

definition nodes_ok :: "(slot, node) btree \<Rightarrow> bool" where
  "nodes_ok nodes \<longleftrightarrow>
     bt_ok nodes \<and> (\<forall>s l. stored_link nodes s = Some l \<longrightarrow> lk_slot l = s)"

definition tip_le :: "tip option \<Rightarrow> tip option \<Rightarrow> bool" where
  "tip_le a b \<longleftrightarrow>
     (case a of None \<Rightarrow> True
      | Some t \<Rightarrow> (case b of None \<Rightarrow> False | Some u \<Rightarrow> tip_slot t \<le> tip_slot u))"

definition tips_ok :: "tip option list \<Rightarrow> bool" where
  "tips_ok tips \<longleftrightarrow> (\<exists>a b c. tips = [a, b, c] \<and> tip_le b a \<and> tip_le c b)"

definition head_ok :: "head_coverage \<Rightarrow> bool" where
  "head_ok self \<longleftrightarrow> nodes_ok (hc_nodes self) \<and> tips_ok (hc_tips self)"

text \<open>
  The ledger the links talk about: a blockhash identifies a block, given by its slot, its parent's
  slot and its parent's blockhash.  Genesis is its own parent, any other block has a lower parent,
  and the parent hash of a block names a block at the parent slot.
\<close>

type_synonym ledger = "hash \<Rightarrow> (slot \<times> slot \<times> hash) option"

definition ledger_ok :: "ledger \<Rightarrow> bool" where
  "ledger_ok L \<longleftrightarrow>
     (\<forall>h s p ph. L h = Some (s, p, ph) \<longrightarrow>
        (if s = 0 then p = 0 else p < s) \<and> (\<forall>s' p' ph'. L ph = Some (s', p', ph') \<longrightarrow> s' = p))"

definition link_true :: "ledger \<Rightarrow> link \<Rightarrow> bool" where
  "link_true L l \<longleftrightarrow> L (lk_hash l) = Some (lk_slot l, lk_parent l, lk_parent_hash l)"

definition links_true :: "ledger \<Rightarrow> head_coverage \<Rightarrow> bool" where
  "links_true L self \<longleftrightarrow> (\<forall>s l. stored_link (hc_nodes self) s = Some l \<longrightarrow> link_true L l)"

inductive ancestor :: "ledger \<Rightarrow> hash \<Rightarrow> hash \<Rightarrow> bool" for L h where
  ancestor_self: "ancestor L h h"
| ancestor_step: "ancestor L h x \<Longrightarrow> L x = Some (s, p, ph) \<Longrightarrow> 0 < s \<Longrightarrow> ancestor L h ph"

text \<open>The slots that hold a block on the chain ending at the block \<open>h\<close>.\<close>

definition fork_slots :: "ledger \<Rightarrow> hash \<Rightarrow> slot set" where
  "fork_slots L h = {s. \<exists>x p ph. ancestor L h x \<and> L x = Some (s, p, ph)}"

fun chain_linked :: "link list \<Rightarrow> bool" where
  "chain_linked (l # l' # ls) \<longleftrightarrow>
     lk_parent l = lk_slot l' \<and> lk_parent_hash l = lk_hash l' \<and> lk_slot l' < lk_slot l \<and>
     chain_linked (l' # ls)"
| "chain_linked _ \<longleftrightarrow> True"

text \<open>The stored descendants of a bank: by parent slot and parent hash.\<close>

inductive descends :: "(slot, node) btree \<Rightarrow> slot \<Rightarrow> hash option \<Rightarrow> slot \<Rightarrow> bool" for nodes s h where
  descends_child: "stored_link nodes c = Some l \<Longrightarrow> lk_parent l = s \<Longrightarrow>
    h = None \<or> h = Some (lk_parent_hash l) \<Longrightarrow> descends nodes s h c"
| descends_step: "descends nodes s h b \<Longrightarrow> stored_link nodes b = Some l \<Longrightarrow>
    stored_link nodes c = Some l' \<Longrightarrow> lk_parent l' = b \<Longrightarrow> lk_parent_hash l' = lk_hash l \<Longrightarrow>
    descends nodes s h c"

datatype head_op =
    Connect
  | Disconnect
  | Select_bank link
  | Invalidate_branch slot
  | Validate_parent slot "slot option"
  | Observe slot commitment_level instant
  | Publish slot commitment_level
  | Invalidate slot
  | Retain slot nat

fun head_apply :: "head_coverage \<Rightarrow> head_op \<Rightarrow> head_coverage" where
  "head_apply self Connect = head_coverage_connect self"
| "head_apply self Disconnect = head_coverage_disconnect self"
| "head_apply self (Select_bank l) = head_coverage_select_bank l self"
| "head_apply self (Invalidate_branch s) = head_coverage_invalidate_branch s self"
| "head_apply self (Validate_parent s p) = head_coverage_validate_parent s p self"
| "head_apply self (Observe s c now) = head_coverage_observe s c now self"
| "head_apply self (Publish s c) = head_coverage_publish s c self"
| "head_apply self (Invalidate s) = head_coverage_invalidate s self"
| "head_apply self (Retain s r) = head_coverage_retain s r self"

fun head_op_true :: "ledger \<Rightarrow> head_op \<Rightarrow> bool" where
  "head_op_true L (Select_bank l) \<longleftrightarrow> link_true L l"
| "head_op_true L _ \<longleftrightarrow> True"

section \<open>Stored links under the operations\<close>

lemma stored_link_insert:
  "bt_ok nodes \<Longrightarrow> stored_link (bt_insert s nd nodes) = (stored_link nodes)(s := nd_link nd)"
  by (rule ext) (simp add: stored_link_def bt.get_put)

lemma nd_link_or_default: "nd_link (node_or_default nodes s) = stored_link nodes s"
  by (simp add: node_or_default_def stored_link_def node_default_def split: option.split)

lemma map_fst_invalidate_loop: "map fst (invalidate_loop m ivd) = map fst m"
  by (induction m ivd rule: invalidate_loop.induct) (simp_all split: option.split)

lemma stored_link_invalidate_loop: "stored_link (invalidate_loop m ivd) = stored_link m"
proof (induction m ivd rule: invalidate_loop.induct)
  case (2 s nd rest ivd)
  have "stored_link ((s, n) # r) c = (if c = s then nd_link n else stored_link r c)" for n r c
    by (simp add: stored_link_def bt_get_def)
  then show ?case using 2 by (simp add: fun_eq_iff split: option.split)
qed simp

lemma below_from_append:
  "bt_ok m \<Longrightarrow> m = bt_below k m @ bt_from k m"
proof (induction m)
  case (Cons p m)
  show ?case
  proof (cases "fst p < k")
    case True
    then show ?thesis using Cons by (simp add: bt_below_def bt_from_def bt_ok_Cons)
  next
    case False
    then have "\<forall>q\<in>set (p # m). k \<le> fst q" using Cons.prems by (force simp: bt_ok_Cons)
    then show ?thesis by (simp add: bt_below_def bt_from_def filter_empty_conv filter_id_conv not_less)
  qed
qed (simp add: bt_below_def bt_from_def)

lemma stored_link_append:
  "stored_link (m @ m') c = (if c \<in> fst ` set m then stored_link m c else stored_link m' c)"
proof (cases "map_of m c")
  case None
  then have "c \<notin> fst ` set m" by (simp add: map_of_eq_None_iff)
  then show ?thesis using None by (simp add: stored_link_def bt_get_def map_add_def)
next
  case (Some nd)
  then have "c \<in> fst ` set m" by (metis map_of_eq_None_iff option.distinct(1))
  then show ?thesis using Some by (simp add: stored_link_def bt_get_def)
qed

lemma invalidate_stored_link: "bt_ok (hc_nodes self) \<Longrightarrow>
    stored_link (hc_nodes (head_coverage_invalidate s self)) = stored_link (hc_nodes self)"
  by (simp add: head_coverage_invalidate_def stored_link_insert nd_link_or_default fun_upd_idem)

lemma invalidate_branch_nodes:
  assumes "bt_ok (hc_nodes self)"
  shows "bt_ok (hc_nodes (head_coverage_invalidate_branch s self))"
    and "stored_link (hc_nodes (head_coverage_invalidate_branch s self)) = stored_link (hc_nodes self)"
proof -
  let ?m = "hc_nodes (head_coverage_invalidate s self)"
  let ?h = "map_option lk_hash (stored_link (hc_nodes self) s)"
  have ok: "bt_ok ?m" using assms by (simp add: head_coverage_invalidate_def)
  have nodes: "hc_nodes (head_coverage_invalidate_branch s self) =
      bt_below s ?m @ invalidate_loop (bt_from s ?m) [(s, ?h)]"
    by (simp add: head_coverage_invalidate_branch_def Let_def)
  have "map fst (bt_below s ?m @ invalidate_loop (bt_from s ?m) [(s, ?h)]) = map fst ?m"
    using below_from_append [OF ok, of s] by (metis map_append map_fst_invalidate_loop)
  then show "bt_ok (hc_nodes (head_coverage_invalidate_branch s self))"
    using ok by (simp add: nodes bt_ok_def)
  have "stored_link (bt_below s ?m @ invalidate_loop (bt_from s ?m) [(s, ?h)]) c = stored_link ?m c" for c
    by (subst (3) below_from_append [OF ok, of s]) (simp add: stored_link_append stored_link_invalidate_loop)
  then show "stored_link (hc_nodes (head_coverage_invalidate_branch s self)) = stored_link (hc_nodes self)"
    by (simp add: nodes fun_eq_iff invalidate_stored_link [OF assms])
qed

lemmas head_op_defs =
  head_coverage_connect_def head_coverage_disconnect_def head_coverage_default_def
  head_coverage_observe_def head_coverage_publish_def head_coverage_retain_def

lemma nodes_ok_insert:
  "nodes_ok nodes \<Longrightarrow> (\<And>l. nd_link nd = Some l \<Longrightarrow> lk_slot l = s) \<Longrightarrow> nodes_ok (bt_insert s nd nodes)"
  by (simp add: nodes_ok_def stored_link_insert)

lemma stored_link_from: "stored_link (bt_from k nodes) s = (if k \<le> s then stored_link nodes s else None)"
  by (simp add: stored_link_def bt_from_def bt_get_def map_of_filter_key [of "\<lambda>x. k \<le> x"])

lemma hc_tips_invalidate [simp]:
  "hc_tips (head_coverage_invalidate s self) = hc_tips self"
  "hc_tips (head_coverage_invalidate_branch s self) = hc_tips self"
  by (simp_all add: head_coverage_invalidate_branch_def head_coverage_invalidate_def Let_def)

lemma nodes_ok_invalidate_branch:
  "nodes_ok (hc_nodes self) \<Longrightarrow> nodes_ok (hc_nodes (head_coverage_invalidate_branch s self))"
  by (simp add: nodes_ok_def invalidate_branch_nodes)

lemma tip_le_observe: "tip_le b a \<Longrightarrow> tip_le (observe_tip s now b) (observe_tip s now a)"
  "tip_le b a \<Longrightarrow> tip_le b (observe_tip s now a)"
  by (auto simp: tip_le_def observe_tip_def split: option.splits if_splits)

lemma tips_ok_observe: "tips_ok (hc_tips self) \<Longrightarrow> tips_ok (hc_tips (head_coverage_observe s c now self))"
  by (cases c) (auto simp: tips_ok_def head_coverage_observe_def tip_le_observe numeral_2_eq_2)

lemma head_ok_apply: "head_ok self \<Longrightarrow> head_ok (head_apply self x)"
proof (cases x)
  case (Select_bank l)
  assume "head_ok self"
  then show ?thesis unfolding Select_bank
    by (auto simp: head_ok_def head_coverage_select_bank_def Let_def node_default_def
        intro!: nodes_ok_insert nodes_ok_invalidate_branch split: option.split)
next
  case (Validate_parent s p)
  assume "head_ok self"
  then show ?thesis unfolding Validate_parent
    by (auto simp: head_ok_def head_coverage_validate_parent_def nodes_ok_invalidate_branch
        split: option.split)
next
  case (Publish s c)
  assume "head_ok self"
  then show ?thesis unfolding Publish
    by (auto simp: head_ok_def head_coverage_publish_def Let_def nd_link_or_default nodes_ok_def [of "hc_nodes self"]
        intro!: nodes_ok_insert)
next
  case (Invalidate s)
  assume "head_ok self"
  then show ?thesis unfolding Invalidate
    by (auto simp: head_ok_def head_coverage_invalidate_def nd_link_or_default nodes_ok_def [of "hc_nodes self"]
        intro!: nodes_ok_insert)
next
  case (Observe s c now)
  assume "head_ok self"
  then show ?thesis unfolding Observe
    by (simp add: head_ok_def tips_ok_observe) (simp add: head_coverage_observe_def)
next
  case (Retain s r)
  assume "head_ok self"
  then show ?thesis unfolding Retain
    by (auto simp: head_ok_def head_coverage_retain_def Let_def nodes_ok_def stored_link_from
        split: if_splits)
next
  case (Invalidate_branch s)
  assume "head_ok self"
  then show ?thesis unfolding Invalidate_branch
    by (simp add: head_ok_def nodes_ok_invalidate_branch)
qed (simp_all add: head_ok_def head_op_defs nodes_ok_def stored_link_def bt_get_def tips_ok_def tip_le_def)

lemma stored_link_apply:
  assumes "bt_ok (hc_nodes self)" "stored_link (hc_nodes (head_apply self x)) s = Some l"
  shows "stored_link (hc_nodes self) s = Some l \<or> x = Select_bank l"
proof (cases x)
  case (Select_bank l')
  have "bt_ok (hc_nodes (head_coverage_invalidate_branch (lk_slot l') self))"
    using assms(1) by (rule invalidate_branch_nodes)
  then show ?thesis using assms unfolding Select_bank
    by (auto simp: head_coverage_select_bank_def Let_def stored_link_insert invalidate_branch_nodes
        node_default_def split: option.splits if_splits)
next
  case (Validate_parent s p)
  then show ?thesis using assms
    by (auto simp: head_coverage_validate_parent_def invalidate_branch_nodes split: option.splits if_splits)
next
  case (Publish s c)
  then show ?thesis using assms
    by (auto simp: head_coverage_publish_def Let_def stored_link_insert nd_link_or_default split: if_splits)
next
  case (Retain s r)
  then show ?thesis using assms
    by (auto simp: head_coverage_retain_def Let_def stored_link_from split: if_splits)
qed (use assms in \<open>auto simp: head_coverage_observe_def head_coverage_connect_def head_coverage_disconnect_def
      head_coverage_default_def invalidate_stored_link invalidate_branch_nodes stored_link_def [of "[]"] bt_get_def\<close>)

lemma head_ok_run: "head_ok self \<Longrightarrow> head_ok (foldl head_apply self ops)"
  by (induction ops arbitrary: self) (simp_all add: head_ok_apply)

text \<open>Every history of the cache keeps the invariant, and its links are true if the banks fed in are.\<close>

lemma head_run_invariant:
  "head_ok self \<Longrightarrow> links_true L self \<Longrightarrow> list_all (head_op_true L) ops \<Longrightarrow>
     head_ok (foldl head_apply self ops) \<and> links_true L (foldl head_apply self ops)"
proof (induction ops arbitrary: self)
  case (Cons x ops)
  have "links_true L (head_apply self x)"
    unfolding links_true_def
  proof (intro allI impI)
    fix s l assume "stored_link (hc_nodes (head_apply self x)) s = Some l"
    then have "stored_link (hc_nodes self) s = Some l \<or> x = Select_bank l"
      using Cons.prems(1) by (intro stored_link_apply) (simp_all add: head_ok_def nodes_ok_def)
    then show "link_true L l" using Cons.prems(2,3) by (auto simp: links_true_def)
  qed
  then show ?case using Cons.IH [OF head_ok_apply [OF Cons.prems(1)]] Cons.prems(3) by simp
qed simp

lemma head_ok_default: "head_ok head_coverage_default" "links_true L head_coverage_default"
  by (simp_all add: head_ok_def head_coverage_default_def nodes_ok_def stored_link_def bt_get_def
      tips_ok_def tip_le_def links_true_def)

section \<open>The walk returns and is hash-linked\<close>

lemma head_coverage_linkD:
  assumes "head_coverage_link self s c = Some l"
  obtains nd got where "bt_get (hc_nodes self) s = Some nd" "nd_link nd = Some l" "\<not> nd_invalid nd"
    "nd_commitment nd = Some got" "commitment_meets got c" "stored_link (hc_nodes self) s = Some l"
  using assms by (auto simp: head_coverage_link_def stored_link_def split: option.splits if_splits)

lemma chain_loop_None: "chain_loop self c None acc = Some acc"
  by (subst chain_loop.simps) simp

lemma chain_loop_Some:
  "chain_loop self c (Some l) acc =
     (if lk_slot l = 0 then (if lk_parent l \<noteq> 0 then Some [] else Some (acc @ [l]))
      else if lk_slot l \<le> lk_parent l \<or> parent_conflicts self l then Some []
      else chain_loop self c (head_coverage_link self (lk_parent l) c) (acc @ [l]))"
  by (subst chain_loop.simps) simp

lemma chain_loop_returns:
  assumes "nodes_ok (hc_nodes self)" "current = head_coverage_link self s c"
  shows "\<exists>r. chain_loop self c current acc = Some r \<and>
    (r = [] \<or> (\<exists>rest. r = acc @ rest \<and> chain_linked rest \<and>
       (\<forall>l\<in>set rest. head_coverage_link self (lk_slot l) c = Some l) \<and>
       (rest = [] \<longleftrightarrow> current = None) \<and> (rest \<noteq> [] \<longrightarrow> current = Some (hd rest) \<and> lk_slot (hd rest) = s)))"
  using assms(2)
proof (induction s arbitrary: current acc rule: less_induct)
  case (less s)
  show ?case
  proof (cases current)
    case None
    then show ?thesis by (simp add: chain_loop_None)
  next
    case (Some l)
    have l: "head_coverage_link self s c = Some l" using less.prems Some by simp
    then have slot: "lk_slot l = s"
      using assms(1) by (auto simp: nodes_ok_def elim: head_coverage_linkD)
    let ?next = "head_coverage_link self (lk_parent l) c"
    show ?thesis
    proof (cases "s = 0 \<or> s \<le> lk_parent l \<or> parent_conflicts self l")
      case True
      show ?thesis
      proof (cases "s = 0 \<and> lk_parent l = 0")
        case root: True
        then have "chain_loop self c current acc = Some (acc @ [l])"
          using Some slot by (simp add: chain_loop_Some)
        then show ?thesis using Some slot l by (intro exI [of _ "acc @ [l]"]) simp
      next
        case False
        then have "chain_loop self c current acc = Some []"
          using True Some slot by (auto simp: chain_loop_Some)
        then show ?thesis by blast
      qed
    next
      case False
      then obtain r where r: "chain_loop self c ?next (acc @ [l]) = Some r" and
        rest: "r = [] \<or> (\<exists>rest. r = (acc @ [l]) @ rest \<and> chain_linked rest \<and>
          (\<forall>l\<in>set rest. head_coverage_link self (lk_slot l) c = Some l) \<and>
          (rest = [] \<longleftrightarrow> ?next = None) \<and>
          (rest \<noteq> [] \<longrightarrow> ?next = Some (hd rest) \<and> lk_slot (hd rest) = lk_parent l))"
        using less.IH [of "lk_parent l" ?next "acc @ [l]"] by auto
      have "lk_parent_hash l = lk_hash l'" if "?next = Some l'" for l'
        using that False by (auto simp: parent_conflicts_def elim!: head_coverage_linkD)
      then have cons: "chain_linked (l # rest')" if "chain_linked rest'"
        "rest' \<noteq> [] \<longrightarrow> ?next = Some (hd rest') \<and> lk_slot (hd rest') = lk_parent l" for rest'
        using that False slot by (cases rest') auto
      then have "r = [] \<or> (\<exists>rest'. r = acc @ rest' \<and> chain_linked rest' \<and>
         (\<forall>l\<in>set rest'. head_coverage_link self (lk_slot l) c = Some l) \<and>
         (rest' = [] \<longleftrightarrow> current = None) \<and> (rest' \<noteq> [] \<longrightarrow> current = Some (hd rest') \<and> lk_slot (hd rest') = s))"
      proof (cases "r = []")
        case False
        then obtain rest where "r = (acc @ [l]) @ rest" "chain_linked (l # rest)"
          "\<forall>l\<in>set rest. head_coverage_link self (lk_slot l) c = Some l"
          using rest cons by blast
        then show ?thesis using Some l slot by (intro disjI2 exI [of _ "l # rest"]) simp
      qed simp
      moreover have "chain_loop self c current acc = Some r"
        using r Some False slot by (simp add: chain_loop_Some)
      ultimately show ?thesis by blast
    qed
  qed
qed

lemma chain_returns:
  assumes "head_ok self"
  obtains r where "head_coverage_chain self t c = Some r" "chain_linked r"
    "\<And>l. l \<in> set r \<Longrightarrow> head_coverage_link self (lk_slot l) c = Some l"
    "r \<noteq> [] \<Longrightarrow> head_coverage_link self t c = Some (hd r) \<and> lk_slot (hd r) = t"
  using chain_loop_returns [of self "head_coverage_link self t c" t c "[]"] assms
  unfolding head_ok_def head_coverage_chain_def by force

section \<open>What the walk proves\<close>

lemma chain_linked_sorted: "chain_linked ls \<Longrightarrow> sorted_wrt (<) (map lk_slot (rev ls))"
proof (induction ls rule: chain_linked.induct)
  case (1 l l' ls)
  then have "\<forall>x\<in>set (l' # ls). lk_slot x \<le> lk_slot l'" by (auto simp: sorted_wrt_append)
  then show ?case using 1 by (fastforce simp: sorted_wrt_append)
qed simp_all

lemma chain_linked_ancestors:
  assumes "ledger_ok L" "chain_linked ls" "\<forall>l\<in>set ls. link_true L l" "ls \<noteq> []"
  shows "\<forall>l\<in>set ls. ancestor L (lk_hash (hd ls)) (lk_hash l)"
    and "ancestor L (lk_hash (hd ls)) x \<Longrightarrow> L x = Some (s, p, ph) \<Longrightarrow>
           (\<exists>l\<in>set ls. lk_hash l = x) \<or> s < lk_slot (last ls)"
proof -
  have climb: "ancestor L h x" if "ancestor L ph x" "L h = Some (s, p, ph)" "0 < s" for h ph x s p
    using that by (induction rule: ancestor.induct) (auto intro: ancestor.intros)
  show "\<forall>l\<in>set ls. ancestor L (lk_hash (hd ls)) (lk_hash l)"
    using assms(2-4)
  proof (induction ls rule: chain_linked.induct)
    case (1 l l' ls)
    then have "\<forall>x\<in>set (l' # ls). ancestor L (lk_hash l') (lk_hash x)" by simp
    moreover have "L (lk_hash l) = Some (lk_slot l, lk_parent l, lk_hash l')" "0 < lk_slot l"
      using 1(2,3) by (auto simp: link_true_def)
    ultimately show ?case using climb by (auto intro: ancestor.intros)
  qed (auto intro: ancestor.intros)
  have next_link: "l = last ls \<or> (\<exists>l'\<in>set ls. lk_hash l' = lk_parent_hash l)" if "l \<in> set ls" for l
    using assms(2) that by (induction ls rule: chain_linked.induct) auto
  show "(\<exists>l\<in>set ls. lk_hash l = x) \<or> s < lk_slot (last ls)"
    if "ancestor L (lk_hash (hd ls)) x" "L x = Some (s, p, ph)"
    using that
  proof (induction arbitrary: s p ph rule: ancestor.induct)
    case ancestor_self
    then show ?case using assms(4) by (auto intro: bexI [of _ "hd ls"])
  next
    case (ancestor_step y s' p' ph')
    have "if s' = 0 then p' = 0 else p' < s'" and "s = p'"
      using assms(1) ancestor_step.hyps(2) ancestor_step.prems unfolding ledger_ok_def by blast+
    then have lower: "s = p'" "p' < s'" using ancestor_step.hyps(3) by simp_all
    consider l where "l \<in> set ls" "lk_hash l = y" | "s' < lk_slot (last ls)"
      using ancestor_step.IH [OF ancestor_step.hyps(2)] by blast
    then show ?case
    proof cases
      case 1
      then have "lk_parent_hash l = ph'" "lk_slot l = s'"
        using assms(3) ancestor_step.hyps(2) by (auto simp: link_true_def)
      then show ?thesis using next_link [OF 1(1)] lower by auto
    qed (use lower in simp)
  qed
qed

lemma chain_coverage_proves:
  assumes "ledger_ok L" "chain_linked ls" "\<forall>l\<in>set ls. link_true L l" "ls \<noteq> []"
  shows "proves (fork_slots L (lk_hash (hd ls))) (chain_coverage ls start end)"
proof -
  obtain first rest where ls: "ls = first # rest" using assms(4) by (cases ls) auto
  let ?floor = "max start (lk_slot (last ls))" and ?ceiling = "min end (lk_slot first)"
  let ?slots = "filter (\<lambda>s. ?floor \<le> s \<and> s \<le> ?ceiling) (map lk_slot (rev ls))"
  have sorted: "sorted_wrt (<) ?slots"
    by (rule sorted_wrt_filter) (rule chain_linked_sorted [OF assms(2)])
  have "x \<in> lk_slot ` set ls \<longleftrightarrow> x \<in> fork_slots L (lk_hash (hd ls))" if "?floor \<le> x" for x
  proof
    assume "x \<in> lk_slot ` set ls"
    then show "x \<in> fork_slots L (lk_hash (hd ls))"
      using chain_linked_ancestors(1) [OF assms] assms(3) by (auto simp: fork_slots_def link_true_def)
  next
    assume "x \<in> fork_slots L (lk_hash (hd ls))"
    then obtain y p ph where y: "ancestor L (lk_hash (hd ls)) y" "L y = Some (x, p, ph)"
      by (auto simp: fork_slots_def)
    then have "\<exists>l\<in>set ls. lk_hash l = y"
      using chain_linked_ancestors(2) [OF assms y] that by auto
    then show "x \<in> lk_slot ` set ls" using assms(3) y(2) by (auto simp: link_true_def)
  qed
  then have slots: "set ?slots = fork_slots L (lk_hash (hd ls)) \<inter> {?floor..?ceiling}" by auto
  show ?thesis
  proof (cases "?ceiling < ?floor")
    case True
    then show ?thesis unfolding chain_coverage_def ls by (simp add: Let_def)
  next
    case False
    then have "chain_coverage ls start end = slot_coverage_new ?slots ?floor ?ceiling"
      unfolding chain_coverage_def ls by (simp add: Let_def)
    moreover have "?floor \<le> ?ceiling" using False by linarith
    ultimately show ?thesis using proves_new [OF sorted slots] by (simp only:)
  qed
qed

lemma covered_chain_coverage:
  "covered (chain_coverage ls start end) \<subseteq> {start..end}"
  "covered (chain_coverage ls start end) \<noteq> {} \<Longrightarrow> ls \<noteq> []"
  by (auto simp: chain_coverage_def slot_coverage_default_def slot_coverage_new_def Let_def
      split: list.splits if_splits)

lemma linked_chain_proves:
  assumes "head_ok self" "links_true L self" "ledger_ok L" "head_coverage_chain self t c = Some ls"
  obtains h where "proves (fork_slots L h) (chain_coverage ls start end)"
    "covered (chain_coverage ls start end) \<noteq> {} \<Longrightarrow>
       \<exists>l. head_coverage_link self t c = Some l \<and> h = lk_hash l"
proof (cases "ls = []")
  case True
  then have "covered (chain_coverage ls start end) = {}"
    by (simp add: chain_coverage_def slot_coverage_default_def)
  moreover have "proves (fork_slots L []) (chain_coverage ls start end)"
    using True by (simp add: chain_coverage_def)
  ultimately show ?thesis using that by blast
next
  case False
  from chain_returns [OF assms(1), of t c] assms(4)
  have ls: "chain_linked ls" "\<And>l. l \<in> set ls \<Longrightarrow> head_coverage_link self (lk_slot l) c = Some l"
    "head_coverage_link self t c = Some (hd ls)"
    using False by auto
  have "\<forall>l\<in>set ls. link_true L l"
    using ls(2) assms(2) by (auto simp: links_true_def elim: head_coverage_linkD)
  from chain_coverage_proves [OF assms(3) ls(1) this False] show ?thesis
    using that ls(3) by blast
qed

text \<open>
  C4. Soundness of the head cache's range proofs: take any history of the subscription whose
  selected banks are genuine blocks of a ledger.  Then a snapshot always returns, and any coverage it
  hands out lies in the requested range and lists exactly the slots that hold a block on the one fork
  ending at the tip observed for that commitment; slots between a block and its parent are proven
  skipped.
\<close>

theorem head_snapshot_sound:
  assumes "ledger_ok L" "list_all (head_op_true L) ops"
    and "self = foldl head_apply head_coverage_default ops"
  shows "\<exists>r. head_coverage_snapshot self start end c now = Some r \<and>
    (\<forall>e cov. r = Inr (e, cov) \<longrightarrow>
       covered cov \<subseteq> {start..e} \<and>
       (\<exists>h. proves (fork_slots L h) cov \<and>
          (covered cov \<noteq> {} \<longrightarrow> hc_connected self \<and>
             (\<exists>t l. hc_tips self ! rank c = Some t \<and>
                    head_coverage_link self (tip_slot t) c = Some l \<and> h = lk_hash l))))"
proof -
  have ok: "head_ok self" and true: "links_true L self"
    using head_run_invariant [OF head_ok_default assms(2)] assms(3) by simp_all
  have walk: "\<exists>ls. head_coverage_chain self t c = Some ls" for t
    by (rule chain_returns [OF ok]) blast
  have empty: "covered slot_coverage_default = {}" by (simp add: slot_coverage_default_def)
  show ?thesis
  proof (cases "\<exists>t. hc_connected self \<and> hc_tips self ! rank c = Some t")
    case False
    then show ?thesis
      by (auto simp: head_coverage_snapshot_def trusted_chain_def historical_coverage_def empty
          split: option.splits)
  next
    case True
    then obtain t where t: "hc_connected self" "hc_tips self ! rank c = Some t" by blast
    obtain ls where ls: "head_coverage_chain self (tip_slot t) c = Some ls" using walk by blast
    have "\<exists>h. proves (fork_slots L h) (chain_coverage ls start e) \<and>
       (covered (chain_coverage ls start e) \<noteq> {} \<longrightarrow>
          (\<exists>l. head_coverage_link self (tip_slot t) c = Some l \<and> h = lk_hash l))" for e
      by (rule linked_chain_proves [OF ok true assms(1) ls]) blast
    then show ?thesis using t ls covered_chain_coverage(1)
      by (auto simp: head_coverage_snapshot_def trusted_chain_def historical_coverage_def Let_def
          split: option.splits)
  qed
qed

theorem head_snapshot_sound_witness:
  "let l10 = \<lparr>lk_slot = 10, lk_hash = [10], lk_parent = 9, lk_parent_hash = [9]\<rparr>;
       l13 = \<lparr>lk_slot = 13, lk_hash = [13], lk_parent = 10, lk_parent_hash = [10]\<rparr>;
       L = [[10] \<mapsto> (10, 9, [9]), [13] \<mapsto> (13, 10, [10])];
       ops = [Connect, Select_bank l10, Publish 10 Finalized, Observe 10 Finalized 5,
              Select_bank l13, Publish 13 Finalized, Observe 13 Finalized 7];
       self = foldl head_apply head_coverage_default ops
   in ledger_ok L \<and> list_all (head_op_true L) ops \<and>
      head_coverage_snapshot self 11 (Some 12) Finalized 8 =
        Some (Inr (12, \<lparr>sc_slots = [], sc_intervals = [(11, 12)]\<rparr>)) \<and>
      (\<exists>h. proves (fork_slots L h) \<lparr>sc_slots = [], sc_intervals = [(11, 12)]\<rparr> \<and> h = [13])"
proof -
  let ?l10 = "\<lparr>lk_slot = 10, lk_hash = [10], lk_parent = 9, lk_parent_hash = [9]\<rparr>"
  let ?l13 = "\<lparr>lk_slot = 13, lk_hash = [13], lk_parent = 10, lk_parent_hash = [10]\<rparr>"
  let ?L = "[[10] \<mapsto> (10, 9, [9]), [13] \<mapsto> (13, 10, [10])] :: ledger"
  let ?ops = "[Connect, Select_bank ?l10, Publish 10 Finalized, Observe 10 Finalized 5,
               Select_bank ?l13, Publish 13 Finalized, Observe 13 Finalized 7]"
  define self where "self = foldl head_apply head_coverage_default ?ops"
  have L: "ledger_ok ?L" by (auto simp: ledger_ok_def split: if_splits)
  have ops: "list_all (head_op_true ?L) ?ops" by (simp add: link_true_def)
  have snap: "head_coverage_snapshot self 11 (Some 12) Finalized 8 =
        Some (Inr (12, \<lparr>sc_slots = [], sc_intervals = [(11, 12)]\<rparr>))" unfolding self_def by code_simp
  have tip: "hc_tips self ! rank Finalized = Some \<lparr>tip_slot = 13, tip_advanced = 7\<rparr>"
    "head_coverage_link self 13 Finalized = Some ?l13" unfolding self_def by code_simp+
  define cov where "cov = \<lparr>sc_slots = [], sc_intervals = [(11, 12::nat)]\<rparr>"
  obtain h t l where "proves (fork_slots ?L h) cov" "hc_tips self ! rank Finalized = Some t"
    "head_coverage_link self (tip_slot t) Finalized = Some l" "h = lk_hash l"
  proof -
    have "covered cov \<noteq> {}" by (simp add: cov_def)
    then show ?thesis
      using head_snapshot_sound [OF L ops self_def, of 11 "Some 12" Finalized 8] that
      unfolding snap cov_def [symmetric] option.inject by blast
  qed
  then have "proves (fork_slots ?L [13]) cov" using tip by auto
  then show ?thesis using L ops snap unfolding Let_def cov_def self_def by blast
qed

section \<open>Invalidation\<close>

text \<open>The loop of \<open>invalidate_branch\<close> marks a node exactly when it descends from the bank.\<close>

lemma descends_above:
  assumes "\<forall>c l. stored_link nodes c = Some l \<longrightarrow> (if c = 0 then lk_parent l = 0 else lk_parent l < c)"
    and "0 < s" "descends nodes s h c"
  shows "s < c"
  using assms(3)
proof (induction rule: descends.induct)
  case (descends_child c l)
  then show ?case using assms(1,2) by (metis gr_zeroI)
next
  case (descends_step b l c l')
  then show ?case using assms(1,2) by (metis less_trans not_less_zero)
qed

lemma descends_iff:
  "descends nodes s h c \<longleftrightarrow> (\<exists>l. stored_link nodes c = Some l \<and>
     ((lk_parent l = s \<and> (h = None \<or> h = Some (lk_parent_hash l))) \<or>
      (descends nodes s h (lk_parent l) \<and>
       (\<exists>l'. stored_link nodes (lk_parent l) = Some l' \<and> lk_parent_hash l = lk_hash l'))))"
  by (rule iffI, erule descends.cases) (blast intro: descends.intros)+

lemma invalidate_loop_get:
  assumes above: "\<And>c. descends nodes s h c \<Longrightarrow> s < c"
    and parents: "\<And>c l. stored_link nodes c = Some l \<Longrightarrow> s \<le> c \<Longrightarrow> lk_parent l < c"
  shows "bt_ok (pre @ m) \<Longrightarrow> \<forall>(c, nd)\<in>set (pre @ m). stored_link nodes c = nd_link nd \<and> s \<le> c \<Longrightarrow>
    \<forall>c l. stored_link nodes c = Some l \<and> s \<le> c \<longrightarrow> c \<in> fst ` set (pre @ m) \<Longrightarrow>
    \<forall>b. bt_get ivd b = (if b = s then Some h
                         else if b \<in> fst ` set pre \<and> descends nodes s h b
                         then map_option (Some \<circ> lk_hash) (stored_link nodes b) else None) \<Longrightarrow>
    map_of (invalidate_loop m ivd) c =
      map_option (\<lambda>nd. if descends nodes s h c then nd\<lparr>nd_invalid := True\<rparr> else nd) (map_of m c)"
proof (induction m arbitrary: pre ivd)
  case (Cons p m)
  obtain k nd where p: "p = (k, nd)" by (cases p)
  have k: "stored_link nodes k = nd_link nd" "s \<le> k" using Cons.prems(2) by (auto simp: p)
  have pre_lt: "b < k" if "b \<in> fst ` set pre" for b
    using Cons.prems(1) that by (auto simp: bt_ok_def p sorted_wrt_append)
  have known: "b \<in> fst ` set pre" if "stored_link nodes b = Some l" "s \<le> b" "b < k" for b l
  proof -
    have "b \<in> fst ` set (pre @ p # m)" using Cons.prems(3) that(1,2) by blast
    moreover have "b \<notin> fst ` set (p # m)"
      using Cons.prems(1) that(3) by (fastforce simp: bt_ok_def p sorted_wrt_append)
    ultimately show ?thesis by auto
  qed
  define hit where "hit \<longleftrightarrow> (\<exists>l old. nd_link nd = Some l \<and> bt_get ivd (lk_parent l) = Some old \<and>
    (old = None \<or> old = Some (lk_parent_hash l)))"
  have hit: "hit \<longleftrightarrow> descends nodes s h k"
  proof (cases "nd_link nd")
    case None
    then show ?thesis using k(1) by (simp add: hit_def descends_iff [of nodes s h k])
  next
    case (Some l)
    have lt: "lk_parent l < k" using parents k Some by simp
    show ?thesis
    proof (cases "lk_parent l = s")
      case True
      then show ?thesis using Some k(1) Cons.prems(4) above [of s]
        by (auto simp: hit_def descends_iff [of nodes s h k])
    next
      case False
      then have "bt_get ivd (lk_parent l) = (if descends nodes s h (lk_parent l)
          then map_option (Some \<circ> lk_hash) (stored_link nodes (lk_parent l)) else None)"
        using Cons.prems(4) known lt above [of "lk_parent l"]
        by (cases "stored_link nodes (lk_parent l)") auto
      then show ?thesis using Some k(1) False
        by (auto simp: hit_def descends_iff [of nodes s h k])
    qed
  qed
  let ?ivd = "if hit then bt_insert k (map_option lk_hash (nd_link nd)) ivd else ivd"
  have step: "invalidate_loop ((k, nd) # m) ivd =
      (k, if hit then nd\<lparr>nd_invalid := True\<rparr> else nd) # invalidate_loop m ?ivd"
    by (auto simp: hit_def split: option.split)
  have "\<forall>b. bt_get ?ivd b = (if b = s then Some h
         else if b \<in> fst ` set (pre @ [p]) \<and> descends nodes s h b
         then map_option (Some \<circ> lk_hash) (stored_link nodes b) else None)"
    using Cons.prems(4) hit k above [of k]
    by (auto simp: p bt_get_def map_of_bt_insert hit_def)
  then have "map_of (invalidate_loop m ?ivd) c =
      map_option (\<lambda>nd. if descends nodes s h c then nd\<lparr>nd_invalid := True\<rparr> else nd) (map_of m c)"
    using Cons.IH [of "pre @ [p]" ?ivd] Cons.prems(1-3) by simp
  then show ?case unfolding p step using hit by simp
qed simp

lemma invalidate_get:
  "bt_ok (hc_nodes self) \<Longrightarrow> bt_get (hc_nodes (head_coverage_invalidate s self)) =
     (bt_get (hc_nodes self))(s \<mapsto> (node_or_default (hc_nodes self) s)\<lparr>nd_invalid := True\<rparr>)"
  by (simp add: head_coverage_invalidate_def bt.get_put)

lemma invalidate_branch_get:
  assumes ok: "nodes_ok (hc_nodes self)" and "0 < s"
    and parents: "\<forall>c l. stored_link (hc_nodes self) c = Some l \<longrightarrow>
      (if c = 0 then lk_parent l = 0 else lk_parent l < c)"
  defines "h \<equiv> map_option lk_hash (stored_link (hc_nodes self) s)"
  shows "bt_get (hc_nodes (head_coverage_invalidate_branch s self)) c =
    (if c = s then Some ((node_or_default (hc_nodes self) s)\<lparr>nd_invalid := True\<rparr>)
     else if descends (hc_nodes self) s h c
     then map_option (\<lambda>nd. nd\<lparr>nd_invalid := True\<rparr>) (bt_get (hc_nodes self) c)
     else bt_get (hc_nodes self) c)"
proof -
  let ?n = "hc_nodes self" and ?m = "hc_nodes (head_coverage_invalidate s self)"
  let ?D = "descends ?n s h"
  have bt: "bt_ok ?n" "bt_ok ?m"
    using ok by (simp_all add: nodes_ok_def head_coverage_invalidate_def)
  have links: "stored_link ?m = stored_link ?n" by (rule invalidate_stored_link [OF bt(1)])
  have above: "?D c \<Longrightarrow> s < c" for c by (rule descends_above [OF parents assms(2)])
  have loop: "map_of (invalidate_loop (bt_from s ?m) [(s, h)]) c =
      map_option (\<lambda>nd. if ?D c then nd\<lparr>nd_invalid := True\<rparr> else nd) (map_of (bt_from s ?m) c)"
  proof (rule invalidate_loop_get [where pre = "[]"])
    show "\<And>c l. stored_link ?n c = Some l \<Longrightarrow> s \<le> c \<Longrightarrow> lk_parent l < c"
      using parents assms(2) by (metis not_le)
    show "\<forall>(c, nd)\<in>set ([] @ bt_from s ?m). stored_link ?n c = nd_link nd \<and> s \<le> c"
      using bt_ok_distinct [OF bt(2)] unfolding links [symmetric]
      by (auto simp: bt_from_def stored_link_def bt_get_def)
    show "\<forall>c l. stored_link ?n c = Some l \<and> s \<le> c \<longrightarrow> c \<in> fst ` set ([] @ bt_from s ?m)"
      unfolding links [symmetric]
      by (force simp: bt_from_def stored_link_def bt_get_def split: option.splits dest: map_of_SomeD)
  qed (use above bt in \<open>auto simp: bt_get_def\<close>)
  have low: "\<not> ?D c" if "c < s" using above [of c] that by auto
  have "bt_get (hc_nodes (head_coverage_invalidate_branch s self)) c =
      map_option (\<lambda>nd. if ?D c then nd\<lparr>nd_invalid := True\<rparr> else nd) (bt_get ?m c)"
    using loop low
    by (simp add: head_coverage_invalidate_branch_def Let_def bt_get_def map_add_def h_def bt_below_def
        bt_from_def map_of_filter_key [of "\<lambda>x. x < s"] map_of_filter_key [of "\<lambda>x. s \<le> x"] option.map_ident
        split: option.split)
  then show ?thesis
    by (auto simp: invalidate_get [OF bt(1)] option.map_ident node_or_default_def option.case_eq_if)
qed

text \<open>
  C18. \<open>invalidate_branch\<close> marks precisely one branch: the bank at the slot (a tombstone even when the
  slot is unknown) and every stored bank that descends from it through matching parent slots and
  parent hashes.  Sibling banks, links and commitments stay as they were.
\<close>

theorem invalidate_branch_exact:
  assumes "ledger_ok L" "list_all (head_op_true L) ops" "0 < s"
    and "self = foldl head_apply head_coverage_default ops"
    and "h = map_option lk_hash (stored_link (hc_nodes self) s)"
  shows "bt_get (hc_nodes (head_coverage_invalidate_branch s self)) c =
    (if c = s then Some ((node_or_default (hc_nodes self) s)\<lparr>nd_invalid := True\<rparr>)
     else if descends (hc_nodes self) s h c
     then map_option (\<lambda>nd. nd\<lparr>nd_invalid := True\<rparr>) (bt_get (hc_nodes self) c)
     else bt_get (hc_nodes self) c)"
proof -
  have inv: "head_ok self" "links_true L self"
    using head_run_invariant [OF head_ok_default assms(2)] assms(4) by simp_all
  have "if c = 0 then lk_parent l = 0 else lk_parent l < c"
    if "stored_link (hc_nodes self) c = Some l" for c l
  proof -
    have "L (lk_hash l) = Some (c, lk_parent l, lk_parent_hash l)"
      using inv that by (auto simp: head_ok_def nodes_ok_def links_true_def link_true_def)
    then show ?thesis using assms(1) unfolding ledger_ok_def by blast
  qed
  then show ?thesis
    unfolding assms(5) using inv(1) assms(3) by (intro invalidate_branch_get) (auto simp: head_ok_def)
qed

theorem invalidate_branch_exact_witness:
  "let L = [[1] \<mapsto> (1, 0, [0]), [2] \<mapsto> (2, 1, [1]), [3] \<mapsto> (3, 2, [2]), [4] \<mapsto> (4, 1, [1])];
       bank = \<lambda>s p. Select_bank \<lparr>lk_slot = s, lk_hash = [s], lk_parent = p, lk_parent_hash = [p]\<rparr>;
       self = foldl head_apply head_coverage_default [bank 1 0, bank 2 1, bank 3 2, bank 4 1]
   in descends (hc_nodes self) 2 (Some [2]) 3 \<and>
      map_option nd_invalid (bt_get (hc_nodes (head_coverage_invalidate_branch 2 self)) 3) = Some True \<and>
      map_option nd_invalid (bt_get (hc_nodes (head_coverage_invalidate_branch 2 self)) 4) = Some False"
proof -
  let ?L = "[[1] \<mapsto> (1, 0, [0]), [2] \<mapsto> (2, 1, [1]), [3] \<mapsto> (3, 2, [2]), [4] \<mapsto> (4, 1, [1])] :: ledger"
  let ?bank = "\<lambda>s p. Select_bank \<lparr>lk_slot = s, lk_hash = [s], lk_parent = p, lk_parent_hash = [p]\<rparr>"
  let ?ops = "[?bank 1 0, ?bank 2 1, ?bank 3 2, ?bank 4 1]"
  define self where "self = foldl head_apply head_coverage_default ?ops"
  have L: "ledger_ok ?L" by (auto simp: ledger_ok_def split: if_splits)
  have ops: "list_all (head_op_true ?L) ?ops" by (simp add: link_true_def)
  have links: "stored_link (hc_nodes self) 2 =
      Some \<lparr>lk_slot = 2, lk_hash = [2], lk_parent = 1, lk_parent_hash = [1]\<rparr>"
    "stored_link (hc_nodes self) 3 =
      Some \<lparr>lk_slot = 3, lk_hash = [3], lk_parent = 2, lk_parent_hash = [2]\<rparr>"
    "map_option nd_invalid (bt_get (hc_nodes (head_coverage_invalidate_branch 2 self)) 4) = Some False"
    "bt_get (hc_nodes self) 3 \<noteq> None"
    unfolding self_def by code_simp+
  have desc: "descends (hc_nodes self) 2 (Some [2]) 3"
    by (rule descends_child [OF links(2)]) simp_all
  have "bt_get (hc_nodes (head_coverage_invalidate_branch 2 self)) 3 =
      map_option (\<lambda>nd. nd\<lparr>nd_invalid := True\<rparr>) (bt_get (hc_nodes self) 3)"
    using invalidate_branch_exact [OF L ops _ self_def, of 2 "Some [2]" 3] desc links by simp
  then have "map_option nd_invalid (bt_get (hc_nodes (head_coverage_invalidate_branch 2 self)) 3) = Some True"
    using links(4) by auto
  then show ?thesis using desc links(3) unfolding Let_def self_def by blast
qed

section \<open>Trusted tips\<close>

text \<open>
  C17. A tip is handed out as the end of an open range only from a connected subscription that has
  advanced it within the last second, with a hash-linked chain of at least one verified parent edge
  (or genesis) whose every bank is published at the requested commitment and not invalidated; an
  explicit end is clamped to such a tip and never raised.
\<close>

theorem trusted_tip_guarantees:
  assumes "self = foldl head_apply head_coverage_default ops"
    and "trusted_chain self c now = Some (Inr (t, chain))"
  shows "hc_connected self \<and>
    (\<exists>adv. hc_tips self ! rank c = Some \<lparr>tip_slot = t, tip_advanced = adv\<rparr> \<and> now \<le> adv + tip_max_age) \<and>
    (\<exists>tip. hc_tips self ! rank Processed = Some tip \<and> t \<le> tip_slot tip) \<and>
    chain \<noteq> [] \<and> lk_slot (hd chain) = t \<and> chain_linked chain \<and> (2 \<le> length chain \<or> t = 0) \<and>
    (\<forall>l\<in>set chain. head_coverage_link self (lk_slot l) c = Some l) \<and>
    head_coverage_snapshot_clamped self start end c now =
      Some (min end t, chain_coverage chain start (min end t), t < end)"
proof -
  have ok: "head_ok self"
    unfolding assms(1) by (rule head_ok_run [OF head_ok_default(1)])
  obtain tip where tip: "hc_connected self" "hc_tips self ! rank c = Some tip"
    "\<not> tip_max_age < sat_sub now (tip_advanced tip)" "tip_slot tip = t"
    "head_coverage_chain self t c = Some chain"
    "\<not> (length chain < 2 \<and> \<not> (case chain of [] \<Rightarrow> False | link # _ \<Rightarrow> lk_slot link = 0))"
    using assms(2) by (auto simp: trusted_chain_def Let_def split: if_splits option.splits)
  have walk: "chain_linked chain" "\<forall>l\<in>set chain. head_coverage_link self (lk_slot l) c = Some l"
    "chain \<noteq> [] \<longrightarrow> lk_slot (hd chain) = t"
    using chain_returns [OF ok, of t c] tip(5) by auto
  have nonempty: "chain \<noteq> []" "2 \<le> length chain \<or> t = 0"
    using tip(6) walk(3) by (auto simp: Suc_le_eq not_less split: list.splits)
  have "\<exists>adv. hc_tips self ! rank c = Some \<lparr>tip_slot = t, tip_advanced = adv\<rparr> \<and> now \<le> adv + tip_max_age"
    using tip(2,3,4) by (intro exI [of _ "tip_advanced tip"]) (auto simp: u64_simps)
  moreover have "\<exists>tip. hc_tips self ! rank Processed = Some tip \<and> t \<le> tip_slot tip"
  proof -
    obtain x y z where "hc_tips self = [x, y, z]" "tip_le y x" "tip_le z y"
      using ok by (auto simp: head_ok_def tips_ok_def)
    then show ?thesis
      using tip(2,4) by (cases c) (auto simp: tip_le_def numeral_2_eq_2 split: option.splits)
  qed
  ultimately show ?thesis
    using tip(1) walk nonempty assms(2) by (simp add: head_coverage_snapshot_clamped_def)
qed

theorem trusted_tip_guarantees_witness:
  "let l10 = \<lparr>lk_slot = 10, lk_hash = [10], lk_parent = 9, lk_parent_hash = [9]\<rparr>;
       l13 = \<lparr>lk_slot = 13, lk_hash = [13], lk_parent = 10, lk_parent_hash = [10]\<rparr>;
       self = foldl head_apply head_coverage_default
        [Connect, Select_bank l10, Publish 10 Finalized, Observe 10 Finalized 5,
         Select_bank l13, Publish 13 Finalized, Observe 13 Finalized 7]
   in trusted_chain self Finalized 8 = Some (Inr (13, [l13, l10])) \<and> hc_connected self \<and>
      head_coverage_snapshot_clamped self 9 20 Finalized 8 =
        Some (13, \<lparr>sc_slots = [10, 13], sc_intervals = [(10, 13)]\<rparr>, True)"
proof -
  let ?l10 = "\<lparr>lk_slot = 10, lk_hash = [10], lk_parent = 9, lk_parent_hash = [9]\<rparr>"
  let ?l13 = "\<lparr>lk_slot = 13, lk_hash = [13], lk_parent = 10, lk_parent_hash = [10]\<rparr>"
  define self where "self = foldl head_apply head_coverage_default
        [Connect, Select_bank ?l10, Publish 10 Finalized, Observe 10 Finalized 5,
         Select_bank ?l13, Publish 13 Finalized, Observe 13 Finalized 7]"
  have t: "trusted_chain self Finalized 8 = Some (Inr (13, [?l13, ?l10]))"
    unfolding self_def by code_simp
  have cov: "chain_coverage [?l13, ?l10] 9 13 = \<lparr>sc_slots = [10, 13], sc_intervals = [(10, 13)]\<rparr>"
    by code_simp
  have "hc_connected self" "head_coverage_snapshot_clamped self 9 20 Finalized 8 =
      Some (min 20 13, chain_coverage [?l13, ?l10] 9 (min 20 13), True)"
    using trusted_tip_guarantees [OF self_def t, of 9 20] by simp_all
  then show ?thesis using t cov unfolding Let_def self_def [symmetric] by simp
qed

end
