(* ===== verification/Block_Ranges.thy ===== *)
theory Block_Ranges
  imports Head_Coverage Block_Index_Scan
begin

text \<open>
  The slot-range methods \<open>getBlocks\<close> and \<open>getBlocksWithLimit\<close>
  (\<^verbatim>\<open>src/crates/superbank-rpc/src/handlers/block_ranges.rs\<close>, \<^verbatim>\<open>handlers/blocks.rs\<close> and the range reads of
  \<^verbatim>\<open>disk_cache/mod.rs\<close>), with the head-cache and disk-cache features compiled in.  A request is answered
  from the head cache's proof, the block-time index, the disk cache and finally the primary ClickHouse
  for the gaps that remain.  The database queries, the stability of the key-index tokens around a disk
  read and serde's decoding of the config object are parameters.  Metrics, timings and headers are
  left out; a \<open>StatusCode\<close> error never occurs in these handlers.
\<close>

section \<open>Requests and responses\<close>

datatype json_number = Pos_int nat | Neg_int int | Float

datatype json_value =
    J_null
  | J_bool bool
  | J_number json_number
  | J_string string
  | J_array "json_value list"
  | J_object "(string \<times> json_value) list"

fun as_u64 :: "json_value \<Rightarrow> nat option" where
  "as_u64 (J_number (Pos_int n)) = Some n"
| "as_u64 _ = None"

definition is_null :: "json_value \<Rightarrow> bool" where
  "is_null v \<longleftrightarrow> v = J_null"

fun is_object :: "json_value \<Rightarrow> bool" where
  "is_object (J_object _) \<longleftrightarrow> True"
| "is_object _ \<longleftrightarrow> False"

fun is_number :: "json_value \<Rightarrow> bool" where
  "is_number (J_number _) \<longleftrightarrow> True"
| "is_number _ \<longleftrightarrow> False"

datatype invalid_params =
    Missing_start_slot
  | Start_slot_not_a_number
  | End_slot_not_a_number
  | Bad_config
  | Unsupported_commitment
  | End_before_start
  | Range_too_large
  | Missing_limit
  | Limit_not_a_number
  | Limit_too_large

datatype rpc_response = Invalid_params invalid_params | Internal_error | Slots "slot list"

definition max_get_blocks_range :: nat where
  "max_get_blocks_range = 500000"

section \<open>Merging sorted slot lists\<close>

fun merge_loop :: "slot list \<Rightarrow> slot list \<Rightarrow> slot option \<Rightarrow> slot list" where
  "merge_loop (c # cs) (h # hs) last_slot =
     (if c \<le> h
      then (if last_slot \<noteq> Some c then c # merge_loop cs (h # hs) (Some c) else merge_loop cs (h # hs) last_slot)
      else (if last_slot \<noteq> Some h then h # merge_loop (c # cs) hs (Some h) else merge_loop (c # cs) hs last_slot))"
| "merge_loop (c # cs) [] last_slot =
     (if last_slot \<noteq> Some c then c # merge_loop cs [] (Some c) else merge_loop cs [] last_slot)"
| "merge_loop [] (h # hs) last_slot =
     (if last_slot \<noteq> Some h then h # merge_loop [] hs (Some h) else merge_loop [] hs last_slot)"
| "merge_loop [] [] last_slot = []"

definition merge_sorted_block_slots :: "slot list \<Rightarrow> slot list \<Rightarrow> slot list" where
  "merge_sorted_block_slots clickhouse_slots head_slots =
     (if clickhouse_slots = [] then head_slots
      else if head_slots = [] then clickhouse_slots
      else merge_loop clickhouse_slots head_slots None)"

section \<open>Range reads of the disk cache\<close>

record slot_row =
  sr_slot :: slot
  sr_status :: int

record disk_cache =
  dc_ready :: bool
  dc_min_retained :: slot
  dc_coverage :: coverage_map
  dc_block_index :: "block_index option"

fun coverage_rows_loop :: "slot \<Rightarrow> slot_row list \<Rightarrow> slot list option" where
  "coverage_rows_loop expected [] = Some []"
| "coverage_rows_loop expected (row # rows) =
     (if sr_slot row \<noteq> expected then None
      else if sr_status row = 1 then map_option (Cons (sr_slot row)) (coverage_rows_loop (Suc expected) rows)
      else if sr_status row = 2 then coverage_rows_loop (Suc expected) rows
      else None)"

definition slots_from_coverage_rows :: "slot_row list \<Rightarrow> slot \<Rightarrow> slot \<Rightarrow> slot list option" where
  "slots_from_coverage_rows rows start end =
     (case checked_sub end start of
        None \<Rightarrow> None
      | Some width \<Rightarrow>
          case checked_add width 1 of
            None \<Rightarrow> None
          | Some expected \<Rightarrow> if length rows \<noteq> expected then None else coverage_rows_loop start rows)"

text \<open>
  \<open>steady a b\<close>: the key-index read token of the range exists and is the same before and after the
  query; \<open>query a b\<close>: the coverage rows the local table returns, or a failed query.
\<close>

type_synonym coverage_query = "slot \<Rightarrow> slot \<Rightarrow> slot_row list option"

definition read_covered_interval ::
  "(slot \<Rightarrow> slot \<Rightarrow> bool) \<Rightarrow> coverage_query \<Rightarrow> disk_cache \<Rightarrow> slot \<Rightarrow> slot \<Rightarrow> slot list option" where
  "read_covered_interval steady query disk start end =
     (case query start end of
        None \<Rightarrow> None
      | Some rows \<Rightarrow>
          if \<not> steady start end \<or> \<not> dc_ready disk \<or> start < dc_min_retained disk then None
          else if coverage_map_holes_in (dc_coverage disk) start end \<noteq> [] then None
          else slots_from_coverage_rows rows start end)"

definition disk_cache_range_coverage ::
  "(slot \<Rightarrow> slot \<Rightarrow> bool) \<Rightarrow> coverage_query \<Rightarrow> disk_cache \<Rightarrow> slot \<Rightarrow> slot \<Rightarrow> slot_coverage" where
  "disk_cache_range_coverage steady query disk start end =
     (if \<not> dc_ready disk \<or> end < start then slot_coverage_default
      else
        foldl (\<lambda>prf (floor, tip).
            case read_covered_interval steady query disk floor tip of
              Some slots \<Rightarrow> slot_coverage_merge prf (slot_coverage_new slots floor tip)
            | None \<Rightarrow> prf)
          slot_coverage_default
          (coverage_map_intersections (dc_coverage disk) (max start (dc_min_retained disk)) end))"

section \<open>Resolving a range\<close>

record head_cache =
  hd_coverage :: head_coverage
  hd_clamp_explicit_end :: bool

record app_state =
  st_head_cache :: "head_cache option"
  st_disk_cache :: "disk_cache option"

text \<open>The databases and the key index, as the handlers see them.\<close>

record range_sources =
  src_steady :: "slot \<Rightarrow> slot \<Rightarrow> bool"
  src_query :: coverage_query
  src_latest :: "unit + slot"
  src_primary :: "slot \<Rightarrow> slot \<Rightarrow> unit + slot list"

record block_range =
  br_start :: slot
  br_end :: slot
  br_head :: slot_coverage
  br_authoritative_head_tip :: bool

definition resolve_range ::
  "app_state \<Rightarrow> range_sources \<Rightarrow> slot \<Rightarrow> slot option \<Rightarrow> commitment_level \<Rightarrow> instant \<Rightarrow>
   (unit + block_range) option" where
  "resolve_range state src start end commitment now =
     (case st_head_cache state of
        Some cache \<Rightarrow>
          let mk = (\<lambda>e head. Inr \<lparr>br_start = start, br_end = e, br_head = head,
                                     br_authoritative_head_tip = (end = None)\<rparr>)
          in (case end of
                None \<Rightarrow>
                  map_option (\<lambda>r. case r of Inl _ \<Rightarrow> Inl () | Inr (e, head) \<Rightarrow> mk e head)
                    (head_coverage_snapshot (hd_coverage cache) start None commitment now)
              | Some e \<Rightarrow>
                  if hd_clamp_explicit_end cache then
                    map_option (\<lambda>(e', head, _). mk e' head)
                      (head_coverage_snapshot_clamped (hd_coverage cache) start e commitment now)
                  else
                    map_option (\<lambda>r. case r of Inl _ \<Rightarrow> Inl () | Inr (e', head) \<Rightarrow> mk e' head)
                      (head_coverage_snapshot (hd_coverage cache) start (Some e) commitment now))
      | None \<Rightarrow>
          Some (case (case end of Some e \<Rightarrow> Inr e | None \<Rightarrow> src_latest src) of
              Inl _ \<Rightarrow> Inl ()
            | Inr e \<Rightarrow> Inr \<lparr>br_start = start, br_end = e, br_head = slot_coverage_default,
                            br_authoritative_head_tip = False\<rparr>))"

text \<open>The proof from memory and whether the index contradicted the head (\<open>cache_changed\<close>).\<close>

definition memory_coverage :: "app_state \<Rightarrow> block_range \<Rightarrow> (slot_coverage \<times> bool) option" where
  "memory_coverage state rng =
     (case Option.bind (st_disk_cache state) dc_block_index of
        None \<Rightarrow> Some (br_head rng, False)
      | Some index \<Rightarrow>
          map_option (\<lambda>indexed.
              let (changed, prf) = slot_coverage_merge_checked (br_head rng) indexed
              in if changed then (slot_coverage_default, True) else (prf, False))
            (block_index_range_coverage index (br_start rng) (br_end rng)))"

definition disk_coverage :: "app_state \<Rightarrow> range_sources \<Rightarrow> block_range \<Rightarrow> slot_coverage \<Rightarrow> slot_coverage" where
  "disk_coverage state src rng prf =
     (case st_disk_cache state of
        None \<Rightarrow> prf
      | Some disk \<Rightarrow>
          foldl (\<lambda>acc (start, end).
              slot_coverage_merge acc
                (disk_cache_range_coverage (src_steady src) (src_query src) disk start end))
            prf (slot_coverage_gaps prf (br_start rng) (br_end rng)))"

fun fill_gaps :: "range_sources \<Rightarrow> span list \<Rightarrow> slot list \<Rightarrow> rpc_response" where
  "fill_gaps src [] slots = Slots slots"
| "fill_gaps src ((start, end) # gaps) slots =
     (case src_primary src start end of
        Inl _ \<Rightarrow> Internal_error
      | Inr rows \<Rightarrow> fill_gaps src gaps (merge_sorted_block_slots slots rows))"

definition get_block_slots_response_for_range ::
  "app_state \<Rightarrow> range_sources \<Rightarrow> block_range \<Rightarrow> rpc_response option" where
  "get_block_slots_response_for_range state src rng =
     map_option (\<lambda>(prf, changed).
         if br_authoritative_head_tip rng \<and> changed then Internal_error
         else
           let prf = disk_coverage state src rng prf
           in fill_gaps src (slot_coverage_gaps prf (br_start rng) (br_end rng)) (sc_slots prf))
       (memory_coverage state rng)"

section \<open>The handlers\<close>

type_synonym config_decoder = "json_value \<Rightarrow> commitment_level option option"

definition parse_get_blocks_config ::
  "config_decoder \<Rightarrow> json_value option \<Rightarrow> invalid_params + commitment_level option" where
  "parse_get_blocks_config from_value config =
     (case config of
        None \<Rightarrow> Inr None
      | Some v \<Rightarrow>
          if is_null v then Inr None
          else (case from_value v of Some c \<Rightarrow> Inr c | None \<Rightarrow> Inl Bad_config))"

definition reject_unsupported_blocks_commitment :: "app_state \<Rightarrow> commitment_level \<Rightarrow> bool" where
  "reject_unsupported_blocks_commitment state commitment \<longleftrightarrow>
     commitment = Processed \<and> st_head_cache state = None"

definition get_blocks_end_param ::
  "json_value list \<Rightarrow> invalid_params + slot option \<times> json_value option" where
  "get_blocks_end_param params =
     (case params of
        [] \<Rightarrow> Inr (None, None)
      | v # rest \<Rightarrow>
          let config = (case rest of [] \<Rightarrow> None | c # _ \<Rightarrow> Some c)
          in if is_null v then Inr (None, config)
             else if is_object v then Inr (None, Some v)
             else if is_number v then
               (case as_u64 v of
                  Some e \<Rightarrow> Inr (Some e, config)
                | None \<Rightarrow> Inl End_slot_not_a_number)
             else Inl End_slot_not_a_number)"

definition get_blocks_range ::
  "app_state \<Rightarrow> range_sources \<Rightarrow> slot \<Rightarrow> slot option \<Rightarrow> commitment_level \<Rightarrow> instant \<Rightarrow>
   rpc_response option" where
  "get_blocks_range state src start end commitment now =
     (case resolve_range state src start end commitment now of
        None \<Rightarrow> None
      | Some (Inl _) \<Rightarrow> Some Internal_error
      | Some (Inr rng) \<Rightarrow>
          if br_end rng < start then Some (Slots [])
          else if max_get_blocks_range < sat_sub (br_end rng) start then
            Some (Invalid_params Range_too_large)
          else get_block_slots_response_for_range state src rng)"

definition handle_get_blocks ::
  "config_decoder \<Rightarrow> app_state \<Rightarrow> range_sources \<Rightarrow> instant \<Rightarrow> json_value list option \<Rightarrow>
   rpc_response option" where
  "handle_get_blocks from_value state src now params =
     (case params of
        None \<Rightarrow> Some (Invalid_params Missing_start_slot)
      | Some [] \<Rightarrow> Some (Invalid_params Missing_start_slot)
      | Some (start_value # rest) \<Rightarrow>
          case as_u64 start_value of
            None \<Rightarrow> Some (Invalid_params Start_slot_not_a_number)
          | Some start \<Rightarrow>
              case get_blocks_end_param rest of
                Inl e \<Rightarrow> Some (Invalid_params e)
              | Inr (end, config) \<Rightarrow>
                  case parse_get_blocks_config from_value config of
                    Inl e \<Rightarrow> Some (Invalid_params e)
                  | Inr c \<Rightarrow>
                      let commitment = (case c of Some l \<Rightarrow> l | None \<Rightarrow> Finalized)
                      in if reject_unsupported_blocks_commitment state commitment then
                           Some (Invalid_params Unsupported_commitment)
                         else
                           case end of
                             None \<Rightarrow> get_blocks_range state src start None commitment now
                           | Some e \<Rightarrow>
                               if e < start then Some (Invalid_params End_before_start)
                               else if max_get_blocks_range < e - start then
                                 Some (Invalid_params Range_too_large)
                               else get_blocks_range state src start (Some e) commitment now)"

definition handle_get_blocks_with_limit ::
  "config_decoder \<Rightarrow> app_state \<Rightarrow> range_sources \<Rightarrow> instant \<Rightarrow> json_value list option \<Rightarrow>
   rpc_response option" where
  "handle_get_blocks_with_limit from_value state src now params =
     (case params of
        None \<Rightarrow> Some (Invalid_params Missing_start_slot)
      | Some [] \<Rightarrow> Some (Invalid_params Missing_start_slot)
      | Some (start_value # rest) \<Rightarrow>
          case as_u64 start_value of
            None \<Rightarrow> Some (Invalid_params Start_slot_not_a_number)
          | Some start \<Rightarrow>
              case rest of
                [] \<Rightarrow> Some (Invalid_params Missing_limit)
              | limit_value # extra \<Rightarrow>
                  case as_u64 limit_value of
                    None \<Rightarrow> Some (Invalid_params Limit_not_a_number)
                  | Some limit \<Rightarrow>
                      case parse_get_blocks_config from_value
                             (case extra of [] \<Rightarrow> None | c # _ \<Rightarrow> Some c) of
                        Inl e \<Rightarrow> Some (Invalid_params e)
                      | Inr c \<Rightarrow>
                          let commitment = (case c of Some l \<Rightarrow> l | None \<Rightarrow> Finalized)
                          in if reject_unsupported_blocks_commitment state commitment then
                               Some (Invalid_params Unsupported_commitment)
                             else if max_get_blocks_range < limit then
                               Some (Invalid_params Limit_too_large)
                             else if limit = 0 then Some (Slots [])
                             else
                               case resolve_range state src start
                                      (Some (sat_add start (sat_sub limit 1))) commitment now of
                                 None \<Rightarrow> None
                               | Some (Inl _) \<Rightarrow> Some Internal_error
                               | Some (Inr rng) \<Rightarrow>
                                   if br_end rng < start then Some (Slots [])
                                   else get_block_slots_response_for_range state src rng)"

section \<open>Specification\<close>

text \<open>What is known of the databases about the ledger \<open>P\<close>: rows are truthful, primary answers complete.\<close>

definition query_true :: "slot set \<Rightarrow> coverage_query \<Rightarrow> bool" where
  "query_true P query \<longleftrightarrow>
     (\<forall>a b rows. query a b = Some rows \<longrightarrow>
        (\<forall>row\<in>set rows. (sr_status row = 1 \<longrightarrow> sr_slot row \<in> P) \<and> (sr_status row = 2 \<longrightarrow> sr_slot row \<notin> P)))"

definition primary_exact :: "slot set \<Rightarrow> range_sources \<Rightarrow> bool" where
  "primary_exact P src \<longleftrightarrow>
     (\<forall>a b rows. src_primary src a b = Inr rows \<longrightarrow> sorted_wrt (<) rows \<and> set rows = P \<inter> {a..b})"

definition disk_sound :: "slot set \<Rightarrow> (slot \<Rightarrow> int option) \<Rightarrow> disk_cache \<Rightarrow> bool" where
  "disk_sound P T disk \<longleftrightarrow>
     coverage_ok (dc_coverage disk) \<and>
     (case dc_block_index disk of None \<Rightarrow> True | Some index \<Rightarrow> index_sound P T index)"

definition state_sound :: "slot set \<Rightarrow> (slot \<Rightarrow> int option) \<Rightarrow> app_state \<Rightarrow> bool" where
  "state_sound P T state \<longleftrightarrow>
     (case st_disk_cache state of None \<Rightarrow> True | Some disk \<Rightarrow> disk_sound P T disk)"

text \<open>The head cache follows the ledger \<open>P\<close> at a commitment, up to its tip; \<open>P\<close> may go on above it.\<close>

definition head_follows :: "slot set \<Rightarrow> ledger \<Rightarrow> commitment_level \<Rightarrow> head_coverage \<Rightarrow> bool" where
  "head_follows P L c hc \<longleftrightarrow>
     head_ok hc \<and> ledger_ok L \<and> links_true L hc \<and>
     (\<forall>t l. hc_tips hc ! rank c = Some t \<and> head_coverage_link hc (tip_slot t) c = Some l \<longrightarrow>
        fork_slots L (lk_hash l) = P \<inter> {..tip_slot t})"

text \<open>
  A tip is trusted when the subscription is connected, the tip advanced within the last second, and its
  parent walk has a verified edge or reaches genesis.  An explicit end is served as asked, except that
  the head cache lowers it to a trusted tip when clamping is on.
\<close>

definition tip_trusted :: "head_coverage \<Rightarrow> commitment_level \<Rightarrow> instant \<Rightarrow> tip \<Rightarrow> bool" where
  "tip_trusted hc c now t \<longleftrightarrow>
     hc_connected hc \<and> hc_tips hc ! rank c = Some t \<and> now \<le> tip_advanced t + tip_max_age \<and>
     (case head_coverage_chain hc (tip_slot t) c of
        None \<Rightarrow> False
      | Some chain \<Rightarrow> 2 \<le> length chain \<or> chain \<noteq> [] \<and> tip_slot t = 0)"

definition served_end :: "app_state \<Rightarrow> commitment_level \<Rightarrow> instant \<Rightarrow> slot \<Rightarrow> slot" where
  "served_end state c now e =
     (case st_head_cache state of
        None \<Rightarrow> e
      | Some cache \<Rightarrow>
          (case hc_tips (hd_coverage cache) ! rank c of
             None \<Rightarrow> e
           | Some t \<Rightarrow>
               if hd_clamp_explicit_end cache \<and> tip_trusted (hd_coverage cache) c now t then min e (tip_slot t)
               else e))"

text \<open>The slots the block-time index vouches for.\<close>

definition indexed_slots :: "app_state \<Rightarrow> slot set" where
  "indexed_slots state =
     (case Option.bind (st_disk_cache state) dc_block_index of
        None \<Rightarrow> {}
      | Some index \<Rightarrow> coverage_slots (bi_coverage index))"

text \<open>A source of range proofs: it returns, its proof is of the ledger and stays in the window.\<close>

locale coverage_source =
  fixes P :: "slot set" and ok :: "'s \<Rightarrow> bool" and cover :: "'s \<Rightarrow> slot \<Rightarrow> slot \<Rightarrow> slot_coverage option"
  assumes cover_sound: "ok s \<Longrightarrow> \<exists>c. cover s a b = Some c \<and> proves P c \<and> covered c \<subseteq> {a..b}"
begin

lemma cover_returns: "ok s \<Longrightarrow> cover s a b \<noteq> None"
  using cover_sound by force

lemma cover_extends:
  assumes "ok s" "cover s a' b' = Some c" "proves P prf" "covered prf \<subseteq> {a..b}" "a \<le> a'" "b' \<le> b"
  shows "proves P (slot_coverage_merge prf c)" "covered (slot_coverage_merge prf c) \<subseteq> {a..b}"
proof -
  have c: "proves P c" "covered c \<subseteq> {a'..b'}" using cover_sound [OF assms(1), of a' b'] assms(2) by auto
  show "proves P (slot_coverage_merge prf c)" using assms(3) c(1) by (rule proves_merge)
  show "covered (slot_coverage_merge prf c) \<subseteq> {a..b}" using assms(4-6) c(2) by (auto simp: subset_iff)
qed

text \<open>A checked merge with another proof of the same ledger never reports a contradiction.\<close>

lemma cover_merge_checked:
  assumes "ok s" "cover s a b = Some c" "proves P prf"
  shows "\<exists>m. slot_coverage_merge_checked prf c = (False, m) \<and> proves P m \<and> covered m = covered prf \<union> covered c"
proof -
  have c: "proves P c" using cover_sound [OF assms(1), of a b] assms(2) by auto
  obtain changed m where m: "slot_coverage_merge_checked prf c = (changed, m)" by fastforce
  then show ?thesis
    using merge_checked_one_ledger [OF assms(3) c] merge_checked_unchanged [of "prf" c] by simp
qed

end

section \<open>Merging slot lists\<close>

lemma set_merge_loop:
  "set (merge_loop cs hs last_slot) \<union> set_option last_slot = set cs \<union> set hs \<union> set_option last_slot"
  by (induction cs hs last_slot rule: merge_loop.induct) auto

definition above_last :: "slot option \<Rightarrow> slot list \<Rightarrow> bool" where
  "above_last l xs \<longleftrightarrow> sorted (case l of None \<Rightarrow> xs | Some x \<Rightarrow> x # xs)"

definition with_last :: "slot option \<Rightarrow> slot list \<Rightarrow> slot list" where
  "with_last l xs = (case l of None \<Rightarrow> xs | Some x \<Rightarrow> x # xs)"

lemma strict_sorted_push:
  "sorted_wrt (<) (with_last (Some c) xs) \<Longrightarrow> above_last l (c # cs) \<Longrightarrow> l \<noteq> Some c \<Longrightarrow>
     sorted_wrt (<) (with_last l (c # xs))"
  by (cases l) (auto simp: above_last_def with_last_def)

lemma above_last_push: "above_last l (c # cs) \<Longrightarrow> above_last (Some c) cs"
  "above_last l (c # cs) \<Longrightarrow> above_last l cs"
  "above_last l (h # hs) \<Longrightarrow> c \<le> h \<Longrightarrow> above_last (Some c) (h # hs)"
  by (cases l; auto simp: above_last_def)+

lemma merge_loop_sorted:
  "above_last last_slot cs \<Longrightarrow> above_last last_slot hs \<Longrightarrow>
   sorted_wrt (<) (with_last last_slot (merge_loop cs hs last_slot))"
proof (induction cs hs last_slot rule: merge_loop.induct)
  case (1 c cs h hs last_slot)
  note push = above_last_push(1,2) [OF 1(5)] above_last_push(1,2) [OF 1(6)]
    above_last_push(3) [OF 1(5)] above_last_push(3) [OF 1(6)]
  consider "c \<le> h" "last_slot \<noteq> Some c" | "c \<le> h" "last_slot = Some c"
    | "\<not> c \<le> h" "last_slot \<noteq> Some h" | "\<not> c \<le> h" "last_slot = Some h" by blast
  then show ?case
  proof cases
    case one: 1
    then show ?thesis using strict_sorted_push [OF "1.IH"(1) [OF one] "1.prems"(1)] push by simp
  next
    case 2
    then show ?thesis using "1.IH"(2) [OF 2(1)] push "1.prems" by simp
  next
    case 3
    then show ?thesis using strict_sorted_push [OF "1.IH"(3) [OF 3] "1.prems"(2)] push by simp
  next
    case 4
    then show ?thesis using "1.IH"(4) [OF 4(1)] push "1.prems" by simp
  qed
next
  case (2 c cs last_slot)
  have "above_last x []" for x by (cases x) (simp_all add: above_last_def)
  then show ?case
    using 2 above_last_push(1,2) [OF 2(3)] strict_sorted_push [of c _ last_slot cs]
    by (cases "last_slot = Some c") simp_all
next
  case (3 h hs last_slot)
  have "above_last x []" for x by (cases x) (simp_all add: above_last_def)
  then show ?case
    using 3 above_last_push(1,2) [OF 3(4)] strict_sorted_push [of h _ last_slot hs]
    by (cases "last_slot = Some h") simp_all
qed (simp add: with_last_def split: option.split)

lemma merge_sorted_block_slots_sorted:
  assumes "sorted_wrt (<) xs" "sorted_wrt (<) ys"
  shows "sorted_wrt (<) (merge_sorted_block_slots xs ys)"
    "set (merge_sorted_block_slots xs ys) = set xs \<union> set ys"
proof -
  have "sorted xs" "sorted ys" using assms by (simp_all add: strict_sorted_iff)
  then show "sorted_wrt (<) (merge_sorted_block_slots xs ys)"
    using merge_loop_sorted [of None xs ys] assms
    by (simp add: above_last_def with_last_def merge_sorted_block_slots_def)
  show "set (merge_sorted_block_slots xs ys) = set xs \<union> set ys"
    using set_merge_loop [of xs ys None] by (simp add: merge_sorted_block_slots_def)
qed

section \<open>Disk reads\<close>

lemma coverage_rows_loop_exact:
  "coverage_rows_loop e rows = Some slots \<Longrightarrow>
     map sr_slot rows = [e..<e + length rows] \<and> (\<forall>row\<in>set rows. sr_status row = 1 \<or> sr_status row = 2) \<and>
     slots = map sr_slot (filter (\<lambda>row. sr_status row = 1) rows)"
proof (induction e rows arbitrary: slots rule: coverage_rows_loop.induct)
  case (2 e row rows)
  have slot: "sr_slot row = e" and status: "sr_status row = 1 \<or> sr_status row = 2"
    using 2(3) by (auto split: if_splits)
  obtain rest where rest: "coverage_rows_loop (Suc e) rows = Some rest"
    "slots = (if sr_status row = 1 then e # rest else rest)"
    using 2(3) slot status by (auto split: if_splits)
  have "map sr_slot rows = [Suc e..<Suc e + length rows] \<and> (\<forall>row\<in>set rows. sr_status row = 1 \<or> sr_status row = 2) \<and>
     rest = map sr_slot (filter (\<lambda>row. sr_status row = 1) rows)"
    using 2(1) [OF _ _ rest(1)] 2(2) [OF _ _ _ rest(1)] slot status by auto
  moreover have "[e..<e + length (row # rows)] = e # [Suc e..<Suc e + length rows]"
    by (simp add: upt_conv_Cons del: upt_Suc)
  ultimately show ?case using slot status rest(2) by (simp del: upt_Suc)
qed simp

lemma slots_from_coverage_rows_proves:
  assumes "slots_from_coverage_rows rows start end = Some slots"
    and "\<forall>row\<in>set rows. (sr_status row = 1 \<longrightarrow> sr_slot row \<in> P) \<and> (sr_status row = 2 \<longrightarrow> sr_slot row \<notin> P)"
  shows "proves P (slot_coverage_new slots start end)" "start \<le> end"
proof -
  have se: "start \<le> end" and len: "length rows = Suc (end - start)" and loop: "coverage_rows_loop start rows = Some slots"
    using assms(1) by (auto simp: slots_from_coverage_rows_def checked_sub_def checked_add_def split: option.splits if_splits)
  note ex = coverage_rows_loop_exact [OF loop]
  have rows: "map sr_slot rows = [start..<Suc end]" using ex len se by simp
  have "sorted_wrt (<) (map sr_slot rows)" unfolding rows by (rule sorted_wrt_upt)
  then have "sorted_wrt (<) (map sr_slot (filter (\<lambda>row. sr_status row = 1) rows))"
    unfolding sorted_wrt_map by (rule sorted_wrt_filter)
  then have sorted: "sorted_wrt (<) slots" using ex by simp
  have "sr_slot ` set rows = {start..end}"
    using arg_cong [OF rows, of set] by (simp add: atLeastLessThanSuc_atLeastAtMost del: upt_Suc)
  then have "set slots = P \<inter> {start..end}" using ex assms(2) by fastforce
  then show "proves P (slot_coverage_new slots start end)" using sorted se by (intro proves_new)
  show "start \<le> end" by (rule se)
qed

lemma disk_cache_range_coverage_proves:
  assumes "query_true P query"
  shows "proves P (disk_cache_range_coverage steady query disk start end) \<and>
         covered (disk_cache_range_coverage steady query disk start end) \<subseteq> {start..end}"
proof (cases "\<not> dc_ready disk \<or> end < start")
  case True
  then show ?thesis by (simp add: disk_cache_range_coverage_def) (simp add: slot_coverage_default_def)
next
  case False
  let ?step = "\<lambda>acc (floor, tip). case read_covered_interval steady query disk floor tip of
      Some slots \<Rightarrow> slot_coverage_merge acc (slot_coverage_new slots floor tip) | None \<Rightarrow> acc"
  have read: "proves P (slot_coverage_new slots a b)" if "read_covered_interval steady query disk a b = Some slots" for a b slots
    using that assms slots_from_coverage_rows_proves(1)
    by (fastforce simp: read_covered_interval_def query_true_def split: option.splits if_splits)
  have "proves P (foldl ?step acc spans) \<and> covered (foldl ?step acc spans) \<subseteq> covered acc \<union> spans_set spans"
    if "proves P acc" for acc spans
    using that
  proof (induction spans arbitrary: acc)
    case (Cons p spans)
    obtain a b where p: "p = (a, b)" by (cases p)
    show ?case
    proof (cases "read_covered_interval steady query disk a b")
      case None
      then show ?thesis using Cons by (fastforce simp: p)
    next
      case (Some slots)
      let ?acc = "slot_coverage_merge acc (slot_coverage_new slots a b)"
      have "proves P ?acc" by (rule proves_merge [OF Cons.prems read [OF Some]])
      moreover have "covered ?acc = covered acc \<union> {a..b}" by (simp add: slot_coverage_new_def)
      ultimately show ?thesis using Cons.IH [of ?acc] Some by (simp add: p) blast
    qed
  qed simp
  from this [OF proves_default, of "coverage_map_intersections (dc_coverage disk) (max start (dc_min_retained disk)) end"]
  show ?thesis using False
    by (simp add: disk_cache_range_coverage_def coverage_intersections_set)
      (auto simp: slot_coverage_default_def)
qed

section \<open>The sources as interpretations\<close>

lemma chain_coverage_below: "ls \<noteq> [] \<Longrightarrow> covered (chain_coverage ls a b) \<subseteq> {..lk_slot (hd ls)}"
  by (auto simp: chain_coverage_def slot_coverage_default_def slot_coverage_new_def Let_def split: list.splits)

lemma head_follows_proves:
  assumes "head_follows P L c hc" "head_coverage_chain hc (tip_slot t) c = Some ls" "hc_tips hc ! rank c = Some t"
  shows "proves P (chain_coverage ls a b)"
proof -
  have inv: "head_ok hc" "links_true L hc" "ledger_ok L" using assms(1) by (simp_all add: head_follows_def)
  obtain h where h: "proves (fork_slots L h) (chain_coverage ls a b)"
    "covered (chain_coverage ls a b) \<noteq> {} \<Longrightarrow> \<exists>l. head_coverage_link hc (tip_slot t) c = Some l \<and> h = lk_hash l"
    using linked_chain_proves [OF inv assms(2), of a b] by metis
  show ?thesis
  proof (cases "covered (chain_coverage ls a b) = {}")
    case True
    then show ?thesis using h(1) by (simp add: proves_def)
  next
    case False
    then have fork: "fork_slots L h = P \<inter> {..tip_slot t}"
      using h(2) assms(1,3) by (auto simp: head_follows_def)
    have "ls \<noteq> []" using False covered_chain_coverage(2) by blast
    then have "lk_slot (hd ls) = tip_slot t"
      using chain_returns [OF inv(1), of "tip_slot t" c] assms(2) by (metis option.inject)
    then have "covered (chain_coverage ls a b) \<subseteq> {..tip_slot t}"
      using chain_coverage_below [OF \<open>ls \<noteq> []\<close>, of a b] by simp
    then show ?thesis using h(1) unfolding fork proves_def by blast
  qed
qed

lemma historical_coverage_follows:
  assumes "head_follows P L c hc"
  shows "\<exists>cov. historical_coverage hc a b c = Some cov \<and> proves P cov \<and> covered cov \<subseteq> {a..b}"
proof (cases "hc_connected hc \<and> (\<exists>t. hc_tips hc ! rank c = Some t)")
  case True
  then obtain t where t: "hc_connected hc" "hc_tips hc ! rank c = Some t" by blast
  have "head_ok hc" using assms by (simp add: head_follows_def)
  then obtain ls where ls: "head_coverage_chain hc (tip_slot t) c = Some ls"
    by (rule chain_returns)
  show ?thesis using t ls head_follows_proves [OF assms ls t(2)] covered_chain_coverage(1)
    by (simp add: historical_coverage_def)
next
  case False
  have "covered slot_coverage_default = {}" by (simp add: slot_coverage_default_def)
  then show ?thesis using False by (auto simp: historical_coverage_def)
qed

interpretation head_src: coverage_source P "head_follows P L c" "\<lambda>hc a b. historical_coverage hc a b c" for P L c
  by unfold_locales (rule historical_coverage_follows)

interpretation index_src: coverage_source P "index_sound P T" block_index_range_coverage for P T
proof unfold_locales
  show "\<exists>c. block_index_range_coverage s a b = Some c \<and> proves P c \<and> covered c \<subseteq> {a..b}"
    if "index_sound P T s" for s a b
    using range_coverage_proves [OF that, of a b] by auto
qed

interpretation disk_src: coverage_source P "\<lambda>(query, disk). query_true P query"
  "\<lambda>(query, disk) a b. Some (disk_cache_range_coverage steady query disk a b)" for P steady
  by unfold_locales (use disk_cache_range_coverage_proves in \<open>auto split: prod.splits\<close>)

section \<open>Answering a range\<close>

text \<open>Two ledgers that agree off the slots a proof already covers are interchangeable for the rest.\<close>

definition agree_off :: "slot set \<Rightarrow> slot set \<Rightarrow> slot set \<Rightarrow> bool" where
  "agree_off C P R \<longleftrightarrow> (\<forall>x. x \<notin> C \<longrightarrow> (x \<in> P \<longleftrightarrow> x \<in> R))"

lemma proves_agree:
  "proves P c \<Longrightarrow> agree_off C P R \<Longrightarrow> covered c \<inter> C = {} \<Longrightarrow> proves R c"
  unfolding proves_def agree_off_def by blast

lemma gaps_avoid:
  assumes "intervals_ordered c" "(a, b) \<in> set (slot_coverage_gaps c start end)"
  shows "{a..b} \<inter> covered c = {}" "{a..b} \<subseteq> {start..end}"
proof -
  have "{a..b} \<subseteq> spans_set (slot_coverage_gaps c start end)" using assms(2) by auto
  then have "{a..b} \<subseteq> {start..end} - covered c"
    using gaps_set [of c start "end"] assms(1) by (simp add: intervals_ordered_def)
  then show "{a..b} \<inter> covered c = {}" "{a..b} \<subseteq> {start..end}" by blast+
qed

lemma disk_coverage_proves:
  assumes query: "query_true P (src_query src)" and p0: "proves R prf" "covered prf \<subseteq> {br_start rng..br_end rng}"
    and agree: "agree_off (covered prf) P R" and out: "out = disk_coverage state src rng prf"
  shows "proves R out \<and> covered prf \<subseteq> covered out \<and> covered out \<subseteq> {br_start rng..br_end rng}"
proof (cases "st_disk_cache state")
  case None
  then show ?thesis using p0 by (simp add: out disk_coverage_def)
next
  case (Some disk)
  let ?cover = "disk_cache_range_coverage (src_steady src) (src_query src) disk"
  let ?step = "\<lambda>acc (start, end). slot_coverage_merge acc (?cover start end)"
  let ?W = "{br_start rng..br_end rng}"
  have ordered: "intervals_ordered prf" using p0(1) by (simp add: proves_def)
  have gap: "proves R (?cover a b) \<and> covered (?cover a b) \<subseteq> ?W"
    if "(a, b) \<in> set (slot_coverage_gaps prf (br_start rng) (br_end rng))" for a b
  proof -
    note c = disk_cache_range_coverage_proves [OF query, of "src_steady src" disk a b]
    have "covered (?cover a b) \<inter> covered prf = {}" "covered (?cover a b) \<subseteq> ?W"
      using c gaps_avoid [OF ordered that] by blast+
    then show ?thesis using proves_agree [OF _ agree] c by blast
  qed
  have "proves R (foldl ?step acc gaps) \<and> covered acc \<subseteq> covered (foldl ?step acc gaps) \<and> covered (foldl ?step acc gaps) \<subseteq> ?W"
    if "set gaps \<subseteq> set (slot_coverage_gaps prf (br_start rng) (br_end rng))" "proves R acc" "covered acc \<subseteq> ?W" for acc gaps
    using that
  proof (induction gaps arbitrary: acc)
    case (Cons p gaps)
    obtain a b where p: "p = (a, b)" by (cases p)
    have g: "proves R (?cover a b)" "covered (?cover a b) \<subseteq> ?W" using gap [of a b] Cons.prems(1) by (auto simp: p)
    let ?acc = "slot_coverage_merge acc (?cover a b)"
    have "proves R ?acc" "covered ?acc \<subseteq> ?W" "covered acc \<subseteq> covered ?acc"
      using proves_merge [OF Cons.prems(2) g(1)] g(2) Cons.prems(3) by auto
    then show ?case using Cons.IH [of ?acc] Cons.prems(1) by (simp add: p)
  qed simp
  from this [OF order_refl p0] show ?thesis using Some by (simp add: out disk_coverage_def)
qed

lemma fill_gaps_exact:
  assumes "primary_exact P src" "agree_off C P R" "spans_set gaps \<inter> C = {}"
  shows "sorted_wrt (<) slots \<Longrightarrow> set slots = R \<inter> S \<Longrightarrow>
    fill_gaps src gaps slots =
      (if list_all (\<lambda>(a, b). \<exists>rows. src_primary src a b = Inr rows) gaps
       then Slots (sorted_list_of_set (R \<inter> (S \<union> spans_set gaps))) else Internal_error)"
  using assms(3)
proof (induction gaps arbitrary: slots S)
  case Nil
  have "slots = sorted_list_of_set (set slots)" using Nil(1) by (simp add: strict_sorted_equal)
  then show ?case using Nil(2) by simp
next
  case (Cons p gaps)
  obtain a b where p: "p = (a, b)" by (cases p)
  show ?case
  proof (cases "src_primary src a b")
    case (Inl e)
    then show ?thesis by (simp add: p)
  next
    case (Inr rows)
    have rows: "sorted_wrt (<) rows" "set rows = P \<inter> {a..b}"
      using assms(1) Inr by (auto simp: primary_exact_def)
    have "{a..b} \<inter> C = {}" using Cons.prems(3) by (auto simp: p)
    then have "set rows = R \<inter> {a..b}" using rows(2) assms(2) by (auto simp: agree_off_def)
    then have "set (merge_sorted_block_slots slots rows) = R \<inter> (S \<union> {a..b})"
      using merge_sorted_block_slots_sorted(2) [OF Cons.prems(1) rows(1)] Cons.prems(2) by auto
    moreover have "spans_set gaps \<inter> C = {}" using Cons.prems(3) by auto
    ultimately show ?thesis
      using Cons.IH [OF merge_sorted_block_slots_sorted(1) [OF Cons.prems(1) rows(1)]] Inr
      by (simp add: p Un_assoc)
  qed
qed

text \<open>The slots a response should list: the head's fork where the head has proof, the ledger elsewhere.\<close>

definition overlay :: "slot_coverage \<Rightarrow> slot set \<Rightarrow> slot set \<Rightarrow> slot set" where
  "overlay head Q P = {x. if x \<in> covered head then x \<in> Q else x \<in> P}"

lemma memory_coverage_overlay:
  assumes "state_sound P T state" "proves Q (br_head rng)" "covered (br_head rng) \<subseteq> {br_start rng..br_end rng}"
  shows "\<exists>pf changed. memory_coverage state rng = Some (pf, changed) \<and>
    (changed \<longleftrightarrow> (\<exists>x. x \<in> covered (br_head rng) \<and> x \<in> indexed_slots state \<and> (x \<in> P) \<noteq> (x \<in> Q))) \<and>
    (if changed then pf = slot_coverage_default
     else proves (overlay (br_head rng) Q P) pf \<and> covered (br_head rng) \<subseteq> covered pf \<and>
          covered pf \<subseteq> {br_start rng..br_end rng})"
proof -
  let ?h = "br_head rng" and ?W = "{br_start rng..br_end rng}"
  let ?R = "overlay ?h Q P"
  have head: "proves ?R ?h" using assms(2) by (auto simp: proves_def overlay_def)
  show ?thesis
  proof (cases "Option.bind (st_disk_cache state) dc_block_index")
    case None
    then show ?thesis
      using head assms(3)
      by (intro exI [of _ "br_head rng"] exI [of _ False]) (simp add: memory_coverage_def indexed_slots_def)
  next
    case (Some index)
    then have "index_sound P T index"
      using assms(1) by (auto simp: state_sound_def disk_sound_def bind_eq_Some_conv)
    then obtain idx where idx: "block_index_range_coverage index (br_start rng) (br_end rng) = Some idx"
      "proves P idx" "covered idx = coverage_slots (bi_coverage index) \<inter> ?W"
      using range_coverage_proves [of P T index "br_start rng" "br_end rng"] by blast
    obtain changed m where m: "slot_coverage_merge_checked ?h idx = (changed, m)" by fastforce
    have changed: "changed \<longleftrightarrow> disagreement Q ?h P idx \<noteq> {}"
      using m conflicts_cover_disagreement(2) [OF assms(2) idx(2)] by (auto simp: merge_checked_unfold)
    have iff: "changed \<longleftrightarrow> (\<exists>x. x \<in> covered ?h \<and> x \<in> indexed_slots state \<and> (x \<in> P) \<noteq> (x \<in> Q))"
      unfolding changed disagreement_def idx(3) indexed_slots_def Some option.case using assms(3) by blast
    show ?thesis
    proof (cases changed)
      case True
      then show ?thesis using Some idx(1) m iff
        by (intro exI [of _ slot_coverage_default] exI [of _ True]) (simp add: memory_coverage_def)
    next
      case False
      then have "proves ?R idx"
        using changed idx(2) by (auto simp: proves_def overlay_def disagreement_def)
      then have "proves ?R m" using merge_checked_one_ledger(2) [OF head, of idx] m by simp
      moreover have "covered m = covered ?h \<union> covered idx"
        using merge_checked_unchanged [of ?h idx] m False by simp
      ultimately show ?thesis using Some idx(1,3) m False assms(3) iff
        by (intro exI [of _ m] exI [of _ False]) (simp add: memory_coverage_def)
    qed
  qed
qed

lemma response_for_range_exact:
  assumes "state_sound P T state" "query_true P (src_query src)" "primary_exact P src"
    and "\<forall>a b. \<exists>rows. src_primary src a b = Inr rows"
    and "proves Q (br_head rng)" "covered (br_head rng) \<subseteq> {br_start rng..br_end rng}"
  shows "get_block_slots_response_for_range state src rng =
    (let (pf, changed) = the (memory_coverage state rng);
         R = (if changed then P else overlay (br_head rng) Q P)
     in if br_authoritative_head_tip rng \<and> changed then Some Internal_error
        else Some (Slots (sorted_list_of_set (R \<inter> {br_start rng..br_end rng}))))"
proof -
  let ?W = "{br_start rng..br_end rng}"
  from memory_coverage_overlay [OF assms(1,5,6)] obtain pf0 changed where
    mem: "memory_coverage state rng = Some (pf0, changed)" and
    c: "if changed then pf0 = slot_coverage_default
      else proves (overlay (br_head rng) Q P) pf0 \<and> covered (br_head rng) \<subseteq> covered pf0 \<and> covered pf0 \<subseteq> ?W"
    by blast
  define R where "R = (if changed then P else overlay (br_head rng) Q P)"
  have empty: "covered slot_coverage_default = {}" by (simp add: slot_coverage_default_def)
  have p0: "proves R pf0" "covered pf0 \<subseteq> ?W"
    using c empty by (auto simp: R_def split: if_splits)
  have agree: "agree_off (covered pf0) P R"
    using c by (auto simp: R_def agree_off_def overlay_def split: if_splits)
  define pf where "pf = disk_coverage state src rng pf0"
  note d = disk_coverage_proves [OF assms(2) p0 agree pf_def]
  have gaps: "spans_set (slot_coverage_gaps pf (br_start rng) (br_end rng)) = ?W - covered pf"
    using gaps_set [of "pf"] d by (simp add: proves_def intervals_ordered_def)
  have "sorted_wrt (<) (sc_slots pf)" "set (sc_slots pf) = R \<inter> covered pf"
    using d by (simp_all add: proves_def)
  moreover have "spans_set (slot_coverage_gaps pf (br_start rng) (br_end rng)) \<inter> covered pf0 = {}"
    using gaps d by blast
  ultimately have "fill_gaps src (slot_coverage_gaps pf (br_start rng) (br_end rng)) (sc_slots pf) =
      Slots (sorted_list_of_set (R \<inter> (covered pf \<union> (?W - covered pf))))"
    using fill_gaps_exact [OF assms(3) agree] assms(4) gaps by (simp add: list_all_iff split_beta)
  moreover have "covered pf \<union> (?W - covered pf) = ?W" using d by blast
  ultimately show ?thesis
    by (simp add: get_block_slots_response_for_range_def mem Let_def R_def flip: pf_def)
qed

lemma trusted_chain_iff:
  assumes "head_ok hc"
  shows "(case trusted_chain hc c now of
      None \<Rightarrow> False
    | Some (Inl _) \<Rightarrow> \<forall>t. \<not> tip_trusted hc c now t
    | Some (Inr (s, chain)) \<Rightarrow>
        \<exists>t. tip_trusted hc c now t \<and> hc_tips hc ! rank c = Some t \<and> s = tip_slot t \<and>
            head_coverage_chain hc (tip_slot t) c = Some chain)"
proof (cases "hc_connected hc \<and> (\<exists>t. hc_tips hc ! rank c = Some t)")
  case False
  then show ?thesis by (auto simp: trusted_chain_def tip_trusted_def split: option.splits)
next
  case True
  then obtain t where t: "hc_connected hc" "hc_tips hc ! rank c = Some t" by blast
  obtain chain where ch: "head_coverage_chain hc (tip_slot t) c = Some chain" "chain \<noteq> [] \<Longrightarrow> lk_slot (hd chain) = tip_slot t"
    using chain_returns [OF assms, of "tip_slot t" c] by metis
  have "tip_max_age < sat_sub now (tip_advanced t) \<longleftrightarrow> \<not> now \<le> tip_advanced t + tip_max_age"
    by (auto simp: sat_sub_def)
  then show ?thesis using t ch
    by (cases chain) (auto simp: trusted_chain_def tip_trusted_def Let_def Suc_le_eq)
qed

lemma resolve_range_follows:
  assumes "\<forall>cache. st_head_cache state = Some cache \<longrightarrow> head_follows P L c (hd_coverage cache)"
  shows "\<exists>rng. resolve_range state src start (Some e) c now = Some (Inr rng) \<and> br_start rng = start \<and>
    br_end rng = served_end state c now e \<and> \<not> br_authoritative_head_tip rng \<and> proves P (br_head rng) \<and>
    covered (br_head rng) \<subseteq> {start..br_end rng}"
proof (cases "st_head_cache state")
  case None
  have "covered slot_coverage_default = {}" by (simp add: slot_coverage_default_def)
  then show ?thesis using None by (simp add: resolve_range_def served_end_def)
next
  case (Some cache)
  let ?hc = "hd_coverage cache"
  have follows: "head_follows P L c ?hc" using assms Some by simp
  then have ok: "head_ok ?hc" by (simp add: head_follows_def)
  obtain cov where cov: "historical_coverage ?hc start e c = Some cov" "proves P cov" "covered cov \<subseteq> {start..e}"
    using historical_coverage_follows [OF follows] by blast
  show ?thesis
  proof (cases "hd_clamp_explicit_end cache")
    case False
    then show ?thesis using Some cov
      by (simp add: resolve_range_def served_end_def head_coverage_snapshot_def Let_def split: option.split)
  next
    case True
    note tr = trusted_chain_iff [OF ok, of c now]
    then consider x where "trusted_chain ?hc c now = Some (Inl x)"
      | tip chain where "trusted_chain ?hc c now = Some (Inr (tip, chain))"
      by (metis (no_types, lifting) old.sum.exhaust option.exhaust option.simps(4) surj_pair)
    then show ?thesis
    proof cases
      case 1
      then have "served_end state c now e = e" using tr Some by (auto simp: served_end_def split: option.split)
      then show ?thesis using 1 Some True cov
        by (simp add: resolve_range_def head_coverage_snapshot_clamped_def Let_def)
    next
      case 2
      then obtain t where t: "tip_trusted ?hc c now t" "tip = tip_slot t" "hc_tips ?hc ! rank c = Some t"
        "head_coverage_chain ?hc (tip_slot t) c = Some chain"
        using tr by auto
      have "served_end state c now e = min e tip" using t Some True by (simp add: served_end_def)
      moreover have "proves P (chain_coverage chain start (min e tip))"
        using head_follows_proves [OF follows t(4,3)] .
      ultimately show ?thesis using Some True 2 covered_chain_coverage(1)
        by (simp add: resolve_range_def head_coverage_snapshot_clamped_def Let_def)
    qed
  qed
qed

lemma served_end_le: "served_end state c now e \<le> e"
  by (simp add: served_end_def split: option.split)

lemma overlay_same: "overlay head P P = P"
  by (simp add: overlay_def)

lemma response_one_ledger:
  assumes "state_sound P T state" "query_true P (src_query src)" "primary_exact P src"
    and "\<forall>a b. \<exists>rows. src_primary src a b = Inr rows"
    and "proves P (br_head rng)" "covered (br_head rng) \<subseteq> {br_start rng..br_end rng}"
  shows "get_block_slots_response_for_range state src rng =
    Some (Slots (sorted_list_of_set (P \<inter> {br_start rng..br_end rng})))"
proof -
  obtain pf changed where mem: "memory_coverage state rng = Some (pf, changed)" "\<not> changed"
    using memory_coverage_overlay [OF assms(1,5,6)] by fastforce
  then show ?thesis
    using response_for_range_exact [OF assms] by (simp add: overlay_same)
qed

section \<open>Properties\<close>

text \<open>
  C1. A valid getBlocks request over an explicit range is answered with exactly the ledger's blocks from
  \<open>start\<close> to the served end, in ascending order, whatever mixture of head cache, block-time index, disk
  cache and primary the answer is put together from.  The served end is the requested one, unless
  clamping is on and the head's tip at the requested commitment is trusted and lower: then it is that tip.
\<close>

theorem get_blocks_exact:
  assumes "state_sound P T state" "query_true P (src_query src)" "primary_exact P src"
    and "\<forall>a b. \<exists>rows. src_primary src a b = Inr rows"
    and "\<forall>cache. st_head_cache state = Some cache \<longrightarrow> head_follows P L c (hd_coverage cache)"
    and "from_value (J_object config) = Some (Some c)" "\<not> reject_unsupported_blocks_commitment state c"
    and "start \<le> e" "e - start \<le> max_get_blocks_range"
  shows "handle_get_blocks from_value state src now
      (Some [J_number (Pos_int start), J_number (Pos_int e), J_object config]) =
        Some (Slots (sorted_list_of_set (P \<inter> {start..served_end state c now e})))"
proof -
  obtain rng where rng: "resolve_range state src start (Some e) c now = Some (Inr rng)" "br_start rng = start"
    "br_end rng = served_end state c now e" "proves P (br_head rng)" "covered (br_head rng) \<subseteq> {start..br_end rng}"
    using resolve_range_follows [OF assms(5)] by blast
  have "get_blocks_range state src start (Some e) c now =
      Some (Slots (sorted_list_of_set (P \<inter> {start..br_end rng})))"
    using response_one_ledger [OF assms(1-4), of rng] rng assms(9) served_end_le [of state c now e]
    by (auto simp: get_blocks_range_def sat_sub_def)
  then show ?thesis using rng(3) assms(6-9)
    by (simp add: handle_get_blocks_def get_blocks_end_param_def parse_get_blocks_config_def is_null_def)
qed

text \<open>
  A sample: blocks at 10, 13 and 16, of which the head cache links the first two, with clamping on as by
  default, and a disk cache that covers the slots 5 to 9.
\<close>

definition sample_ledger :: ledger where
  "sample_ledger = [[10] \<mapsto> (10, 9, [9]), [13] \<mapsto> (13, 10, [10])]"

definition sample_head :: head_coverage where
  "sample_head = foldl head_apply head_coverage_default
     [Connect, Select_bank \<lparr>lk_slot = 10, lk_hash = [10], lk_parent = 9, lk_parent_hash = [9]\<rparr>,
      Publish 10 Finalized, Observe 10 Finalized 5,
      Select_bank \<lparr>lk_slot = 13, lk_hash = [13], lk_parent = 10, lk_parent_hash = [10]\<rparr>,
      Publish 13 Finalized, Observe 13 Finalized 7]"

definition sample_state :: app_state where
  "sample_state = \<lparr>st_head_cache = Some \<lparr>hd_coverage = sample_head, hd_clamp_explicit_end = True\<rparr>,
     st_disk_cache = Some \<lparr>dc_ready = True, dc_min_retained = 0,
        dc_coverage = coverage_map_insert_range 5 9 coverage_map_new, dc_block_index = None\<rparr>\<rparr>"

definition sample_sources :: range_sources where
  "sample_sources = \<lparr>src_steady = (\<lambda>_ _. True),
     src_query = (\<lambda>a b. Some (map (\<lambda>s. \<lparr>sr_slot = s, sr_status = (if s \<in> {10, 13, 16} then 1 else 2)\<rparr>) [a..<Suc b])),
     src_latest = Inr 16,
     src_primary = (\<lambda>a b. Inr (filter (\<lambda>s. a \<le> s \<and> s \<le> b) [10, 13, 16]))\<rparr>"

lemma sample_fork: "fork_slots sample_ledger [13] = {10, 13}"
proof -
  have L: "sample_ledger [13] = Some (13, 10, [10])" "sample_ledger [10] = Some (10, 9, [9])"
    "sample_ledger [9] = None" by (simp_all add: sample_ledger_def)
  have anc: "x = [13] \<or> x = [10] \<or> x = [9]" if "ancestor sample_ledger [13] x" for x
    using that
  proof induction
    case (ancestor_step x s p ph)
    then show ?case using L by auto
  qed simp
  have a: "ancestor sample_ledger [13] [13]" by (rule ancestor_self)
  then have b: "ancestor sample_ledger [13] [10]" by (rule ancestor_step [where s = 13 and p = 10]) (simp_all add: L)
  show ?thesis
  proof (intro equalityI subsetI)
    fix s assume "s \<in> fork_slots sample_ledger [13]"
    then obtain x p ph where "ancestor sample_ledger [13] x" "sample_ledger x = Some (s, p, ph)"
      by (auto simp: fork_slots_def)
    then show "s \<in> {10, 13}" using anc [of x] L by auto
  next
    fix s :: nat assume "s \<in> {10, 13}"
    then show "s \<in> fork_slots sample_ledger [13]" using a b L by (auto simp: fork_slots_def)
  qed
qed

lemma sample_follows: "head_follows {10, 13, 16} sample_ledger Finalized sample_head"
proof -
  have ops: "list_all (head_op_true sample_ledger)
     [Connect, Select_bank \<lparr>lk_slot = 10, lk_hash = [10], lk_parent = 9, lk_parent_hash = [9]\<rparr>,
      Publish 10 Finalized, Observe 10 Finalized 5,
      Select_bank \<lparr>lk_slot = 13, lk_hash = [13], lk_parent = 10, lk_parent_hash = [10]\<rparr>,
      Publish 13 Finalized, Observe 13 Finalized 7]" by (simp add: link_true_def sample_ledger_def)
  have L: "ledger_ok sample_ledger" by (auto simp: ledger_ok_def sample_ledger_def split: if_splits)
  have ok: "head_ok sample_head" "links_true sample_ledger sample_head"
    unfolding sample_head_def using head_run_invariant [OF head_ok_default ops] by blast+
  have tip: "map_option tip_slot (hc_tips sample_head ! rank Finalized) = Some 13"
    "map_option lk_hash (head_coverage_link sample_head 13 Finalized) = Some [13]"
    unfolding sample_head_def by code_simp+
  have "fork_slots sample_ledger (lk_hash l) = {10, 13, 16} \<inter> {..tip_slot t}"
    if t: "hc_tips sample_head ! rank Finalized = Some t" "head_coverage_link sample_head (tip_slot t) Finalized = Some l"
    for t l
  proof -
    have "tip_slot t = 13" using tip(1) unfolding t(1) by simp
    then have "lk_hash l = [13]" "{10, 13, 16} \<inter> {..tip_slot t} = {10, 13}" using tip(2) t(2) by auto
    then show ?thesis using sample_fork by simp
  qed
  then show ?thesis unfolding head_follows_def using L ok by blast
qed

lemma sample_sources_true:
  "query_true {10, 13, 16} (src_query sample_sources)" "primary_exact {10, 13, 16} sample_sources"
  "\<forall>a b. \<exists>rows. src_primary sample_sources a b = Inr rows"
  by (auto simp: query_true_def primary_exact_def sample_sources_def)

lemma sample_state_sound: "state_sound {10, 13, 16} (\<lambda>_. None) sample_state"
  by (simp add: state_sound_def disk_sound_def sample_state_def cov.ok_insert cov.ok_empty is_u64_def u64_max_def)

lemma sample_served_end:
  "served_end sample_state Finalized 8 20 = 13" "served_end sample_state Finalized 2000000000 20 = 20"
  "served_end sample_state Finalized 8 17 = 13" "served_end sample_state Finalized 2000000000 17 = 17"
  unfolding sample_state_def sample_head_def by code_simp+

theorem get_blocks_exact_witness:
  "handle_get_blocks (\<lambda>_. Some (Some Finalized)) sample_state sample_sources 8
     (Some [J_number (Pos_int 8), J_number (Pos_int 20), J_object []]) = Some (Slots [10, 13]) \<and>
   handle_get_blocks (\<lambda>_. Some (Some Finalized)) sample_state sample_sources 2000000000
     (Some [J_number (Pos_int 8), J_number (Pos_int 20), J_object []]) = Some (Slots [10, 13, 16])"
proof -
  have "handle_get_blocks (\<lambda>_. Some (Some Finalized)) sample_state sample_sources now
      (Some [J_number (Pos_int 8), J_number (Pos_int 20), J_object []]) =
        Some (Slots (sorted_list_of_set ({10, 13, 16} \<inter> {8..served_end sample_state Finalized now 20})))" for now
    by (rule get_blocks_exact [OF sample_state_sound sample_sources_true, where L = sample_ledger])
      (simp_all add: sample_state_def sample_follows reject_unsupported_blocks_commitment_def max_get_blocks_range_def)
  moreover have "{10, 13, 16} \<inter> {8..13} = {10, 13::nat}" "{10, 13, 16} \<inter> {8..20} = {10, 13, 16::nat}" by auto
  ultimately show ?thesis using sample_served_end by simp
qed

text \<open>
  C25. A getBlocks request without an end, on a server with a head cache, ends at the head's own tip at the
  requested commitment and nowhere else: without a trusted tip it is refused with an internal error, with
  one it lists exactly the ledger's blocks up to that tip, nothing when the start is above the tip, and is
  refused when the range up to the tip is longer than the maximum.
\<close>

theorem get_blocks_open_end:
  assumes "state_sound P T state" "query_true P (src_query src)" "primary_exact P src"
    and "\<forall>a b. \<exists>rows. src_primary src a b = Inr rows"
    and "st_head_cache state = Some cache" "head_follows P L c (hd_coverage cache)"
    and "from_value (J_object config) = Some (Some c)"
  shows "handle_get_blocks from_value state src now (Some [J_number (Pos_int start), J_object config]) =
    Some (case hc_tips (hd_coverage cache) ! rank c of
        None \<Rightarrow> Internal_error
      | Some t \<Rightarrow>
          if \<not> tip_trusted (hd_coverage cache) c now t then Internal_error
          else if start + max_get_blocks_range < tip_slot t then Invalid_params Range_too_large
          else Slots (sorted_list_of_set (P \<inter> {start..tip_slot t})))"
proof -
  let ?hc = "hd_coverage cache"
  have h: "handle_get_blocks from_value state src now (Some [J_number (Pos_int start), J_object config]) =
      get_blocks_range state src start None c now"
    using assms(5,7) by (simp add: handle_get_blocks_def get_blocks_end_param_def parse_get_blocks_config_def is_null_def
        reject_unsupported_blocks_commitment_def)
  have ok: "head_ok ?hc" using assms(6) by (simp add: head_follows_def)
  note tr = trusted_chain_iff [OF ok, of c now]
  then consider x where "trusted_chain ?hc c now = Some (Inl x)"
    | tip chain where "trusted_chain ?hc c now = Some (Inr (tip, chain))"
    by (metis (no_types, lifting) old.sum.exhaust option.exhaust option.simps(4) surj_pair)
  then show ?thesis
  proof cases
    case 1
    then have "resolve_range state src start None c now = Some (Inl ())"
      using assms(5) by (simp add: resolve_range_def head_coverage_snapshot_def Let_def)
    then show ?thesis using tr 1 by (simp add: h get_blocks_range_def split: option.split)
  next
    case 2
    then obtain t where t: "tip_trusted ?hc c now t" "tip = tip_slot t" "hc_tips ?hc ! rank c = Some t"
      "head_coverage_chain ?hc (tip_slot t) c = Some chain"
      using tr by auto
    let ?rng = "\<lparr>br_start = start, br_end = tip, br_head = chain_coverage chain start tip, br_authoritative_head_tip = True\<rparr>"
    have res: "resolve_range state src start None c now = Some (Inr ?rng)"
      using 2 assms(5) by (simp add: resolve_range_def head_coverage_snapshot_def Let_def)
    have "proves P (br_head ?rng)" "covered (br_head ?rng) \<subseteq> {br_start ?rng..br_end ?rng}"
      using head_follows_proves [OF assms(6) t(4,3)] covered_chain_coverage(1) by simp_all
    from response_one_ledger [OF assms(1-4) this] show ?thesis
      by (auto simp: h get_blocks_range_def res t sat_sub_def)
  qed
qed

theorem get_blocks_open_end_witness:
  "handle_get_blocks (\<lambda>_. Some (Some Finalized)) sample_state sample_sources 8
     (Some [J_number (Pos_int 8), J_object []]) = Some (Slots [10, 13]) \<and>
   handle_get_blocks (\<lambda>_. Some (Some Finalized)) sample_state sample_sources 2000000000
     (Some [J_number (Pos_int 8), J_object []]) = Some Internal_error"
proof -
  let ?c = "\<lparr>hd_coverage = sample_head, hd_clamp_explicit_end = True\<rparr>"
  have st: "st_head_cache sample_state = Some ?c" "head_follows {10, 13, 16} sample_ledger Finalized (hd_coverage ?c)"
    by (simp_all add: sample_state_def sample_follows)
  have t: "hc_tips sample_head ! rank Finalized = Some \<lparr>tip_slot = 13, tip_advanced = 7\<rparr>"
    "tip_trusted sample_head Finalized 8 \<lparr>tip_slot = 13, tip_advanced = 7\<rparr>"
    "\<not> tip_trusted sample_head Finalized 2000000000 \<lparr>tip_slot = 13, tip_advanced = 7\<rparr>"
    unfolding sample_head_def by code_simp+
  have "{10, 13, 16} \<inter> {8..13} = {10, 13::nat}" by auto
  then show ?thesis
    using get_blocks_open_end [OF sample_state_sound sample_sources_true st, of "\<lambda>_. Some (Some Finalized)" "[]" 8 8]
      get_blocks_open_end [OF sample_state_sound sample_sources_true st, of "\<lambda>_. Some (Some Finalized)" "[]" 2000000000 8]
    by (simp add: t(1) [simplified] t(2,3) max_get_blocks_range_def)
qed

text \<open>
  C24. getBlocksWithLimit is a window of slots: with a limit between one and the maximum it answers with
  the ledger's blocks from \<open>start\<close> to \<open>start + limit - 1\<close> (saturating), that end being lowered to the
  head's tip when clamping is on and the tip is trusted, so never with more than \<open>limit\<close> of them; a limit
  of zero gives the empty list and one above the maximum is refused.
\<close>

theorem get_blocks_with_limit_window:
  assumes "state_sound P T state" "query_true P (src_query src)" "primary_exact P src"
    and "\<forall>a b. \<exists>rows. src_primary src a b = Inr rows"
    and "\<forall>cache. st_head_cache state = Some cache \<longrightarrow> head_follows P L Finalized (hd_coverage cache)"
    and "is_u64 start"
  shows "let r = handle_get_blocks_with_limit from_value state src now
                   (Some [J_number (Pos_int start), J_number (Pos_int limit)]);
             slots = sorted_list_of_set (P \<inter> {start..served_end state Finalized now (sat_add start (limit - 1))})
         in if max_get_blocks_range < limit then r = Some (Invalid_params Limit_too_large)
            else if limit = 0 then r = Some (Slots [])
            else r = Some (Slots slots) \<and> length slots \<le> limit"
proof -
  let ?w = "sat_add start (limit - 1)"
  let ?e = "served_end state Finalized now ?w"
  have supported: "\<not> reject_unsupported_blocks_commitment state Finalized"
    by (simp add: reject_unsupported_blocks_commitment_def)
  obtain rng where rng: "resolve_range state src start (Some ?w) Finalized now = Some (Inr rng)" "br_start rng = start"
    "br_end rng = ?e" "proves P (br_head rng)" "covered (br_head rng) \<subseteq> {start..br_end rng}"
    using resolve_range_follows [OF assms(5)] by blast
  have "?w \<le> start + (limit - 1)" by (simp add: sat_add_def)
  then have "?e \<le> start + (limit - 1)" using served_end_le [of state Finalized now ?w] by simp
  then have "card (P \<inter> {start..?e}) \<le> limit" if "0 < limit"
    using card_mono [of "{start..start + (limit - 1)}" "P \<inter> {start..?e}"] that
    by (simp add: le_infI2)
  moreover have "get_block_slots_response_for_range state src rng =
      Some (Slots (sorted_list_of_set (P \<inter> {start..?e})))"
    using response_one_ledger [OF assms(1-4), of rng] rng by simp
  ultimately show ?thesis using rng supported
    by (simp add: handle_get_blocks_with_limit_def parse_get_blocks_config_def sat_sub_def)
qed

theorem get_blocks_with_limit_window_witness:
  "handle_get_blocks_with_limit (\<lambda>_. None) sample_state sample_sources 8
     (Some [J_number (Pos_int 10), J_number (Pos_int 8)]) = Some (Slots [10, 13]) \<and>
   handle_get_blocks_with_limit (\<lambda>_. None) sample_state sample_sources 2000000000
     (Some [J_number (Pos_int 10), J_number (Pos_int 8)]) = Some (Slots [10, 13, 16])"
proof -
  have w: "sat_add 10 7 = 17" "is_u64 10" by (simp_all add: sat_add_def is_u64_def u64_max_def)
  have f: "\<forall>cache. st_head_cache sample_state = Some cache \<longrightarrow> head_follows {10, 13, 16} sample_ledger Finalized (hd_coverage cache)"
    by (simp add: sample_state_def sample_follows)
  have "{10, 13, 16} \<inter> {10..13} = {10, 13::nat}" "{10, 13, 16} \<inter> {10..17} = {10, 13, 16::nat}" by auto
  then show ?thesis
    using get_blocks_with_limit_window [OF sample_state_sound sample_sources_true f w(2), of "\<lambda>_. None" 8 8]
      get_blocks_with_limit_window [OF sample_state_sound sample_sources_true f w(2), of "\<lambda>_. None" 2000000000 8]
    by (simp add: w sample_served_end max_get_blocks_range_def)
qed

text \<open>
  C9. The head cache and the block-time index contradict each other when some slot that both vouch for
  holds a block on the head's fork \<open>Q\<close> but not in the finalized ledger \<open>P\<close>, or the other way round.
  Exactly then nothing from memory is kept: a range that ends at the head's own tip is refused, and any
  other is answered from disk and primary alone, with the blocks of \<open>P\<close>.  Without a contradiction the
  answer is \<open>Q\<close> where the head has proof and \<open>P\<close> elsewhere.
\<close>

theorem contradiction_drops_memory:
  assumes "state_sound P T state" "query_true P (src_query src)" "primary_exact P src"
    and "\<forall>a b. \<exists>rows. src_primary src a b = Inr rows"
    and "proves Q (br_head rng)" "covered (br_head rng) \<subseteq> {br_start rng..br_end rng}"
  shows "let W = {br_start rng..br_end rng};
             contradiction = (\<exists>x. x \<in> covered (br_head rng) \<and> x \<in> indexed_slots state \<and> (x \<in> P) \<noteq> (x \<in> Q))
         in (\<exists>pf. memory_coverage state rng = Some (pf, contradiction) \<and> (contradiction \<longrightarrow> pf = slot_coverage_default)) \<and>
            get_block_slots_response_for_range state src rng = Some
              (if contradiction then
                 (if br_authoritative_head_tip rng then Internal_error else Slots (sorted_list_of_set (P \<inter> W)))
               else Slots (sorted_list_of_set (overlay (br_head rng) Q P \<inter> W)))"
proof -
  obtain pf changed where
    mem: "memory_coverage state rng = Some (pf, changed)"
    "changed \<longleftrightarrow> (\<exists>x. x \<in> covered (br_head rng) \<and> x \<in> indexed_slots state \<and> (x \<in> P) \<noteq> (x \<in> Q))"
    "if changed then pf = slot_coverage_default
     else proves (overlay (br_head rng) Q P) pf \<and> covered (br_head rng) \<subseteq> covered pf \<and>
          covered pf \<subseteq> {br_start rng..br_end rng}"
    using memory_coverage_overlay [OF assms(1,5,6)] by blast
  show ?thesis
    unfolding Let_def mem(2) [symmetric] using response_for_range_exact [OF assms] mem(1,3) by simp
qed

text \<open>An index that vouches for the empty slots 11 and 12 contradicts a head with a block at 12.\<close>

definition sample_index :: block_index where
  "sample_index = (empty_index 10000000 10)\<lparr>bi_segments := [(0, new_segment)],
     bi_coverage := coverage_map_insert_range 11 12 coverage_map_new\<rparr>"

definition sample_indexed :: app_state where
  "sample_indexed = sample_state\<lparr>st_disk_cache := map_option (\<lambda>d. d\<lparr>dc_block_index := Some sample_index\<rparr>)
     (st_disk_cache sample_state)\<rparr>"

definition sample_range :: "bool \<Rightarrow> block_range" where
  "sample_range authoritative = \<lparr>br_start = 8, br_end = 14, br_head = \<lparr>sc_slots = [12], sc_intervals = [(12, 12)]\<rparr>,
     br_authoritative_head_tip = authoritative\<rparr>"

lemma sample_index_sound: "index_sound {10, 13, 16} (\<lambda>_. None) sample_index"
proof -
  have seg: "hm_get [(0, new_segment)] i = (if i = 0 then Some new_segment else None)" for i :: nat
    by (simp add: hm_get_eq)
  have "coverage_ok (coverage_map_insert_range 11 12 coverage_map_new)"
    by (simp add: cov.ok_insert cov.ok_empty is_u64_def u64_max_def)
  moreover have "coverage_slots (coverage_map_insert_range 11 12 coverage_map_new) = {11..12}"
    by (simp add: cov.slots_insert cov.ok_empty cov.slots_empty is_u64_def u64_max_def)
  moreover have "s div seg_size = 0" if "s \<in> {11..12}" for s
    using that by (simp add: segment_slots_count_def)
  ultimately show ?thesis
    unfolding index_sound_def index_ok_def segments_true_def coverage_backed_def sample_index_def empty_index_def
    by (auto simp: seg hm_ok_def hm_len_def max_segments_def segment_memory_bytes_def segment_slots_count_def u64_max_def
        cov.ok_empty split: if_splits)
qed

theorem contradiction_drops_memory_witness:
  "memory_coverage sample_indexed (sample_range True) = Some (slot_coverage_default, True) \<and>
   get_block_slots_response_for_range sample_indexed sample_sources (sample_range True) = Some Internal_error \<and>
   get_block_slots_response_for_range sample_indexed sample_sources (sample_range False) = Some (Slots [10, 13]) \<and>
   get_block_slots_response_for_range sample_state sample_sources (sample_range True) = Some (Slots [10, 12, 13])"
proof -
  have cov: "coverage_slots (coverage_map_insert_range 11 12 coverage_map_new) = {11..12}"
    by (simp add: cov.slots_insert cov.ok_empty cov.slots_empty is_u64_def u64_max_def)
  have slots: "indexed_slots sample_indexed = {11..12}" "indexed_slots sample_state = {}"
    by (simp_all add: indexed_slots_def sample_indexed_def sample_state_def sample_index_def cov)
  have sound: "state_sound {10, 13, 16} (\<lambda>_. None) sample_indexed"
    using sample_state_sound sample_index_sound
    by (simp add: state_sound_def disk_sound_def sample_indexed_def sample_state_def)
  have r: "br_start (sample_range a) = 8" "br_end (sample_range a) = 14" "covered (br_head (sample_range a)) = {12}"
    "br_authoritative_head_tip (sample_range a) = a" for a
    by (simp_all add: sample_range_def)
  have p: "proves {12} (br_head (sample_range a))" "covered (br_head (sample_range a)) \<subseteq> {br_start (sample_range a)..br_end (sample_range a)}" for a
    by (auto simp: sample_range_def proves_def intervals_ordered_def)
  have w: "{10, 13, 16} \<inter> {8..14} = {10, 13::nat}" by auto
  have o: "overlay (br_head (sample_range a)) {12} {10, 13, 16} \<inter> {8..14} = {10, 12, 13}" for a
    by (auto simp: overlay_def r split: if_splits)
  show ?thesis
    using contradiction_drops_memory [OF sound sample_sources_true p, of True]
      contradiction_drops_memory [OF sound sample_sources_true p, of False]
      contradiction_drops_memory [OF sample_state_sound sample_sources_true p, of True]
    by (simp add: Let_def slots r w o)
qed

text \<open>
  C29. The merge of two ascending slot lists is the ascending enumeration of their union, each slot once.
\<close>

theorem merge_sorted_is_union:
  assumes "sorted_wrt (<) clickhouse_slots" "sorted_wrt (<) head_slots"
  shows "merge_sorted_block_slots clickhouse_slots head_slots =
    sorted_list_of_set (set clickhouse_slots \<union> set head_slots)"
  using merge_sorted_block_slots_sorted [OF assms] by (simp add: strict_sorted_equal)

theorem merge_sorted_is_union_witness:
  "merge_sorted_block_slots [1, 4, 9] [2, 4, 7] = sorted_list_of_set {1, 2, 4, 7, 9::nat}"
  using merge_sorted_is_union [of "[1, 4, 9]" "[2, 4, 7]"] by (simp add: insert_commute)

end
