(* ===== verification/Poh.thy ===== *)
theory Poh
  imports Superbank_Prelude
begin

text \<open>
  The Proof-of-History arithmetic of the verifier (\<^verbatim>\<open>src/crates/superbank-verify/src/verify/poh.rs\<close>).  The
  hash function of the \<open>sha2\<close> crate is the parameter \<open>sha\<close>, from byte lists to hashes; what the lemmas
  need of it is only that its output has 32 bytes.
\<close>

type_synonym bytes = "nat list"

section \<open>Model\<close>

definition sha256_chain :: "(bytes \<Rightarrow> bytes) \<Rightarrow> bytes \<Rightarrow> bytes" where
  "sha256_chain sha hash = sha hash"

definition sha256_mixin :: "(bytes \<Rightarrow> bytes) \<Rightarrow> bytes \<Rightarrow> bytes \<Rightarrow> bytes" where
  "sha256_mixin sha hash mixin = sha (hash @ mixin)"

fun hash_loop :: "(bytes \<Rightarrow> bytes) \<Rightarrow> nat \<Rightarrow> bytes \<Rightarrow> bytes" where
  "hash_loop sha 0 hash = hash"
| "hash_loop sha (Suc n) hash = hash_loop sha n (sha256_chain sha hash)"

definition next_hash :: "(bytes \<Rightarrow> bytes) \<Rightarrow> bytes \<Rightarrow> nat \<Rightarrow> bytes option \<Rightarrow> bytes" where
  "next_hash sha start num_hashes mixin =
     (if num_hashes = 0 \<and> mixin = None then start
      else
        let hash = hash_loop sha (num_hashes - 1) start
        in case mixin of None \<Rightarrow> sha256_chain sha hash | Some m \<Rightarrow> sha256_mixin sha hash m)"

definition merkle_leaf :: "(bytes \<Rightarrow> bytes) \<Rightarrow> bytes \<Rightarrow> bytes" where
  "merkle_leaf sha signature = sha (0 # signature)"

definition merkle_node :: "(bytes \<Rightarrow> bytes) \<Rightarrow> bytes \<Rightarrow> bytes \<Rightarrow> bytes" where
  "merkle_node sha left right = sha (1 # left @ right)"

fun merkle_next_level :: "(bytes \<Rightarrow> bytes) \<Rightarrow> bytes list \<Rightarrow> bytes list" where
  "merkle_next_level sha [] = []"
| "merkle_next_level sha [left] = [merkle_node sha left left]"
| "merkle_next_level sha (left # right # rest) = merkle_node sha left right # merkle_next_level sha rest"

lemma length_merkle_next_level: "length (merkle_next_level sha level) = Suc (length level) div 2"
  by (induction sha level rule: merkle_next_level.induct) auto

function merkle_reduce :: "(bytes \<Rightarrow> bytes) \<Rightarrow> bytes list \<Rightarrow> bytes" where
  "merkle_reduce sha level =
     (if 1 < length level then merkle_reduce sha (merkle_next_level sha level) else level ! 0)"
  by auto
termination by (relation "measure (\<lambda>(_, level). length level)") (auto simp: length_merkle_next_level)

declare merkle_reduce.simps [simp del]

definition signature_merkle_root :: "(bytes \<Rightarrow> bytes) \<Rightarrow> bytes list \<Rightarrow> bytes" where
  "signature_merkle_root sha signatures =
     (if signatures = [] then replicate 32 0 else merkle_reduce sha (map (merkle_leaf sha) signatures))"

section \<open>Hash chains\<close>

lemma hash_loop_funpow: "hash_loop sha n hash = (sha ^^ n) hash"
  by (induction n arbitrary: hash) (simp_all add: sha256_chain_def funpow_swap1)

lemma next_hash_tick: "next_hash sha start n None = (sha ^^ n) start"
proof (cases n)
  case (Suc k)
  then show ?thesis by (simp add: next_hash_def hash_loop_funpow sha256_chain_def)
qed (simp add: next_hash_def)

lemma next_hash_record: "next_hash sha start n (Some m) = sha ((sha ^^ (n - 1)) start @ m)"
  by (simp add: next_hash_def hash_loop_funpow sha256_mixin_def)

section \<open>Merkle roots\<close>

text \<open>The messages that are hashed on the way to a root: those of the leaves, then those of every level.\<close>

fun node_messages :: "bytes list \<Rightarrow> bytes list" where
  "node_messages [] = []"
| "node_messages [left] = [1 # left @ left]"
| "node_messages (left # right # rest) = (1 # left @ right) # node_messages rest"

lemma length_node_messages: "length (node_messages level) = Suc (length level) div 2"
  by (induction level rule: node_messages.induct) auto

function level_messages :: "(bytes \<Rightarrow> bytes) \<Rightarrow> bytes list \<Rightarrow> bytes list" where
  "level_messages sha level =
     (if 1 < length level
      then node_messages level @ level_messages sha (map sha (node_messages level)) else [])"
  by auto
termination by (relation "measure (\<lambda>(_, level). length level)") (auto simp: length_node_messages)

declare level_messages.simps [simp del]

definition merkle_messages :: "(bytes \<Rightarrow> bytes) \<Rightarrow> bytes list \<Rightarrow> bytes list" where
  "merkle_messages sha signatures =
     map (Cons 0) signatures @ level_messages sha (map sha (map (Cons 0) signatures))"

definition hash_sized :: "(bytes \<Rightarrow> bytes) \<Rightarrow> bool" where
  "hash_sized sha \<longleftrightarrow> (\<forall>x. length (sha x) = 32)"

text \<open>Two different messages, one of each list, with the same hash.\<close>

definition colliding :: "(bytes \<Rightarrow> bytes) \<Rightarrow> bytes list \<Rightarrow> bytes list \<Rightarrow> bool" where
  "colliding sha ms ns \<longleftrightarrow> (\<exists>a\<in>set ms. \<exists>b\<in>set ns. a \<noteq> b \<and> sha a = sha b)"

lemma colliding_append: "colliding sha ms ns \<Longrightarrow> colliding sha (ms @ ms') (ns @ ns')"
  "colliding sha ms' ns' \<Longrightarrow> colliding sha (ms @ ms') (ns @ ns')"
  by (auto simp: colliding_def)

lemma same_hashes: "map sha ms = map sha ns \<Longrightarrow> ms = ns \<or> colliding sha ms ns"
  by (induction ms ns rule: list_induct2') (auto simp: colliding_def)

lemma merkle_next_level_messages: "merkle_next_level sha level = map sha (node_messages level)"
  by (induction sha level rule: merkle_next_level.induct) (simp_all add: merkle_node_def)

lemma node_messages_inj:
  "length xs = length ys \<Longrightarrow> \<forall>h\<in>set xs \<union> set ys. length h = 32 \<Longrightarrow> node_messages xs = node_messages ys \<Longrightarrow> xs = ys"
proof (induction xs arbitrary: ys rule: node_messages.induct)
  case (2 left)
  then obtain a where "ys = [a]" by (auto simp: length_Suc_conv eq_commute [of _ "length ys"])
  then show ?case using 2 by simp
next
  case (3 left right rest)
  obtain a b r where "ys = a # b # r" using 3(2) by (metis length_Suc_conv)
  then show ?case using 3 by auto
qed simp

lemma merkle_reduce_binds:
  assumes sized: "hash_sized sha"
  shows "length xs = length ys \<Longrightarrow> xs \<noteq> [] \<Longrightarrow> \<forall>h\<in>set xs \<union> set ys. length h = 32 \<Longrightarrow>
    merkle_reduce sha xs = merkle_reduce sha ys \<Longrightarrow>
    xs = ys \<or> colliding sha (level_messages sha xs) (level_messages sha ys)"
proof (induction "length xs" arbitrary: xs ys rule: less_induct)
  case less
  show ?case
  proof (cases "1 < length xs")
    case True
    let ?n = node_messages
    have level: "level_messages sha xs = ?n xs @ level_messages sha (map sha (?n xs))"
      "level_messages sha ys = ?n ys @ level_messages sha (map sha (?n ys))"
      using True less(2) by (simp_all add: level_messages.simps [of sha xs] level_messages.simps [of sha ys])
    have len: "length (?n xs) < length xs" "length (?n xs) = length (?n ys)" "?n xs \<noteq> []"
      using True less(2) length_node_messages [of xs] length_node_messages [of ys] by auto
    have "merkle_reduce sha (map sha (?n xs)) = merkle_reduce sha (map sha (?n ys))"
      using less(5) True less(2)
      by (simp add: merkle_reduce.simps [of sha xs] merkle_reduce.simps [of sha ys] merkle_next_level_messages)
    moreover have "\<forall>h\<in>set (map sha (?n xs)) \<union> set (map sha (?n ys)). length h = 32"
      using sized by (auto simp: hash_sized_def)
    ultimately have "map sha (?n xs) = map sha (?n ys) \<or>
        colliding sha (level_messages sha (map sha (?n xs))) (level_messages sha (map sha (?n ys)))"
      using len by (intro less(1)) simp_all
    then have "?n xs = ?n ys \<or> colliding sha (level_messages sha xs) (level_messages sha ys)"
      unfolding level using same_hashes colliding_append by blast
    then show ?thesis using node_messages_inj [OF less(2,4)] by blast
  next
    case False
    then have "length xs = 1" using less(3) by (cases xs) auto
    then show ?thesis using less(2,5)
      by (auto simp: length_Suc_conv merkle_reduce.simps [of sha xs] merkle_reduce.simps [of sha ys])
  qed
qed

section \<open>Properties\<close>

text \<open>
  C23. The Merkle root of an entry's signatures binds them: whoever finds two different lists of the same
  length with the same root has found a collision of the hash function among the very messages that are
  hashed for the two roots (a leaf is hashed with the prefix 0, an inner node with the prefix 1, and the
  last node of an odd level is paired with itself, which is why the lengths must agree).
\<close>

theorem merkle_root_binds:
  assumes "hash_sized sha" "length xs = length ys" "xs \<noteq> ys"
    and "signature_merkle_root sha xs = signature_merkle_root sha ys"
  shows "\<exists>a\<in>set (merkle_messages sha xs). \<exists>b\<in>set (merkle_messages sha ys). a \<noteq> b \<and> sha a = sha b"
proof -
  let ?l = "map (Cons 0) :: bytes list \<Rightarrow> bytes list"
  have ne: "xs \<noteq> []" "ys \<noteq> []" using assms(2,3) by auto
  have "merkle_leaf sha = sha \<circ> Cons 0" by (simp add: fun_eq_iff merkle_leaf_def)
  then have root: "merkle_reduce sha (map sha (?l xs)) = merkle_reduce sha (map sha (?l ys))"
    using assms(4) ne by (simp add: signature_merkle_root_def)
  have "\<forall>h\<in>set (map sha (?l xs)) \<union> set (map sha (?l ys)). length h = 32"
    using assms(1) by (auto simp: hash_sized_def)
  from merkle_reduce_binds [OF assms(1) _ _ this root]
  have "map sha (?l xs) = map sha (?l ys) \<or> colliding sha (level_messages sha (map sha (?l xs))) (level_messages sha (map sha (?l ys)))"
    using ne assms(2) by simp
  moreover have "?l xs \<noteq> ?l ys" using assms(3) by (simp add: inj_map_eq_map)
  ultimately have "colliding sha (merkle_messages sha xs) (merkle_messages sha ys)"
    unfolding merkle_messages_def using same_hashes colliding_append by blast
  then show ?thesis by (simp add: colliding_def)
qed

text \<open>A stand-in hash for the witnesses: the length and sum of the input, padded to 32 bytes.\<close>

definition toy_sha :: "bytes \<Rightarrow> bytes" where
  "toy_sha x = replicate 30 0 @ [length x, sum_list x]"

lemma toy_sha_sized: "hash_sized toy_sha"
  by (simp add: hash_sized_def toy_sha_def)

theorem merkle_root_binds_witness:
  "signature_merkle_root toy_sha [[1], [2], [3]] = signature_merkle_root toy_sha [[2], [1], [3]] \<and>
   (\<exists>a\<in>set (merkle_messages toy_sha [[1], [2], [3]]). \<exists>b\<in>set (merkle_messages toy_sha [[2], [1], [3]]).
      a \<noteq> b \<and> toy_sha a = toy_sha b)"
proof -
  have "signature_merkle_root toy_sha [[1], [2], [3]] = signature_merkle_root toy_sha [[2], [1], [3]]"
    by code_simp
  then show ?thesis using merkle_root_binds [OF toy_sha_sized, of "[[1], [2], [3]]" "[[2], [1], [3]]"] by simp
qed

text \<open>
  C32. A tick of \<open>n\<close> hashes is the \<open>n\<close>-fold hash of its predecessor, so consecutive ticks add up; a
  recording entry is \<open>n - 1\<close> hashes followed by the hash with the mixin, and zero hashes without
  transactions change nothing.
\<close>

theorem next_hash_is_iteration:
  "next_hash sha start n None = (sha ^^ n) start \<and>
   next_hash sha start n (Some m) = sha ((sha ^^ (n - 1)) start @ m) \<and>
   next_hash sha (next_hash sha start a None) b None = next_hash sha start (a + b) None"
  by (simp add: next_hash_tick next_hash_record funpow_add add.commute [of a b])

end
