(* ===== verification/Verify_Report.thy ===== *)
theory Verify_Report
  imports Rust_Collections "HOL-Library.List_Lexorder" "HOL-Library.Char_ord"
begin

text \<open>
  Findings, slot statuses, run counters and the exit-code contract of the verifier
  (\<^verbatim>\<open>src/crates/superbank-verify/src/report.rs\<close>).  A rendered \<open>expected\<close> or \<open>actual\<close> value is kept as the
  value before rendering; the human-readable \<open>detail\<close> texts, the JSONL writer and the log lines are
  left out.  Counters are natural numbers: they count rows of the verified tables.
\<close>

type_synonym hash32 = "nat list"

section \<open>Findings\<close>

datatype finding_class = Fail | Unverifiable | Warn

datatype finding_code =
    Entry_hash_mismatch
  | Blockhash_mismatch
  | Genesis_hash_mismatch
  | Chain_break
  | Parent_slot_mismatch
  | Entry_count_mismatch
  | Entry_index_gap
  | Tick_count_mismatch
  | Trailing_entry
  | Tick_hash_count_mismatch
  | Tx_index_mismatch
  | Duplicate_conflict
  | Anchor_mismatch
  | Num_hashes_out_of_range
  | Missing_entries
  | Missing_transactions
  | Missing_parent
  | Missing_block
  | Anchor_not_checked
  | Zero_num_hashes_entry

fun finding_code_class :: "finding_code \<Rightarrow> finding_class" where
  "finding_code_class Entry_hash_mismatch = Fail"
| "finding_code_class Blockhash_mismatch = Fail"
| "finding_code_class Genesis_hash_mismatch = Fail"
| "finding_code_class Chain_break = Fail"
| "finding_code_class Parent_slot_mismatch = Fail"
| "finding_code_class Entry_count_mismatch = Fail"
| "finding_code_class Entry_index_gap = Fail"
| "finding_code_class Tick_count_mismatch = Fail"
| "finding_code_class Trailing_entry = Fail"
| "finding_code_class Tick_hash_count_mismatch = Fail"
| "finding_code_class Tx_index_mismatch = Fail"
| "finding_code_class Duplicate_conflict = Fail"
| "finding_code_class Anchor_mismatch = Fail"
| "finding_code_class Num_hashes_out_of_range = Fail"
| "finding_code_class Missing_entries = Unverifiable"
| "finding_code_class Missing_transactions = Unverifiable"
| "finding_code_class Missing_parent = Unverifiable"
| "finding_code_class Missing_block = Unverifiable"
| "finding_code_class Anchor_not_checked = Unverifiable"
| "finding_code_class Zero_num_hashes_entry = Warn"

fun finding_code_as_str :: "finding_code \<Rightarrow> string" where
  "finding_code_as_str Entry_hash_mismatch = ''entry_hash_mismatch''"
| "finding_code_as_str Blockhash_mismatch = ''blockhash_mismatch''"
| "finding_code_as_str Genesis_hash_mismatch = ''genesis_hash_mismatch''"
| "finding_code_as_str Chain_break = ''chain_break''"
| "finding_code_as_str Parent_slot_mismatch = ''parent_slot_mismatch''"
| "finding_code_as_str Entry_count_mismatch = ''entry_count_mismatch''"
| "finding_code_as_str Entry_index_gap = ''entry_index_gap''"
| "finding_code_as_str Tick_count_mismatch = ''tick_count_mismatch''"
| "finding_code_as_str Trailing_entry = ''trailing_entry''"
| "finding_code_as_str Tick_hash_count_mismatch = ''tick_hash_count_mismatch''"
| "finding_code_as_str Tx_index_mismatch = ''tx_index_mismatch''"
| "finding_code_as_str Duplicate_conflict = ''duplicate_conflict''"
| "finding_code_as_str Anchor_mismatch = ''anchor_mismatch''"
| "finding_code_as_str Num_hashes_out_of_range = ''num_hashes_out_of_range''"
| "finding_code_as_str Missing_entries = ''missing_entries''"
| "finding_code_as_str Missing_transactions = ''missing_transactions''"
| "finding_code_as_str Missing_parent = ''missing_parent''"
| "finding_code_as_str Missing_block = ''missing_block''"
| "finding_code_as_str Anchor_not_checked = ''anchor_not_checked''"
| "finding_code_as_str Zero_num_hashes_entry = ''zero_num_hashes_entry''"

datatype report_value = Number nat | Base58 hash32 | Below nat

record finding =
  fi_slot :: slot
  fi_code :: finding_code
  fi_class :: finding_class
  fi_entry_index :: "nat option"
  fi_expected :: "report_value option"
  fi_actual :: "report_value option"

definition finding_new :: "slot \<Rightarrow> finding_code \<Rightarrow> finding" where
  "finding_new slot code =
     \<lparr>fi_slot = slot, fi_code = code, fi_class = finding_code_class code,
      fi_entry_index = None, fi_expected = None, fi_actual = None\<rparr>"

definition with_entry_index :: "nat \<Rightarrow> finding \<Rightarrow> finding" where
  "with_entry_index entry_index self = self\<lparr>fi_entry_index := Some entry_index\<rparr>"

definition with_expected_actual :: "report_value \<Rightarrow> report_value \<Rightarrow> finding \<Rightarrow> finding" where
  "with_expected_actual expected actual self = self\<lparr>fi_expected := Some expected, fi_actual := Some actual\<rparr>"

section \<open>Slot statuses and counters\<close>

datatype slot_status = Status_ok | Status_failed | Status_unverifiable | Status_skipped | Status_missing

fun slot_status_as_str :: "slot_status \<Rightarrow> string" where
  "slot_status_as_str Status_ok = ''ok''"
| "slot_status_as_str Status_failed = ''failed''"
| "slot_status_as_str Status_unverifiable = ''unverifiable''"
| "slot_status_as_str Status_skipped = ''skipped''"
| "slot_status_as_str Status_missing = ''missing''"

record run_counters =
  rc_slots_ok :: nat
  rc_slots_failed :: nat
  rc_slots_unverifiable :: nat
  rc_slots_skipped :: nat
  rc_slots_missing :: nat
  rc_orphan_failures :: nat
  rc_anchors_unchecked :: nat
  rc_entries_verified :: nat
  rc_hashes_computed :: nat
  rc_findings :: "(string, nat) btree"

definition run_counters_default :: run_counters where
  "run_counters_default =
     \<lparr>rc_slots_ok = 0, rc_slots_failed = 0, rc_slots_unverifiable = 0, rc_slots_skipped = 0,
      rc_slots_missing = 0, rc_orphan_failures = 0, rc_anchors_unchecked = 0,
      rc_entries_verified = 0, rc_hashes_computed = 0, rc_findings = []\<rparr>"

fun record_slot :: "slot_status \<Rightarrow> run_counters \<Rightarrow> run_counters" where
  "record_slot Status_ok self = self\<lparr>rc_slots_ok := rc_slots_ok self + 1\<rparr>"
| "record_slot Status_failed self = self\<lparr>rc_slots_failed := rc_slots_failed self + 1\<rparr>"
| "record_slot Status_unverifiable self = self\<lparr>rc_slots_unverifiable := rc_slots_unverifiable self + 1\<rparr>"
| "record_slot Status_skipped self = self\<lparr>rc_slots_skipped := rc_slots_skipped self + 1\<rparr>"
| "record_slot Status_missing self = self\<lparr>rc_slots_missing := rc_slots_missing self + 1\<rparr>"

definition record_finding :: "finding_code \<Rightarrow> run_counters \<Rightarrow> run_counters" where
  "record_finding code self =
     (let key = finding_code_as_str code;
          count = (case bt_get (rc_findings self) key of None \<Rightarrow> 0 | Some n \<Rightarrow> n)
      in self\<lparr>rc_findings := bt_insert key (count + 1) (rc_findings self)\<rparr>)"

definition has_failures :: "run_counters \<Rightarrow> bool" where
  "has_failures self \<longleftrightarrow> rc_slots_failed self > 0 \<or> rc_orphan_failures self > 0"

definition has_unverifiable :: "run_counters \<Rightarrow> bool" where
  "has_unverifiable self \<longleftrightarrow>
     rc_slots_unverifiable self > 0 \<or> rc_slots_missing self > 0 \<or> rc_anchors_unchecked self > 0"

definition failure_count :: "run_counters \<Rightarrow> nat" where
  "failure_count self = rc_slots_failed self + rc_orphan_failures self"

definition exit_code :: "run_counters \<Rightarrow> bool \<Rightarrow> int" where
  "exit_code counters allow_unverifiable =
     (if has_failures counters then 2
      else if has_unverifiable counters \<and> \<not> allow_unverifiable then 3
      else 0)"

section \<open>Lemmas\<close>

lemma finding_new_fields [simp]:
  "fi_slot (finding_new s c) = s" "fi_code (finding_new s c) = c" "fi_class (finding_new s c) = finding_code_class c"
  by (simp_all add: finding_new_def)

lemma with_fields [simp]:
  "fi_slot (with_entry_index i f) = fi_slot f" "fi_code (with_entry_index i f) = fi_code f"
  "fi_class (with_entry_index i f) = fi_class f"
  "fi_slot (with_expected_actual a b f) = fi_slot f" "fi_code (with_expected_actual a b f) = fi_code f"
  "fi_class (with_expected_actual a b f) = fi_class f"
  by (simp_all add: with_entry_index_def with_expected_actual_def)

lemma finding_code_as_str_inj: "finding_code_as_str a = finding_code_as_str b \<longleftrightarrow> a = b"
  by (cases a; cases b; simp)

text \<open>The tally of a code.\<close>

definition tally :: "run_counters \<Rightarrow> finding_code \<Rightarrow> nat" where
  "tally self code = (case bt_get (rc_findings self) (finding_code_as_str code) of None \<Rightarrow> 0 | Some n \<Rightarrow> n)"

lemma tally_record_finding:
  "tally (record_finding code self) c = tally self c + (if c = code then 1 else 0)"
  by (simp add: tally_def record_finding_def Let_def bt_get_eq map_of_bt_insert finding_code_as_str_inj)

lemma record_finding_frame [simp]:
  "rc_slots_ok (record_finding c self) = rc_slots_ok self"
  "rc_slots_failed (record_finding c self) = rc_slots_failed self"
  "rc_slots_unverifiable (record_finding c self) = rc_slots_unverifiable self"
  "rc_slots_skipped (record_finding c self) = rc_slots_skipped self"
  "rc_slots_missing (record_finding c self) = rc_slots_missing self"
  "rc_orphan_failures (record_finding c self) = rc_orphan_failures self"
  "rc_anchors_unchecked (record_finding c self) = rc_anchors_unchecked self"
  by (simp_all add: record_finding_def Let_def)

lemma tally_frame [simp]:
  "tally (record_slot s self) = tally self"
  "tally (self\<lparr>rc_slots_skipped := n\<rparr>) = tally self" "tally (self\<lparr>rc_slots_missing := n\<rparr>) = tally self"
  "tally (self\<lparr>rc_orphan_failures := n\<rparr>) = tally self" "tally (self\<lparr>rc_anchors_unchecked := n\<rparr>) = tally self"
  "tally (self\<lparr>rc_entries_verified := n\<rparr>) = tally self" "tally (self\<lparr>rc_hashes_computed := n\<rparr>) = tally self"
  by (cases s; simp add: tally_def fun_eq_iff)+

text \<open>The slots a run has accounted for, whatever their status.\<close>

definition slots_accounted :: "run_counters \<Rightarrow> nat" where
  "slots_accounted self = rc_slots_ok self + rc_slots_failed self + rc_slots_unverifiable self +
     rc_slots_skipped self + rc_slots_missing self"

lemma slots_accounted_record [simp]:
  "slots_accounted (record_slot s self) = Suc (slots_accounted self)"
  "slots_accounted (record_finding c self) = slots_accounted self"
  by (cases s; simp add: slots_accounted_def)+

end
