(* ===== verification/Verify_Block.thy ===== *)
theory Verify_Block
  imports Poh Verify_Report
begin

text \<open>
  Verification of one block (\<^verbatim>\<open>src/crates/superbank-verify/src/verify/mod.rs\<close> and \<^verbatim>\<open>verify/structural.rs\<close>):
  the structural checks that need no hashing and, in full mode, the recomputation of the entry hashes.
  Findings are collected in the order of the code.  The theorems say that a block without findings is
  exactly a block whose entries are numbered, ticked, tiled and hashed as Proof of History demands.
\<close>

section \<open>Data\<close>

record block_info =
  bl_slot :: slot
  bl_parent_slot :: slot
  bl_blockhash :: hash32
  bl_parent_blockhash :: hash32
  bl_executed_transaction_count :: nat
  bl_entry_count :: nat

record entry_info =
  en_entry_index :: nat
  en_num_hashes :: nat
  en_hash :: hash32
  en_starting_transaction_index :: nat
  en_transaction_count :: nat

datatype verify_mode = Structural | Full

definition max_entry_num_hashes :: nat where
  "max_entry_num_hashes = 10000000"

record verify_outcome =
  vo_findings :: "finding list"
  vo_entries_verified :: nat
  vo_hashes_computed :: nat

type_synonym tx_signatures = "(nat, bytes list) btree"

section \<open>Structural checks\<close>

definition expected_tick_count :: "slot \<Rightarrow> slot \<Rightarrow> nat \<Rightarrow> nat" where
  "expected_tick_count slot parent_slot ticks_per_slot =
     (if slot = 0 then ticks_per_slot else sat_mul (sat_sub slot parent_slot) ticks_per_slot)"

text \<open>The first entry whose index is not its position (\<open>position as u32\<close>).\<close>

fun index_gap :: "nat \<Rightarrow> entry_info list \<Rightarrow> entry_info option" where
  "index_gap position [] = None"
| "index_gap position (entry # entries) =
     (if en_entry_index entry \<noteq> position mod (u32_max + 1) then Some entry else index_gap (Suc position) entries)"

definition check_ticks :: "block_info \<Rightarrow> entry_info list \<Rightarrow> nat \<Rightarrow> bool \<Rightarrow> finding list" where
  "check_ticks block entries ticks_per_slot alpenglow =
     (let slot = bl_slot block;
          tick_count = length (filter (\<lambda>entry. en_transaction_count entry = 0) entries);
          expected_ticks =
            (if alpenglow then 1 else expected_tick_count slot (bl_parent_slot block) ticks_per_slot)
      in if tick_count \<noteq> expected_ticks
         then [with_expected_actual (Number expected_ticks) (Number tick_count)
                 (finding_new slot Tick_count_mismatch)]
         else [])"

definition check_last_entry :: "block_info \<Rightarrow> entry_info list \<Rightarrow> finding list" where
  "check_last_entry block entries =
     (let slot = bl_slot block
      in if entries = [] then []
         else
           let final = last entries
           in (if en_transaction_count final \<noteq> 0
               then [with_entry_index (en_entry_index final) (finding_new slot Trailing_entry)] else []) @
              (if en_hash final \<noteq> bl_blockhash block
               then [with_expected_actual (Base58 (bl_blockhash block)) (Base58 (en_hash final))
                       (with_entry_index (en_entry_index final) (finding_new slot Blockhash_mismatch))]
               else []))"

fun hash_counts_loop :: "slot \<Rightarrow> nat \<Rightarrow> nat \<Rightarrow> entry_info list \<Rightarrow> finding list" where
  "hash_counts_loop slot hashes_per_tick tick_hash_count [] = []"
| "hash_counts_loop slot hashes_per_tick tick_hash_count (entry # entries) =
     (let tick_hash_count = sat_add tick_hash_count (en_num_hashes entry)
      in if en_transaction_count entry = 0 then
           (if en_num_hashes entry = 0 \<or> tick_hash_count \<noteq> hashes_per_tick
            then [with_expected_actual (Number hashes_per_tick) (Number tick_hash_count)
                    (with_entry_index (en_entry_index entry) (finding_new slot Tick_hash_count_mismatch))]
            else hash_counts_loop slot hashes_per_tick 0 entries)
         else hash_counts_loop slot hashes_per_tick tick_hash_count entries)"

definition check_hash_counts :: "block_info \<Rightarrow> entry_info list \<Rightarrow> nat option \<Rightarrow> bool \<Rightarrow> finding list" where
  "check_hash_counts block entries hashes_per_tick alpenglow =
     (let slot = bl_slot block
      in if alpenglow then
           (case find (\<lambda>entry. en_num_hashes entry \<noteq> 1) entries of
              Some entry \<Rightarrow>
                [with_expected_actual (Number 1) (Number (en_num_hashes entry))
                   (with_entry_index (en_entry_index entry) (finding_new slot Tick_hash_count_mismatch))]
            | None \<Rightarrow> [])
         else
           (case hashes_per_tick of
              Some n \<Rightarrow> if 0 < n then hash_counts_loop slot n 0 entries else []
            | None \<Rightarrow> []))"

fun tiling_loop :: "slot \<Rightarrow> nat \<Rightarrow> entry_info list \<Rightarrow> finding + nat" where
  "tiling_loop slot expected_next [] = Inr expected_next"
| "tiling_loop slot expected_next (entry # entries) =
     (if en_starting_transaction_index entry \<noteq> expected_next
      then Inl (with_expected_actual (Number expected_next) (Number (en_starting_transaction_index entry))
                  (with_entry_index (en_entry_index entry) (finding_new slot Tx_index_mismatch)))
      else tiling_loop slot (sat_add32 expected_next (en_transaction_count entry)) entries)"

definition check_transaction_ranges :: "block_info \<Rightarrow> entry_info list \<Rightarrow> finding list" where
  "check_transaction_ranges block entries =
     (case tiling_loop (bl_slot block) 0 entries of
        Inl f \<Rightarrow> [f]
      | Inr expected_next \<Rightarrow>
          if expected_next \<noteq> bl_executed_transaction_count block
          then [with_expected_actual (Number (bl_executed_transaction_count block)) (Number expected_next)
                  (finding_new (bl_slot block) Tx_index_mismatch)]
          else [])"

definition check_structure_in_era ::
  "block_info \<Rightarrow> entry_info list \<Rightarrow> nat \<Rightarrow> nat option \<Rightarrow> bool \<Rightarrow> finding list" where
  "check_structure_in_era block entries ticks_per_slot hashes_per_tick alpenglow =
     (let slot = bl_slot block;
          gap = index_gap 0 entries;
          findings =
            (case gap of
               Some entry \<Rightarrow> [with_entry_index (en_entry_index entry) (finding_new slot Entry_index_gap)]
             | None \<Rightarrow> []) @
            (if 0 < bl_entry_count block \<and> length entries \<noteq> bl_entry_count block
             then [with_expected_actual (Number (bl_entry_count block)) (Number (length entries))
                     (finding_new slot Entry_count_mismatch)]
             else [])
      in if gap \<noteq> None then findings
         else findings @ check_ticks block entries ticks_per_slot alpenglow @ check_last_entry block entries @
              check_hash_counts block entries hashes_per_tick alpenglow @ check_transaction_ranges block entries)"

section \<open>Recomputing the hashes\<close>

fun collect_signatures :: "tx_signatures \<Rightarrow> nat \<Rightarrow> nat \<Rightarrow> bytes list option" where
  "collect_signatures tx_signatures slot_idx 0 = Some []"
| "collect_signatures tx_signatures slot_idx (Suc n) =
     (case bt_get tx_signatures slot_idx of
        Some sigs \<Rightarrow> map_option (\<lambda>rest. sigs @ rest) (collect_signatures tx_signatures (Suc slot_idx) n)
      | None \<Rightarrow> None)"

definition entry_mixin ::
  "(bytes \<Rightarrow> bytes) \<Rightarrow> slot \<Rightarrow> entry_info \<Rightarrow> tx_signatures \<Rightarrow> finding + hash32 option" where
  "entry_mixin sha slot entry tx_signatures =
     (if en_transaction_count entry = 0 then Inr None
      else
        let start = en_starting_transaction_index entry;
            end = sat_add32 start (en_transaction_count entry)
        in case collect_signatures tx_signatures start (end - start) of
             Some signatures \<Rightarrow> Inr (Some (signature_merkle_root sha signatures))
           | None \<Rightarrow> Inl (with_entry_index (en_entry_index entry) (finding_new slot Missing_transactions)))"

fun hash_chain_loop ::
  "(bytes \<Rightarrow> bytes) \<Rightarrow> slot \<Rightarrow> tx_signatures \<Rightarrow> hash32 \<Rightarrow> entry_info list \<Rightarrow> verify_outcome \<Rightarrow> verify_outcome" where
  "hash_chain_loop sha slot tx_signatures prev [] outcome = outcome"
| "hash_chain_loop sha slot tx_signatures prev (entry # entries) outcome =
     (let push = (\<lambda>f out. out\<lparr>vo_findings := vo_findings out @ [f]\<rparr>);
          outcome =
            (if en_num_hashes entry = 0
             then push (with_entry_index (en_entry_index entry) (finding_new slot Zero_num_hashes_entry)) outcome
             else outcome);
          outcome =
            (if max_entry_num_hashes < en_num_hashes entry
             then push (with_entry_index (en_entry_index entry) (finding_new slot Num_hashes_out_of_range)) outcome
             else case entry_mixin sha slot entry tx_signatures of
               Inl f \<Rightarrow> push f outcome
             | Inr mixin \<Rightarrow>
                 let computed = next_hash sha prev (en_num_hashes entry) mixin;
                     outcome = outcome\<lparr>vo_entries_verified := vo_entries_verified outcome + 1,
                                 vo_hashes_computed := vo_hashes_computed outcome + en_num_hashes entry\<rparr>
                 in if computed \<noteq> en_hash entry
                    then push (with_expected_actual (Base58 (en_hash entry)) (Base58 computed)
                                 (with_entry_index (en_entry_index entry) (finding_new slot Entry_hash_mismatch)))
                           outcome
                    else outcome)
      in hash_chain_loop sha slot tx_signatures (en_hash entry) entries outcome)"

definition verify_hash_chain ::
  "(bytes \<Rightarrow> bytes) \<Rightarrow> block_info \<Rightarrow> entry_info list \<Rightarrow> tx_signatures \<Rightarrow> verify_outcome \<Rightarrow> verify_outcome" where
  "verify_hash_chain sha block entries tx_signatures outcome =
     hash_chain_loop sha (bl_slot block) tx_signatures (bl_parent_blockhash block) entries outcome"

definition verify_block_in_era ::
  "(bytes \<Rightarrow> bytes) \<Rightarrow> verify_mode \<Rightarrow> block_info \<Rightarrow> entry_info list \<Rightarrow> tx_signatures \<Rightarrow> nat \<Rightarrow> nat option \<Rightarrow> bool \<Rightarrow>
   verify_outcome" where
  "verify_block_in_era sha mode block entries tx_signatures ticks_per_slot hashes_per_tick alpenglow =
     (let outcome = \<lparr>vo_findings = check_structure_in_era block entries ticks_per_slot hashes_per_tick alpenglow,
                     vo_entries_verified = 0, vo_hashes_computed = 0\<rparr>;
          index_reliable = (\<not> list_ex (\<lambda>f. fi_code f = Entry_index_gap) (vo_findings outcome))
      in if mode = Full \<and> index_reliable then verify_hash_chain sha block entries tx_signatures outcome else outcome)"

section \<open>Specification\<close>

abbreviation is_tick :: "entry_info \<Rightarrow> bool" where
  "is_tick entry \<equiv> en_transaction_count entry = 0"

text \<open>Between ticks the entries add up to \<open>h\<close> hashes, \<open>acc\<close> of them already spent.\<close>

fun paced :: "nat \<Rightarrow> nat \<Rightarrow> entry_info list \<Rightarrow> bool" where
  "paced h acc [] \<longleftrightarrow> True"
| "paced h acc (entry # entries) \<longleftrightarrow>
     (if is_tick entry then 0 < en_num_hashes entry \<and> acc + en_num_hashes entry = h \<and> paced h 0 entries
      else paced h (acc + en_num_hashes entry) entries)"

text \<open>The transaction ranges of the entries tile \<open>[0, n)\<close>, up to the largest \<open>u32\<close>.\<close>

definition tiled :: "entry_info list \<Rightarrow> nat \<Rightarrow> bool" where
  "tiled entries n \<longleftrightarrow>
     (\<forall>i<length entries. en_starting_transaction_index (entries ! i) =
        min (sum_list (map en_transaction_count (take i entries))) u32_max) \<and>
     n = min (sum_list (map en_transaction_count entries)) u32_max"

definition structure_ok :: "block_info \<Rightarrow> entry_info list \<Rightarrow> nat \<Rightarrow> nat option \<Rightarrow> bool \<Rightarrow> bool" where
  "structure_ok block entries ticks_per_slot hashes_per_tick alpenglow \<longleftrightarrow>
     (\<forall>i<length entries. en_entry_index (entries ! i) = i mod (u32_max + 1)) \<and>
     (0 < bl_entry_count block \<longrightarrow> length entries = bl_entry_count block) \<and>
     length (filter is_tick entries) =
       (if alpenglow then 1 else expected_tick_count (bl_slot block) (bl_parent_slot block) ticks_per_slot) \<and>
     (entries \<noteq> [] \<longrightarrow> is_tick (last entries) \<and> en_hash (last entries) = bl_blockhash block) \<and>
     (if alpenglow then \<forall>e\<in>set entries. en_num_hashes e = 1
      else \<forall>h. hashes_per_tick = Some h \<and> 0 < h \<longrightarrow> paced h 0 entries) \<and>
     tiled entries (bl_executed_transaction_count block)"

text \<open>The mixin of an entry, when all its transactions are known.\<close>

definition mixin_of :: "(bytes \<Rightarrow> bytes) \<Rightarrow> tx_signatures \<Rightarrow> entry_info \<Rightarrow> hash32 option option" where
  "mixin_of sha tx_signatures entry =
     (if is_tick entry then Some None
      else map_option (\<lambda>sigs. Some (signature_merkle_root sha sigs))
        (collect_signatures tx_signatures (en_starting_transaction_index entry)
           (sat_add32 (en_starting_transaction_index entry) (en_transaction_count entry) -
            en_starting_transaction_index entry)))"

definition entry_hash_ok :: "(bytes \<Rightarrow> bytes) \<Rightarrow> tx_signatures \<Rightarrow> hash32 \<Rightarrow> entry_info \<Rightarrow> bool" where
  "entry_hash_ok sha tx_signatures prev entry \<longleftrightarrow>
     0 < en_num_hashes entry \<and> en_num_hashes entry \<le> max_entry_num_hashes \<and>
     (\<exists>m. mixin_of sha tx_signatures entry = Some m \<and> en_hash entry = next_hash sha prev (en_num_hashes entry) m)"

fun entries_chain :: "(bytes \<Rightarrow> bytes) \<Rightarrow> tx_signatures \<Rightarrow> hash32 \<Rightarrow> entry_info list \<Rightarrow> bool" where
  "entries_chain sha tx_signatures prev [] \<longleftrightarrow> True"
| "entries_chain sha tx_signatures prev (entry # entries) \<longleftrightarrow>
     entry_hash_ok sha tx_signatures prev entry \<and> entries_chain sha tx_signatures (en_hash entry) entries"

text \<open>The findings one entry gives rise to, from the recorded hash of its predecessor alone.\<close>

definition entry_findings :: "(bytes \<Rightarrow> bytes) \<Rightarrow> slot \<Rightarrow> tx_signatures \<Rightarrow> hash32 \<Rightarrow> entry_info \<Rightarrow> finding list" where
  "entry_findings sha slot tx_signatures prev entry =
     vo_findings (hash_chain_loop sha slot tx_signatures prev [entry]
       \<lparr>vo_findings = [], vo_entries_verified = 0, vo_hashes_computed = 0\<rparr>)"

section \<open>The structural checks are exact\<close>

lemma index_gap_None:
  "index_gap k entries = None \<longleftrightarrow> (\<forall>i<length entries. en_entry_index (entries ! i) = (k + i) mod (u32_max + 1))"
proof (induction k entries rule: index_gap.induct)
  case (2 k entry entries)
  then show ?case by (auto simp: less_Suc_eq_0_disj all_conj_distrib)
qed simp

lemma hash_counts_paced:
  assumes "h < u64_max"
  shows "hash_counts_loop slot h (min acc u64_max) entries = [] \<longleftrightarrow> paced h acc entries"
proof (induction entries arbitrary: acc)
  case (Cons e entries)
  have sum: "sat_add (min acc u64_max) (en_num_hashes e) = min (acc + en_num_hashes e) u64_max"
    by (simp add: sat_add_def)
  show ?case using Cons.IH [of 0] Cons.IH [of "acc + en_num_hashes e"] assms
    by (auto simp: sum Let_def)
qed simp

lemma tiling_loop_tiles:
  "tiling_loop slot (min acc u32_max) entries = Inr n \<longleftrightarrow>
     (\<forall>i<length entries. en_starting_transaction_index (entries ! i) =
        min (acc + sum_list (map en_transaction_count (take i entries))) u32_max) \<and>
     n = min (acc + sum_list (map en_transaction_count entries)) u32_max"
proof (induction entries arbitrary: acc)
  case (Cons e entries)
  have sum: "sat_add32 (min acc u32_max) (en_transaction_count e) = min (acc + en_transaction_count e) u32_max"
    by (simp add: sat_add32_def)
  show ?case using Cons.IH [of "acc + en_transaction_count e"]
    by (auto simp: sum less_Suc_eq_0_disj add.assoc all_conj_distrib)
qed auto

lemma check_transaction_ranges_Nil:
  "check_transaction_ranges block entries = [] \<longleftrightarrow> tiled entries (bl_executed_transaction_count block)"
proof (cases "tiling_loop (bl_slot block) 0 entries")
  case (Inl f)
  then show ?thesis using tiling_loop_tiles [of "bl_slot block" 0 entries]
    by (auto simp: check_transaction_ranges_def tiled_def)
next
  case (Inr n)
  then show ?thesis using tiling_loop_tiles [of "bl_slot block" 0 entries n]
    by (auto simp: check_transaction_ranges_def tiled_def)
qed

lemma check_hash_counts_Nil:
  assumes "\<forall>h. hashes_per_tick = Some h \<longrightarrow> h < u64_max"
  shows "check_hash_counts block entries hashes_per_tick alpenglow = [] \<longleftrightarrow>
    (if alpenglow then \<forall>e\<in>set entries. en_num_hashes e = 1
     else \<forall>h. hashes_per_tick = Some h \<and> 0 < h \<longrightarrow> paced h 0 entries)"
proof (cases alpenglow)
  case True
  have "check_hash_counts block entries hashes_per_tick True = [] \<longleftrightarrow>
      find (\<lambda>entry. en_num_hashes entry \<noteq> 1) entries = None"
    by (simp add: check_hash_counts_def split: option.splits)
  then show ?thesis using True by (auto simp: find_None_iff)
next
  case False
  then show ?thesis using assms hash_counts_paced [of _ "bl_slot block" 0 entries]
    by (auto simp: check_hash_counts_def split: option.splits)
qed

lemma check_structure_Nil:
  assumes "\<forall>h. hashes_per_tick = Some h \<longrightarrow> h < u64_max"
  shows "check_structure_in_era block entries ticks_per_slot hashes_per_tick alpenglow = [] \<longleftrightarrow>
    structure_ok block entries ticks_per_slot hashes_per_tick alpenglow"
  using index_gap_None [of 0 entries]
  by (auto simp: check_structure_in_era_def structure_ok_def Let_def check_ticks_def check_last_entry_def
      check_transaction_ranges_Nil check_hash_counts_Nil [OF assms] split: option.splits)

section \<open>The hash chain\<close>

lemma hash_chain_loop_findings:
  "vo_findings (hash_chain_loop sha slot txs prev entries out) =
     vo_findings out @ concat (map2 (entry_findings sha slot txs) (prev # map en_hash entries) entries)"
proof (induction entries arbitrary: prev out)
  case (Cons e entries)
  have "vo_findings (hash_chain_loop sha slot txs prev (e # entries) out) =
      vo_findings (hash_chain_loop sha slot txs prev [e] out) @
      concat (map2 (entry_findings sha slot txs) (map en_hash (e # entries)) entries)"
    by (simp add: Cons.IH Let_def del: append_assoc)
  moreover have "vo_findings (hash_chain_loop sha slot txs prev [e] out) =
      vo_findings out @ entry_findings sha slot txs prev e"
    by (auto simp: entry_findings_def Let_def split: sum.splits)
  ultimately show ?case by simp
qed simp

lemma entry_findings_Nil: "entry_findings sha slot txs prev e = [] \<longleftrightarrow> entry_hash_ok sha txs prev e"
  by (auto simp: entry_findings_def entry_hash_ok_def entry_mixin_def mixin_of_def Let_def
      split: option.splits sum.splits)

lemma hash_chain_Nil:
  "concat (map2 (entry_findings sha slot txs) (prev # map en_hash entries) entries) = [] \<longleftrightarrow>
     entries_chain sha txs prev entries"
  by (induction entries arbitrary: prev) (simp_all add: entry_findings_Nil)

lemma entries_chain_hash:
  "entries_chain sha txs prev entries \<Longrightarrow>
     (if entries = [] then prev else en_hash (last entries)) =
     foldl (\<lambda>h e. next_hash sha h (en_num_hashes e) (the (mixin_of sha txs e))) prev entries"
proof (induction entries arbitrary: prev)
  case (Cons e entries)
  then have "en_hash e = next_hash sha prev (en_num_hashes e) (the (mixin_of sha txs e))"
    by (auto simp: entry_hash_ok_def)
  then show ?case using Cons.IH [of "en_hash e"] Cons.prems by (cases "entries = []") simp_all
qed simp

lemma paced_work:
  "paced h acc entries \<Longrightarrow> entries \<noteq> [] \<Longrightarrow> is_tick (last entries) \<Longrightarrow>
     acc + sum_list (map en_num_hashes entries) = h * length (filter is_tick entries)"
proof (induction entries arbitrary: acc)
  case (Cons e entries)
  show ?case
  proof (cases "entries = []")
    case True
    then show ?thesis using Cons.prems by simp
  next
    case False
    then show ?thesis
      using Cons.IH [of 0] Cons.IH [of "acc + en_num_hashes e"] Cons.prems
      by (cases "is_tick e") (simp_all add: add.assoc)
  qed
qed simp

section \<open>Properties\<close>

lemma reliable_index:
  "index_gap 0 entries = None \<longleftrightarrow>
     \<not> list_ex (\<lambda>f. fi_code f = Entry_index_gap) (check_structure_in_era block entries tps hpt alpenglow)"
proof -
  have loop: "\<forall>f\<in>set (hash_counts_loop slot h acc es). fi_code f = Tick_hash_count_mismatch" for slot h acc es
    by (induction slot h acc es rule: hash_counts_loop.induct) (auto simp: Let_def)
  have tile: "tiling_loop slot k es = Inl f \<Longrightarrow> fi_code f = Tx_index_mismatch" for slot k es f
    by (induction slot k es rule: tiling_loop.induct) (auto split: if_splits)
  show ?thesis
    by (auto simp: check_structure_in_era_def Let_def list_ex_iff check_ticks_def check_last_entry_def
        check_hash_counts_def check_transaction_ranges_def
        split: option.splits if_splits sum.splits dest: tile loop [THEN bspec])
qed

lemma full_findings:
  assumes "index_gap 0 entries = None"
  shows "vo_findings (verify_block_in_era sha Full block entries txs tps hpt alpenglow) =
    check_structure_in_era block entries tps hpt alpenglow @
    concat (map2 (entry_findings sha (bl_slot block) txs) (bl_parent_blockhash block # map en_hash entries) entries)"
  using reliable_index [of entries block tps hpt alpenglow] assms
  by (simp add: verify_block_in_era_def verify_hash_chain_def hash_chain_loop_findings Let_def)

lemma full_Nil:
  assumes "\<forall>h. hpt = Some h \<longrightarrow> h < u64_max"
  shows "vo_findings (verify_block_in_era sha Full block entries txs tps hpt alpenglow) = [] \<longleftrightarrow>
    structure_ok block entries tps hpt alpenglow \<and> entries_chain sha txs (bl_parent_blockhash block) entries"
proof (cases "index_gap 0 entries = None")
  case True
  then show ?thesis
    using full_findings [OF True] check_structure_Nil [OF assms] hash_chain_Nil by (metis append_is_Nil_conv)
next
  case False
  then have "\<not> structure_ok block entries tps hpt alpenglow"
    using index_gap_None [of 0 entries] by (auto simp: structure_ok_def)
  moreover have "check_structure_in_era block entries tps hpt alpenglow \<noteq> []"
    using check_structure_Nil [OF assms] calculation by blast
  moreover have "list_ex (\<lambda>f. fi_code f = Entry_index_gap) (check_structure_in_era block entries tps hpt alpenglow)"
    using False reliable_index [of entries block tps hpt alpenglow] by simp
  ultimately show ?thesis by (simp add: verify_block_in_era_def Let_def)
qed

text \<open>
  C3. Block verification is exact.  In structural mode a block has no findings exactly when its
  entries are numbered from zero, match the recorded count, carry the expected ticks, end in a tick
  with the recorded blockhash, keep the pace of hashes per tick and tile the transactions; in full mode
  exactly when, besides, every entry hash is the Proof-of-History hash of its predecessor.
\<close>

theorem verify_block_exact:
  assumes "\<forall>h. hashes_per_tick = Some h \<longrightarrow> h < u64_max"
  shows "(vo_findings (verify_block_in_era sha Structural block entries txs tps hashes_per_tick alpenglow) = [] \<longleftrightarrow>
      structure_ok block entries tps hashes_per_tick alpenglow) \<and>
    (vo_findings (verify_block_in_era sha Full block entries txs tps hashes_per_tick alpenglow) = [] \<longleftrightarrow>
      structure_ok block entries tps hashes_per_tick alpenglow \<and>
      entries_chain sha txs (bl_parent_blockhash block) entries)"
  using check_structure_Nil [OF assms] full_Nil [OF assms] by (simp add: verify_block_in_era_def Let_def)

text \<open>A sample block: one recording entry and one tick over \<^const>\<open>toy_sha\<close>.\<close>

definition sample_entries :: "entry_info list" where
  "sample_entries =
     (let parent = replicate 32 7;
          h1 = next_hash toy_sha parent 3 (Some (signature_merkle_root toy_sha [[5], [6]]));
          h2 = next_hash toy_sha h1 2 None
      in [\<lparr>en_entry_index = 0, en_num_hashes = 3, en_hash = h1, en_starting_transaction_index = 0,
           en_transaction_count = 2\<rparr>,
          \<lparr>en_entry_index = 1, en_num_hashes = 2, en_hash = h2, en_starting_transaction_index = 2,
           en_transaction_count = 0\<rparr>])"

definition sample_block :: block_info where
  "sample_block = \<lparr>bl_slot = 9, bl_parent_slot = 8, bl_blockhash = en_hash (last sample_entries),
     bl_parent_blockhash = replicate 32 7, bl_executed_transaction_count = 2, bl_entry_count = 2\<rparr>"

lemma sample_verifies:
  "vo_findings (verify_block_in_era toy_sha Full sample_block sample_entries [(0, [[5]]), (1, [[6]])] 1 (Some 5) False) = []"
  by code_simp

theorem verify_block_exact_witness:
  "structure_ok sample_block sample_entries 1 (Some 5) False \<and>
   entries_chain toy_sha [(0, [[5]]), (1, [[6]])] (bl_parent_blockhash sample_block) sample_entries"
  using verify_block_exact [of "Some 5" toy_sha sample_block sample_entries "[(0, [[5]]), (1, [[6]])]" 1 False]
    sample_verifies by (simp add: u64_max_def)

text \<open>
  C13. What a clean full verification proves: the recorded blockhash is the Proof-of-History fold of
  all entries, with their transaction mixins, over the parent's blockhash, and the block did
  \<open>(slot - parent) * ticks_per_slot * hashes_per_tick\<close> hashes of work.
\<close>

theorem verified_block_work:
  assumes "vo_findings (verify_block_in_era sha Full block entries txs tps (Some h) False) = []"
    and "entries \<noteq> []" "0 < h" "h < u64_max" "bl_slot block \<noteq> 0"
    and "(bl_slot block - bl_parent_slot block) * tps \<le> u64_max"
  shows "bl_blockhash block =
      foldl (\<lambda>prev e. next_hash sha prev (en_num_hashes e) (the (mixin_of sha txs e))) (bl_parent_blockhash block) entries \<and>
    sum_list (map en_num_hashes entries) = h * ((bl_slot block - bl_parent_slot block) * tps)"
proof -
  have ok: "structure_ok block entries tps (Some h) False" "entries_chain sha txs (bl_parent_blockhash block) entries"
    using assms(1,4) full_Nil [of "Some h"] by auto
  have final: "is_tick (last entries)" "en_hash (last entries) = bl_blockhash block" "paced h 0 entries"
    "length (filter is_tick entries) = (bl_slot block - bl_parent_slot block) * tps"
    using ok(1) assms(2,3,5,6) by (simp_all add: structure_ok_def expected_tick_count_def sat_mul_def sat_sub_def)
  then show ?thesis using entries_chain_hash [OF ok(2)] paced_work [OF final(3) assms(2) final(1)] assms(2) by simp
qed

theorem verified_block_work_witness:
  "sum_list (map en_num_hashes sample_entries) = 5 * ((9 - 8) * 1)"
  using verified_block_work [OF sample_verifies]
  by (simp add: sample_block_def sample_entries_def Let_def u64_max_def)

text \<open>
  C33. Recomputation re-anchors at the recorded hash of every entry, so a corrupt row is blamed where it
  is: with the entries indexed reliably, replacing the row at position \<open>k\<close> leaves the findings of
  every entry but \<open>k\<close> and its successor as they were.
\<close>

theorem corrupt_row_is_local:
  assumes "i < length entries" "i \<noteq> k" "i \<noteq> Suc k"
  shows "entry_findings sha slot txs ((prev # map en_hash (entries[k := e])) ! i) (entries[k := e] ! i) =
         entry_findings sha slot txs ((prev # map en_hash entries) ! i) (entries ! i) \<and>
    vo_findings (hash_chain_loop sha slot txs prev entries out) =
      vo_findings out @ concat (map (\<lambda>j. entry_findings sha slot txs ((prev # map en_hash entries) ! j) (entries ! j))
        [0..<length entries])"
proof -
  have "map2 (entry_findings sha slot txs) (prev # map en_hash entries) entries =
      map (\<lambda>j. entry_findings sha slot txs ((prev # map en_hash entries) ! j) (entries ! j)) [0..<length entries]"
    by (rule nth_equalityI) auto
  then show ?thesis using assms by (cases i) (auto simp: hash_chain_loop_findings map_update nth_list_update)
qed

theorem corrupt_row_is_local_witness:
  "entry_findings toy_sha 9 [] ((replicate 32 7 # map en_hash (sample_entries[1 := hd sample_entries])) ! 0)
     (sample_entries[1 := hd sample_entries] ! 0) =
   entry_findings toy_sha 9 [] ((replicate 32 7 # map en_hash sample_entries) ! 0) (sample_entries ! 0)"
  using corrupt_row_is_local [of 0 sample_entries 1 toy_sha 9 "[]" "replicate 32 7"] by (simp add: sample_entries_def Let_def)

end
