(* ===== verification/Chain_Walk.thy ===== *)
theory Chain_Walk
  imports Verify_Block
begin

text \<open>
  The walk over the blocks of a range (\<^verbatim>\<open>src/crates/superbank-verify/src/chain.rs\<close>): it carries the last
  present block, checks that parents link up and sorts every absent slot into skipped (the next block's
  parent claim passes over it) or missing.  \<open>HashMap\<close> and \<open>BTreeSet\<close> are the lists of
  \<^verbatim>\<open>Rust_Collections\<close>.
\<close>

section \<open>State\<close>

record observe_result =
  or_findings :: "finding list"
  or_skipped_span :: "span option"
  or_missing_span :: "span option"

record chain_walk =
  cw_prev :: "(slot \<times> hash32) option"
  cw_floor :: slot
  cw_expected_genesis_hash :: "hash32 option"
  cw_anchors :: "(slot, hash32) hmap"
  cw_checked_anchors :: "(slot, unit) btree"
  cw_genesis_checked :: bool

definition from_checkpoint ::
  "slot \<Rightarrow> hash32 option \<Rightarrow> (slot, hash32) hmap \<Rightarrow> (slot, unit) btree \<Rightarrow> bool \<Rightarrow> chain_walk" where
  "from_checkpoint floor expected_genesis_hash anchors checked_anchors genesis_checked =
     \<lparr>cw_prev = None, cw_floor = floor, cw_expected_genesis_hash = expected_genesis_hash,
      cw_anchors = anchors, cw_checked_anchors = checked_anchors, cw_genesis_checked = genesis_checked\<rparr>"

definition last_present :: "chain_walk \<Rightarrow> slot option" where
  "last_present self = map_option fst (cw_prev self)"

definition unchecked_anchors :: "chain_walk \<Rightarrow> (slot \<times> hash32) list" where
  "unchecked_anchors self =
     sort_key fst (filter (\<lambda>(slot, _). bt_get (cw_checked_anchors self) slot = None) (cw_anchors self))"

definition seed :: "slot \<Rightarrow> hash32 \<Rightarrow> chain_walk \<Rightarrow> chain_walk" where
  "seed slot blockhash self =
     (if cw_prev self = None then self\<lparr>cw_prev := Some (slot, blockhash)\<rparr> else self)"

section \<open>Observing a block\<close>

definition missing_span_finding :: "slot \<Rightarrow> slot \<Rightarrow> finding" where
  "missing_span_finding lo hi = finding_new lo Missing_block"

definition span_len :: "span option \<Rightarrow> nat" where
  "span_len sp = (case sp of Some (lo, hi) \<Rightarrow> sat_sub hi lo + 1 | None \<Rightarrow> 0)"

definition walk_lower :: "chain_walk \<Rightarrow> slot" where
  "walk_lower self =
     (case cw_prev self of Some (slot, _) \<Rightarrow> max (sat_add slot 1) (cw_floor self) | None \<Rightarrow> cw_floor self)"

definition classify_interval :: "chain_walk \<Rightarrow> block_info \<Rightarrow> observe_result \<Rightarrow> observe_result" where
  "classify_interval self block result =
     (let lower = walk_lower self
      in if bl_slot block \<le> lower then result
         else
           let upper = bl_slot block - 1;
               claim = bl_parent_slot block;
               missing_hi = min claim upper;
               result =
                 (if lower \<le> missing_hi
                  then result\<lparr>or_missing_span := Some (lower, missing_hi),
                         or_findings := or_findings result @ [missing_span_finding lower missing_hi]\<rparr>
                  else result);
               skipped_lo = max (sat_add claim 1) lower
           in if skipped_lo \<le> upper then result\<lparr>or_skipped_span := Some (skipped_lo, upper)\<rparr> else result)"

definition check_linkage :: "chain_walk \<Rightarrow> block_info \<Rightarrow> observe_result \<Rightarrow> observe_result" where
  "check_linkage self block result =
     (let push = (\<lambda>f. result\<lparr>or_findings := or_findings result @ [f]\<rparr>)
      in case cw_prev self of
           Some (prev_slot, prev_hash) \<Rightarrow>
             if bl_parent_slot block = prev_slot then
               (if bl_parent_blockhash block \<noteq> prev_hash
                then push (with_expected_actual (Base58 prev_hash) (Base58 (bl_parent_blockhash block))
                             (finding_new (bl_slot block) Chain_break))
                else result)
             else if prev_slot < bl_parent_slot block then push (finding_new (bl_slot block) Missing_parent)
             else push (with_expected_actual (Number prev_slot) (Number (bl_parent_slot block))
                          (finding_new (bl_slot block) Parent_slot_mismatch))
         | None \<Rightarrow> push (finding_new (bl_slot block) Missing_parent))"

definition observe_result_default :: observe_result where
  "observe_result_default = \<lparr>or_findings = [], or_skipped_span = None, or_missing_span = None\<rparr>"

definition observe_genesis :: "chain_walk \<Rightarrow> block_info \<Rightarrow> chain_walk \<times> observe_result" where
  "observe_genesis self block =
     (let f1 = (if bl_parent_slot block \<noteq> 0
                then [with_expected_actual (Number 0) (Number (bl_parent_slot block))
                        (finding_new 0 Parent_slot_mismatch)]
                else [])
      in case cw_expected_genesis_hash self of
           None \<Rightarrow> (self, observe_result_default\<lparr>or_findings := f1\<rparr>)
         | Some genesis \<Rightarrow>
             (self\<lparr>cw_genesis_checked := True\<rparr>,
              observe_result_default\<lparr>or_findings := f1 @
                (if bl_parent_blockhash block \<noteq> genesis
                 then [with_expected_actual (Base58 genesis) (Base58 (bl_parent_blockhash block))
                         (finding_new 0 Genesis_hash_mismatch)]
                 else [])\<rparr>))"

definition observe_block :: "chain_walk \<Rightarrow> block_info \<Rightarrow> chain_walk \<times> observe_result" where
  "observe_block self block =
     (let (self, result) =
            (if bl_slot block = 0 then observe_genesis self block
             else if bl_slot block \<le> bl_parent_slot block then
               (self, observe_result_default\<lparr>or_findings :=
                  [with_expected_actual (Below (bl_slot block)) (Number (bl_parent_slot block))
                     (finding_new (bl_slot block) Parent_slot_mismatch)]\<rparr>)
             else (self, check_linkage self block (classify_interval self block observe_result_default)));
          (self, result) =
            (case hm_get (cw_anchors self) (bl_slot block) of
               None \<Rightarrow> (self, result)
             | Some anchor \<Rightarrow>
                 (self\<lparr>cw_checked_anchors := bt_insert (bl_slot block) () (cw_checked_anchors self)\<rparr>,
                  if anchor \<noteq> bl_blockhash block
                  then result\<lparr>or_findings := or_findings result @
                    [with_expected_actual (Base58 anchor) (Base58 (bl_blockhash block))
                       (finding_new (bl_slot block) Anchor_mismatch)]\<rparr>
                  else result))
      in (self\<lparr>cw_prev := Some (bl_slot block, bl_blockhash block)\<rparr>, result))"

definition observe_tail :: "chain_walk \<Rightarrow> slot \<Rightarrow> block_info option \<Rightarrow> observe_result" where
  "observe_tail self range_end next_block =
     (let lower = walk_lower self
      in if range_end < lower then observe_result_default
         else
           let result =
                 (case next_block of
                    Some nxt \<Rightarrow>
                      let claim = bl_parent_slot nxt;
                          missing_hi = min claim range_end;
                          result = (if lower \<le> missing_hi
                                    then observe_result_default\<lparr>or_missing_span := Some (lower, missing_hi)\<rparr>
                                    else observe_result_default);
                          skipped_lo = max (sat_add claim 1) lower
                      in if skipped_lo \<le> range_end
                         then result\<lparr>or_skipped_span := Some (skipped_lo, range_end)\<rparr> else result
                  | None \<Rightarrow> observe_result_default\<lparr>or_missing_span := Some (lower, range_end)\<rparr>)
           in case or_missing_span result of
                Some (lo, hi) \<Rightarrow> result\<lparr>or_findings := or_findings result @ [missing_span_finding lo hi]\<rparr>
              | None \<Rightarrow> result)"

text \<open>The walk over a list of blocks, with the result of each.\<close>

fun walk_blocks :: "chain_walk \<Rightarrow> block_info list \<Rightarrow> chain_walk \<times> observe_result list" where
  "walk_blocks self [] = (self, [])"
| "walk_blocks self (block # blocks) =
     (let (self, result) = observe_block self block;
          (self, results) = walk_blocks self blocks
      in (self, result # results))"

section \<open>Specification\<close>

definition opt_span :: "span option \<Rightarrow> slot set" where
  "opt_span sp = (case sp of None \<Rightarrow> {} | Some (lo, hi) \<Rightarrow> {lo..hi})"

definition absent :: "observe_result \<Rightarrow> slot set" where
  "absent r = opt_span (or_skipped_span r) \<union> opt_span (or_missing_span r)"

definition absent_len :: "observe_result \<Rightarrow> nat" where
  "absent_len r = span_len (or_skipped_span r) + span_len (or_missing_span r)"

text \<open>A block whose parent claim is possible.\<close>

definition claim_possible :: "block_info \<Rightarrow> bool" where
  "claim_possible block \<longleftrightarrow> bl_slot block < u64_max \<and> (bl_slot block = 0 \<or> bl_parent_slot block < bl_slot block)"

lemma opt_span_simps [simp]: "opt_span None = {}" "opt_span (Some (lo, hi)) = {lo..hi}"
  by (simp_all add: opt_span_def)

lemma span_len_simps [simp]: "span_len None = 0" "lo \<le> hi \<Longrightarrow> span_len (Some (lo, hi)) = Suc hi - lo"
  by (simp_all add: span_len_def sat_sub_def)

lemma absent_default [simp]:
  "or_skipped_span observe_result_default = None" "or_missing_span observe_result_default = None"
  "or_findings observe_result_default = []"
  by (simp_all add: observe_result_default_def)

section \<open>Every slot is accounted for\<close>

lemma check_linkage_spans [simp]:
  "or_skipped_span (check_linkage self block r) = or_skipped_span r"
  "or_missing_span (check_linkage self block r) = or_missing_span r"
  by (simp_all add: check_linkage_def Let_def split: option.splits)

text \<open>A claim splits an interval into a missing lower and a skipped upper part.\<close>

lemma claim_splits:
  fixes claim lower upper :: nat
  assumes "upper < u64_max" "lower \<le> upper"
  defines "m \<equiv> (if lower \<le> min claim upper then Some (lower, min claim upper) else None)"
    and "s \<equiv> (if max (sat_add claim 1) lower \<le> upper then Some (max (sat_add claim 1) lower, upper) else None)"
  shows "opt_span s \<union> opt_span m = {lower..upper}" "span_len s + span_len m = Suc upper - lower"
proof -
  have c: "sat_add claim 1 \<le> upper \<longleftrightarrow> claim < upper" using assms(1) by (auto simp: sat_add_def)
  have c': "claim < upper \<Longrightarrow> sat_add claim 1 = Suc claim" using assms(1) by (intro sat_add_one_eq) simp
  show "opt_span s \<union> opt_span m = {lower..upper}"
    using assms(2) c c' unfolding m_def s_def by (cases "claim < upper") (auto simp: max_def min_def)
  show "span_len s + span_len m = Suc upper - lower"
    using assms(2) c c' unfolding m_def s_def by (cases "claim < upper") (auto simp: max_def min_def)
qed

lemma observe_block_prev [simp]:
  "cw_prev (fst (observe_block self block)) = Some (bl_slot block, bl_blockhash block)"
  "cw_floor (fst (observe_block self block)) = cw_floor self"
  "cw_anchors (fst (observe_block self block)) = cw_anchors self"
  "cw_expected_genesis_hash (fst (observe_block self block)) = cw_expected_genesis_hash self"
  by (auto simp: observe_block_def observe_genesis_def Let_def split: option.splits)

lemma observe_block_spans:
  "or_skipped_span (snd (observe_block self block)) =
     (if bl_slot block = 0 \<or> bl_slot block \<le> bl_parent_slot block then None
      else or_skipped_span (classify_interval self block observe_result_default))"
  "or_missing_span (snd (observe_block self block)) =
     (if bl_slot block = 0 \<or> bl_slot block \<le> bl_parent_slot block then None
      else or_missing_span (classify_interval self block observe_result_default))"
  by (auto simp: observe_block_def observe_genesis_def Let_def split: option.splits)

lemma classify_interval_account:
  assumes "walk_lower self < bl_slot block" "bl_slot block < u64_max"
  shows "absent (classify_interval self block observe_result_default) = {walk_lower self..<bl_slot block}"
    "absent_len (classify_interval self block observe_result_default) = bl_slot block - walk_lower self"
proof -
  obtain upper where up: "bl_slot block = Suc upper" using assms(1) by (metis Suc_pred less_zeroE not_gr_zero)
  then have le: "upper < u64_max" "walk_lower self \<le> upper" using assms by simp_all
  note split = claim_splits [OF le, of "bl_parent_slot block"]
  let ?c = "classify_interval self block observe_result_default"
  have "or_missing_span ?c = (if walk_lower self \<le> min (bl_parent_slot block) upper
      then Some (walk_lower self, min (bl_parent_slot block) upper) else None)"
    "or_skipped_span ?c = (if max (sat_add (bl_parent_slot block) 1) (walk_lower self) \<le> upper
      then Some (max (sat_add (bl_parent_slot block) 1) (walk_lower self), upper) else None)"
    using assms(1) by (simp_all add: classify_interval_def Let_def up)
  then show "absent ?c = {walk_lower self..<bl_slot block}" "absent_len ?c = bl_slot block - walk_lower self"
    unfolding absent_def absent_len_def using split by (simp_all add: up atLeastLessThanSuc_atLeastAtMost del: One_nat_def)
qed

lemma walk_lower_observe:
  assumes "bl_slot block < u64_max" "cw_floor self \<le> bl_slot block"
  shows "walk_lower (fst (observe_block self block)) = Suc (bl_slot block)"
  using assms sat_add_one_eq [of "bl_slot block"] by (simp add: walk_lower_def max_def del: One_nat_def)

lemma floor_le_lower: "cw_floor self \<le> walk_lower self"
  by (auto simp: walk_lower_def split: option.splits)

lemma observe_block_account:
  assumes "claim_possible block" "walk_lower self \<le> bl_slot block"
  shows "absent (snd (observe_block self block)) = {walk_lower self..<bl_slot block}"
    "absent_len (snd (observe_block self block)) = bl_slot block - walk_lower self"
    "walk_lower (fst (observe_block self block)) = Suc (bl_slot block)"
proof -
  let ?r = "snd (observe_block self block)"
  show "walk_lower (fst (observe_block self block)) = Suc (bl_slot block)"
    using assms floor_le_lower [of self] by (intro walk_lower_observe) (auto simp: claim_possible_def)
  have "absent ?r = {walk_lower self..<bl_slot block} \<and> absent_len ?r = bl_slot block - walk_lower self"
  proof (cases "bl_slot block = 0 \<or> walk_lower self = bl_slot block")
    case True
    then show ?thesis using assms(2)
      by (auto simp: absent_def absent_len_def observe_block_spans classify_interval_def Let_def)
  next
    case False
    then have lt: "walk_lower self < bl_slot block" "bl_slot block < u64_max" "\<not> bl_slot block \<le> bl_parent_slot block"
      using assms by (auto simp: claim_possible_def)
    have "absent ?r = absent (classify_interval self block observe_result_default)"
      "absent_len ?r = absent_len (classify_interval self block observe_result_default)"
      using lt(3) False by (simp_all add: absent_def absent_len_def observe_block_spans)
    then show ?thesis using classify_interval_account [OF lt(1,2)] by simp
  qed
  then show "absent ?r = {walk_lower self..<bl_slot block}" "absent_len ?r = bl_slot block - walk_lower self"
    by simp_all
qed

lemma walk_blocks_account:
  "sorted_wrt (<) (map bl_slot blocks) \<Longrightarrow> \<forall>b\<in>set blocks. claim_possible b \<and> walk_lower self \<le> bl_slot b \<Longrightarrow>
     walk_blocks self blocks = (self', results) \<Longrightarrow>
     walk_lower self \<le> walk_lower self' \<and>
     (\<forall>b\<in>set blocks. bl_slot b < walk_lower self') \<and>
     (\<Union>r\<in>set results. absent r) \<union> bl_slot ` set blocks = {walk_lower self..<walk_lower self'} \<and>
     length blocks + sum_list (map absent_len results) = walk_lower self' - walk_lower self \<and>
     (blocks \<noteq> [] \<longrightarrow> walk_lower self' = Suc (bl_slot (last blocks)))"
proof (induction blocks arbitrary: self self' results)
  case Nil
  then show ?case by simp
next
  case (Cons b blocks)
  obtain self1 r where o: "observe_block self b = (self1, r)" by fastforce
  obtain rs where rs: "walk_blocks self1 blocks = (self', rs)" "results = r # rs"
    using Cons.prems(3) o by (auto simp: Let_def split: prod.splits)
  have ok: "claim_possible b" "walk_lower self \<le> bl_slot b" using Cons.prems(2) by simp_all
  note acc = observe_block_account [OF ok, unfolded o fst_conv snd_conv]
  have "\<forall>b'\<in>set blocks. claim_possible b' \<and> walk_lower self1 \<le> bl_slot b'"
    using Cons.prems(1,2) acc(3) by (auto simp: Suc_le_eq)
  then have IH: "walk_lower self1 \<le> walk_lower self'" "\<forall>b\<in>set blocks. bl_slot b < walk_lower self'"
    "(\<Union>r\<in>set rs. absent r) \<union> bl_slot ` set blocks = {walk_lower self1..<walk_lower self'}"
    "length blocks + sum_list (map absent_len rs) = walk_lower self' - walk_lower self1"
    "blocks \<noteq> [] \<longrightarrow> walk_lower self' = Suc (bl_slot (last blocks))"
    using Cons.IH [OF _ _ rs(1)] Cons.prems(1) by auto
  have "(\<Union>r\<in>set results. absent r) \<union> bl_slot ` set (b # blocks) =
      {walk_lower self..<bl_slot b} \<union> {bl_slot b} \<union> {Suc (bl_slot b)..<walk_lower self'}"
    using IH(3) acc by (auto simp: rs(2))
  also have "\<dots> = {walk_lower self..<walk_lower self'}" using ok(2) IH(1) acc(3) by auto
  finally have u: "(\<Union>r\<in>set results. absent r) \<union> bl_slot ` set (b # blocks) = {walk_lower self..<walk_lower self'}" .
  have "blocks = [] \<Longrightarrow> self' = self1" using rs(1) by simp
  then have l: "walk_lower self' = Suc (bl_slot (last (b # blocks)))" using IH(5) acc(3) by auto
  have len: "length (b # blocks) + sum_list (map absent_len results) = walk_lower self' - walk_lower self"
    using IH(1,4) acc(2,3) ok(2) by (simp add: rs(2))
  show ?case using u l len IH(1,2) acc(3) ok(2) by auto
qed

lemma observe_tail_account:
  assumes "range_end < u64_max" "walk_lower self \<le> Suc range_end"
  shows "absent (observe_tail self range_end next_block) = {walk_lower self..range_end}"
    "absent_len (observe_tail self range_end next_block) = Suc range_end - walk_lower self"
proof -
  have "absent (observe_tail self range_end next_block) = {walk_lower self..range_end} \<and>
    absent_len (observe_tail self range_end next_block) = Suc range_end - walk_lower self"
  proof (cases "range_end < walk_lower self")
    case True
    then show ?thesis by (simp add: observe_tail_def absent_def absent_len_def)
  next
    case False
    then have le: "walk_lower self \<le> range_end" by simp
    show ?thesis
    proof (cases next_block)
      case None
      then show ?thesis using False le by (simp add: observe_tail_def Let_def absent_def absent_len_def)
    next
      case (Some nxt)
      note split = claim_splits [OF assms(1) le, of "bl_parent_slot nxt"]
      let ?m = "min (bl_parent_slot nxt) range_end" and ?s = "max (sat_add (bl_parent_slot nxt) 1) (walk_lower self)"
      have "or_missing_span (observe_tail self range_end next_block) =
          (if walk_lower self \<le> ?m then Some (walk_lower self, ?m) else None)"
        "or_skipped_span (observe_tail self range_end next_block) =
          (if ?s \<le> range_end then Some (?s, range_end) else None)"
        using False Some by (cases "walk_lower self \<le> ?m"; cases "?s \<le> range_end"; simp add: observe_tail_def Let_def)+
      then show ?thesis unfolding absent_def absent_len_def using split by presburger
    qed
  qed
  then show "absent (observe_tail self range_end next_block) = {walk_lower self..range_end}"
    "absent_len (observe_tail self range_end next_block) = Suc range_end - walk_lower self" by simp_all
qed

section \<open>Which absent slots are skipped and which are missing\<close>

text \<open>
  The status of a slot by the whole table \<open>D\<close>: an absent slot was skipped when the next block claims a
  parent below it, and is missing when that block claims it or a later slot, or there is no next block.
\<close>

definition slot_present :: "block_info list \<Rightarrow> slot \<Rightarrow> bool" where
  "slot_present D x \<longleftrightarrow> x \<in> bl_slot ` set D"

definition block_after :: "block_info list \<Rightarrow> slot \<Rightarrow> block_info option" where
  "block_after D x = find (\<lambda>b. x < bl_slot b) D"

definition slot_skipped :: "block_info list \<Rightarrow> slot \<Rightarrow> bool" where
  "slot_skipped D x \<longleftrightarrow>
     \<not> slot_present D x \<and> (case block_after D x of None \<Rightarrow> False | Some b \<Rightarrow> bl_parent_slot b < x)"

definition slot_missing :: "block_info list \<Rightarrow> slot \<Rightarrow> bool" where
  "slot_missing D x \<longleftrightarrow>
     \<not> slot_present D x \<and> (case block_after D x of None \<Rightarrow> True | Some b \<Rightarrow> x \<le> bl_parent_slot b)"

text \<open>The first slot of the range or the slot after a block: where a missing span can start.\<close>

definition gap_start :: "block_info list \<Rightarrow> slot \<Rightarrow> slot \<Rightarrow> bool" where
  "gap_start D floor x \<longleftrightarrow> x = floor \<or> (\<exists>b\<in>set D. x = Suc (bl_slot b))"

definition missing_slots :: "finding list \<Rightarrow> slot set" where
  "missing_slots fs = fi_slot ` {f \<in> set fs. fi_code f = Missing_block}"

lemma missing_slots_simps [simp]:
  "missing_slots [] = {}" "missing_slots (fs @ gs) = missing_slots fs \<union> missing_slots gs"
  "missing_slots (f # fs) = (if fi_code f = Missing_block then insert (fi_slot f) (missing_slots fs) else missing_slots fs)"
  by (auto simp: missing_slots_def)

text \<open>Counting the slots of an interval.\<close>

definition count_slots :: "(slot \<Rightarrow> bool) \<Rightarrow> slot \<Rightarrow> slot \<Rightarrow> nat" where
  "count_slots P a b = card {x \<in> {a..<b}. P x}"

lemma count_slots_split: "a \<le> b \<Longrightarrow> b \<le> c \<Longrightarrow> count_slots P a c = count_slots P a b + count_slots P b c"
proof -
  assume "a \<le> b" "b \<le> c"
  then have "{x \<in> {a..<c}. P x} = {x \<in> {a..<b}. P x} \<union> {x \<in> {b..<c}. P x}" by auto
  moreover have "card ({x \<in> {a..<b}. P x} \<union> {x \<in> {b..<c}. P x}) = count_slots P a b + count_slots P b c"
    unfolding count_slots_def by (rule card_Un_disjoint) auto
  ultimately show ?thesis by (simp add: count_slots_def)
qed

lemma count_slots_one: "count_slots P a (Suc a) = (if P a then 1 else 0)"
proof -
  have "{x \<in> {a..<Suc a}. P x} = (if P a then {a} else {})" by (auto simp: less_Suc_eq_le)
  then show ?thesis by (simp add: count_slots_def)
qed

lemma count_slots_same [simp]: "count_slots P a a = 0"
  by (simp add: count_slots_def)

lemma block_after_first:
  assumes "sorted_wrt (<) (map bl_slot D)" "block \<in> set D" "x < bl_slot block"
    and "\<forall>b\<in>set D. x < bl_slot b \<longrightarrow> bl_slot block \<le> bl_slot b"
  shows "block_after D x = Some block"
  using assms unfolding block_after_def
proof (induction D)
  case (Cons b D)
  then show ?case by (cases "b = block") fastforce+
qed simp

text \<open>What a span classification says about an interval \<open>[a, b)\<close> with one next block.\<close>

definition classified :: "block_info list \<Rightarrow> slot \<Rightarrow> slot \<Rightarrow> slot \<Rightarrow> observe_result \<Rightarrow> bool" where
  "classified D floor a b r \<longleftrightarrow>
     span_len (or_skipped_span r) = count_slots (slot_skipped D) a b \<and>
     span_len (or_missing_span r) = count_slots (slot_missing D) a b \<and>
     count_slots (slot_present D) a b = 0 \<and>
     missing_slots (or_findings r) = {x \<in> {a..<b}. slot_missing D x \<and> gap_start D floor x}"

lemma classify_by_claim:
  fixes claim a b :: nat
  assumes "a \<le> b" "b \<le> u64_max" "floor \<le> a" "gap_start D floor a"
    and "\<forall>x\<in>{a..<b}. \<not> slot_present D x \<and> (slot_skipped D x \<longleftrightarrow> claim < x) \<and> (slot_missing D x \<longleftrightarrow> x \<le> claim)"
    and "or_missing_span r = (if a < b \<and> a \<le> min claim (b - 1) then Some (a, min claim (b - 1)) else None)"
    and "or_skipped_span r = (if a < b \<and> max (sat_add claim 1) a \<le> b - 1 then Some (max (sat_add claim 1) a, b - 1) else None)"
    and "missing_slots (or_findings r) = (if or_missing_span r = None then {} else {a})"
  shows "classified D floor a b r"
proof -
  have one: "{x \<in> {a..<b}. slot_missing D x} = {x \<in> {a..<b}. x \<le> claim}" "{x \<in> {a..<b}. slot_skipped D x} = {x \<in> {a..<b}. claim < x}"
    "{x \<in> {a..<b}. slot_present D x} = {}"
    using assms(5) by auto
  have m: "{x \<in> {a..<b}. x \<le> claim} = opt_span (or_missing_span r)"
    unfolding assms(6) by (auto simp: opt_span_def)
  have c: "b \<noteq> 0 \<Longrightarrow> sat_add claim 1 \<le> b - 1 \<longleftrightarrow> claim < b - 1" "claim < b - 1 \<Longrightarrow> sat_add claim 1 = Suc claim"
    using assms(2) by (auto simp: sat_add_def)
  have s: "{x \<in> {a..<b}. claim < x} = opt_span (or_skipped_span r)"
    unfolding assms(7) using c assms(1) by (auto simp: opt_span_def max_def split: if_splits)
  have len: "span_len (or_missing_span r) = card (opt_span (or_missing_span r))"
    "span_len (or_skipped_span r) = card (opt_span (or_skipped_span r))"
    unfolding assms(6,7) by auto
  have "x = a" if x: "x \<in> {a..<b}" "gap_start D floor x" for x
  proof (rule ccontr)
    assume "x \<noteq> a"
    then obtain y where "y \<in> set D" "x = Suc (bl_slot y)" using x assms(3) by (auto simp: gap_start_def)
    then show False using assms(5) x(1) \<open>x \<noteq> a\<close> by (auto simp: slot_present_def)
  qed
  then have "{x \<in> {a..<b}. slot_missing D x \<and> gap_start D floor x} = {x \<in> {a..<b}. x \<le> claim} \<inter> {a}"
    using one(1) assms(4) by blast
  moreover have "opt_span (or_missing_span r) \<inter> {a} = (if or_missing_span r = None then {} else {a})"
    unfolding assms(6) by auto
  ultimately show ?thesis
    using m s len one by (simp add: classified_def count_slots_def assms(8))
qed

lemma check_linkage_missing [simp]:
  "missing_slots (or_findings (check_linkage self block r)) = missing_slots (or_findings r)"
  by (simp add: check_linkage_def Let_def split: option.splits)

lemma observe_block_findings:
  "missing_slots (or_findings (snd (observe_block self block))) =
     (if bl_slot block = 0 \<or> bl_slot block \<le> bl_parent_slot block then {}
      else missing_slots (or_findings (classify_interval self block observe_result_default)))"
  by (auto simp: observe_block_def observe_genesis_def Let_def split: option.splits)

lemma observe_block_classified:
  assumes D: "sorted_wrt (<) (map bl_slot D)" "block \<in> set D" "\<forall>b\<in>set D. walk_lower self \<le> bl_slot b \<longrightarrow> bl_slot block \<le> bl_slot b"
    and ok: "claim_possible block" "walk_lower self \<le> bl_slot block"
    and gap: "cw_floor self = floor" "gap_start D floor (walk_lower self)"
  shows "classified D floor (walk_lower self) (bl_slot block) (snd (observe_block self block))"
proof (rule classify_by_claim [where claim = "bl_parent_slot block"])
  let ?a = "walk_lower self" and ?b = "bl_slot block" and ?r = "snd (observe_block self block)"
  let ?c = "classify_interval self block observe_result_default"
  show "\<forall>x\<in>{?a..<?b}. \<not> slot_present D x \<and> (slot_skipped D x \<longleftrightarrow> bl_parent_slot block < x) \<and> (slot_missing D x \<longleftrightarrow> x \<le> bl_parent_slot block)"
  proof
    fix x assume x: "x \<in> {?a..<?b}"
    then have "block_after D x = Some block" using D by (intro block_after_first) auto
    moreover have "\<not> slot_present D x" using D(3) x by (auto simp: slot_present_def)
    ultimately show "\<not> slot_present D x \<and> (slot_skipped D x \<longleftrightarrow> bl_parent_slot block < x) \<and> (slot_missing D x \<longleftrightarrow> x \<le> bl_parent_slot block)"
      by (simp add: slot_skipped_def slot_missing_def)
  qed
  have none: "?a < ?b \<Longrightarrow> \<not> (?b = 0 \<or> ?b \<le> bl_parent_slot block)"
    using ok(1) by (auto simp: claim_possible_def)
  show "or_missing_span ?r = (if ?a < ?b \<and> ?a \<le> min (bl_parent_slot block) (?b - 1) then Some (?a, min (bl_parent_slot block) (?b - 1)) else None)"
    and "or_skipped_span ?r = (if ?a < ?b \<and> max (sat_add (bl_parent_slot block) 1) ?a \<le> ?b - 1 then Some (max (sat_add (bl_parent_slot block) 1) ?a, ?b - 1) else None)"
    and "missing_slots (or_findings ?r) = (if or_missing_span ?r = None then {} else {?a})"
    using none by (auto simp: observe_block_spans observe_block_findings classify_interval_def Let_def missing_span_finding_def)
qed (use ok gap floor_le_lower [of self] in \<open>auto simp: claim_possible_def\<close>)

lemma observe_tail_classified:
  assumes D: "\<forall>b\<in>set D. walk_lower self \<le> bl_slot b \<longrightarrow> range_end < bl_slot b"
    and ok: "range_end < u64_max" "walk_lower self \<le> Suc range_end"
    and gap: "cw_floor self = floor" "gap_start D floor (walk_lower self)"
  shows "classified D floor (walk_lower self) (Suc range_end) (observe_tail self range_end (block_after D range_end))"
proof -
  let ?a = "walk_lower self" and ?n = "block_after D range_end" and ?r = "observe_tail self range_end (block_after D range_end)"
  let ?claim = "case ?n of None \<Rightarrow> range_end | Some b \<Rightarrow> bl_parent_slot b"
  show ?thesis
  proof (rule classify_by_claim [where claim = ?claim])
    show "\<forall>x\<in>{?a..<Suc range_end}. \<not> slot_present D x \<and> (slot_skipped D x \<longleftrightarrow> ?claim < x) \<and> (slot_missing D x \<longleftrightarrow> x \<le> ?claim)"
    proof
      fix x assume x: "x \<in> {?a..<Suc range_end}"
      then have "\<forall>b\<in>set D. x < bl_slot b \<longleftrightarrow> range_end < bl_slot b" using D by fastforce
      then have "block_after D x = ?n" unfolding block_after_def by (intro find_cong) auto
      moreover have "\<not> slot_present D x" using D x by (auto simp: slot_present_def)
      ultimately show "\<not> slot_present D x \<and> (slot_skipped D x \<longleftrightarrow> ?claim < x) \<and> (slot_missing D x \<longleftrightarrow> x \<le> ?claim)"
        using x by (auto simp: slot_skipped_def slot_missing_def split: option.splits)
    qed
    show "or_missing_span ?r = (if ?a < Suc range_end \<and> ?a \<le> min ?claim (Suc range_end - 1) then Some (?a, min ?claim (Suc range_end - 1)) else None)"
      and "or_skipped_span ?r = (if ?a < Suc range_end \<and> max (sat_add ?claim 1) ?a \<le> Suc range_end - 1
          then Some (max (sat_add ?claim 1) ?a, Suc range_end - 1) else None)"
      and "missing_slots (or_findings ?r) = (if or_missing_span ?r = None then {} else {?a})"
      using ok(1) by (cases ?n; auto simp: observe_tail_def Let_def missing_span_finding_def sat_add_def)+
  qed (use ok gap floor_le_lower [of self] in auto)
qed

text \<open>The same for a whole walk over all the blocks of \<open>D\<close> up to \<open>hi\<close>.\<close>

lemma walk_blocks_classified:
  assumes D: "sorted_wrt (<) (map bl_slot D)" "\<forall>b\<in>set D. claim_possible b"
  shows "sorted_wrt (<) (map bl_slot blocks) \<Longrightarrow>
     \<forall>b. b \<in> set blocks \<longleftrightarrow> b \<in> set D \<and> walk_lower self \<le> bl_slot b \<and> bl_slot b \<le> hi \<Longrightarrow>
     cw_floor self = floor \<Longrightarrow> gap_start D floor (walk_lower self) \<Longrightarrow> walk_blocks self blocks = (self', results) \<Longrightarrow>
     walk_lower self \<le> walk_lower self' \<and> cw_floor self' = floor \<and> gap_start D floor (walk_lower self') \<and>
     (\<forall>b\<in>set D. walk_lower self' \<le> bl_slot b \<longrightarrow> hi < bl_slot b) \<and>
     sum_list (map (span_len \<circ> or_skipped_span) results) = count_slots (slot_skipped D) (walk_lower self) (walk_lower self') \<and>
     sum_list (map (span_len \<circ> or_missing_span) results) = count_slots (slot_missing D) (walk_lower self) (walk_lower self') \<and>
     length blocks = count_slots (slot_present D) (walk_lower self) (walk_lower self') \<and>
     missing_slots (concat (map or_findings results)) =
       {x \<in> {walk_lower self..<walk_lower self'}. slot_missing D x \<and> gap_start D floor x}"
proof (induction blocks arbitrary: self results)
  case Nil
  then show ?case by (auto simp: not_le)
next
  case (Cons b blocks)
  obtain self1 r where o: "observe_block self b = (self1, r)" by fastforce
  obtain rs where rs: "walk_blocks self1 blocks = (self', rs)" "results = r # rs"
    using Cons.prems(5) o by (auto simp: Let_def split: prod.splits)
  have b: "b \<in> set D" "walk_lower self \<le> bl_slot b" "bl_slot b \<le> hi" using Cons.prems(2) by (auto dest: spec [of _ b])
  have least: "bl_slot b \<le> bl_slot x" if "x \<in> set D" "walk_lower self \<le> bl_slot x" for x
  proof (cases "bl_slot x \<le> hi")
    case True
    then have "x \<in> set (b # blocks)" using Cons.prems(2) that by blast
    then show ?thesis using Cons.prems(1) by auto
  qed (use b(3) in simp)
  have cp: "claim_possible b" using D(2) b(1) by blast
  note acc = observe_block_account [OF cp b(2), unfolded o fst_conv snd_conv]
  have cl: "classified D floor (walk_lower self) (bl_slot b) r"
    using observe_block_classified [OF D(1) b(1) _ cp b(2) Cons.prems(3,4)] least o by simp
  have f1: "cw_floor self1 = floor" using observe_block_prev(2) [of self b] o Cons.prems(3) by simp
  have g1: "gap_start D floor (walk_lower self1)" using acc(3) b(1) by (auto simp: gap_start_def)
  have "x \<in> set blocks \<longleftrightarrow> x \<in> set D \<and> walk_lower self1 \<le> bl_slot x \<and> bl_slot x \<le> hi" for x
  proof
    assume "x \<in> set blocks"
    then show "x \<in> set D \<and> walk_lower self1 \<le> bl_slot x \<and> bl_slot x \<le> hi"
      using Cons.prems(1) Cons.prems(2) [rule_format, of x] acc(3) by (auto simp: Suc_le_eq)
  next
    assume x: "x \<in> set D \<and> walk_lower self1 \<le> bl_slot x \<and> bl_slot x \<le> hi"
    then have "x \<in> set (b # blocks)" "x \<noteq> b" using Cons.prems(2) [rule_format, of x] acc(3) b(2) by auto
    then show "x \<in> set blocks" by simp
  qed
  then have mem: "\<forall>x. x \<in> set blocks \<longleftrightarrow> x \<in> set D \<and> walk_lower self1 \<le> bl_slot x \<and> bl_slot x \<le> hi" by blast
  have sorted: "sorted_wrt (<) (map bl_slot blocks)" using Cons.prems(1) by simp
  note IH = Cons.IH [OF sorted mem f1 g1 rs(1)]
  let ?a = "walk_lower self" and ?b = "bl_slot b" and ?c = "walk_lower self'"
  have le: "?a \<le> ?b" "?b \<le> Suc ?b" "Suc ?b \<le> ?c" using b(2) IH acc(3) by auto
  have split: "count_slots P ?a ?c = count_slots P ?a ?b + (if P ?b then 1 else 0) + count_slots P (Suc ?b) ?c" for P
    using count_slots_split [OF le(1), of ?c P] count_slots_split [OF le(2,3), of P] le by (simp add: count_slots_one)
  have at: "slot_present D ?b" "\<not> slot_skipped D ?b" "\<not> slot_missing D ?b"
    using b(1) by (auto simp: slot_present_def slot_skipped_def slot_missing_def)
  have "{?a..<?c} = {?a..<?b} \<union> {?b} \<union> {Suc ?b..<?c}" using le by auto
  then have "{x \<in> {?a..<?c}. slot_missing D x \<and> gap_start D floor x} =
      {x \<in> {?a..<?b}. slot_missing D x \<and> gap_start D floor x} \<union> {x \<in> {Suc ?b..<?c}. slot_missing D x \<and> gap_start D floor x}"
    using at(3) by blast
  then show ?case using cl IH split at le acc(3) by (simp add: rs(2) classified_def)
qed

section \<open>A walk without findings\<close>

text \<open>Each block names the one before it as its parent, by slot and by hash, and anchors agree.\<close>

fun linked_from :: "slot \<times> hash32 \<Rightarrow> block_info list \<Rightarrow> bool" where
  "linked_from prev [] \<longleftrightarrow> True"
| "linked_from prev (block # blocks) \<longleftrightarrow>
     (bl_parent_slot block, bl_parent_blockhash block) = prev \<and> linked_from (bl_slot block, bl_blockhash block) blocks"

definition anchor_agrees :: "(slot, hash32) hmap \<Rightarrow> block_info \<Rightarrow> bool" where
  "anchor_agrees anchors block \<longleftrightarrow>
     (case hm_get anchors (bl_slot block) of None \<Rightarrow> True | Some anchor \<Rightarrow> anchor = bl_blockhash block)"

lemma classify_findings_Nil:
  assumes "cw_prev self = Some (ps, ph)" "ps < bl_slot block" "bl_slot block < u64_max"
  shows "bl_parent_slot block \<le> ps \<Longrightarrow> or_findings (classify_interval self block observe_result_default) = []"
proof -
  have "Suc ps \<le> walk_lower self" using assms sat_add_one_eq [of ps] by (simp add: walk_lower_def del: One_nat_def)
  moreover assume "bl_parent_slot block \<le> ps"
  ultimately show ?thesis by (simp add: classify_interval_def Let_def)
qed

lemma observe_block_clean:
  assumes "cw_prev self = Some (ps, ph)" "ps < bl_slot block" "bl_slot block < u64_max"
  shows "or_findings (snd (observe_block self block)) = [] \<longleftrightarrow>
    (bl_parent_slot block, bl_parent_blockhash block) = (ps, ph) \<and> anchor_agrees (cw_anchors self) block"
proof -
  have "or_findings (snd (observe_block self block)) = [] \<longleftrightarrow>
      bl_parent_slot block < bl_slot block \<and>
      or_findings (check_linkage self block (classify_interval self block observe_result_default)) = [] \<and>
      anchor_agrees (cw_anchors self) block"
    using assms(2) by (auto simp: observe_block_def anchor_agrees_def Let_def split: option.splits)
  also have "\<dots> \<longleftrightarrow> (bl_parent_slot block, bl_parent_blockhash block) = (ps, ph) \<and> anchor_agrees (cw_anchors self) block"
    using assms(1,2) classify_findings_Nil [OF assms] by (auto simp: check_linkage_def Let_def)
  finally show ?thesis .
qed

lemma walk_blocks_clean:
  "cw_prev self = Some prev \<Longrightarrow> sorted_wrt (<) (fst prev # map bl_slot blocks) \<Longrightarrow>
     \<forall>b\<in>set blocks. bl_slot b < u64_max \<Longrightarrow>
     (\<forall>r\<in>set (snd (walk_blocks self blocks)). or_findings r = []) \<longleftrightarrow>
     linked_from prev blocks \<and> (\<forall>b\<in>set blocks. anchor_agrees (cw_anchors self) b)"
proof (induction blocks arbitrary: self prev)
  case (Cons b blocks)
  obtain ps ph where prev: "prev = (ps, ph)" by (cases prev)
  let ?s = "fst (observe_block self b)"
  have "snd (walk_blocks self (b # blocks)) = snd (observe_block self b) # snd (walk_blocks ?s blocks)"
    by (simp add: Let_def split: prod.splits)
  moreover have "(\<forall>r\<in>set (snd (walk_blocks ?s blocks)). or_findings r = []) \<longleftrightarrow>
      linked_from (bl_slot b, bl_blockhash b) blocks \<and> (\<forall>b\<in>set blocks. anchor_agrees (cw_anchors self) b)"
    using Cons.IH [of ?s "(bl_slot b, bl_blockhash b)"] Cons.prems(2,3) by simp
  moreover have "or_findings (snd (observe_block self b)) = [] \<longleftrightarrow>
      (bl_parent_slot b, bl_parent_blockhash b) = (ps, ph) \<and> anchor_agrees (cw_anchors self) b"
    using Cons.prems by (intro observe_block_clean) (simp_all add: prev)
  ultimately show ?case by (auto simp: prev)
qed simp

section \<open>Properties\<close>

text \<open>
  C14. A walk over ascending blocks with possible parent claims accounts for every slot of its range
  exactly once: the blocks, the skipped and missing spans in front of them and those of the tail cover
  the range, and their sizes add up to its length.
\<close>

theorem walk_accounts_every_slot:
  assumes "sorted_wrt (<) (map bl_slot blocks)" "range_end < u64_max" "walk_lower self \<le> range_end"
    and "\<forall>b\<in>set blocks. claim_possible b \<and> walk_lower self \<le> bl_slot b \<and> bl_slot b \<le> range_end"
  shows "let (self', results) = walk_blocks self blocks;
             tail = observe_tail self' range_end next_block
         in (\<Union>r\<in>set results. absent r) \<union> bl_slot ` set blocks \<union> absent tail = {walk_lower self..range_end} \<and>
            length blocks + sum_list (map absent_len results) + absent_len tail = Suc range_end - walk_lower self"
proof -
  obtain self' results where w: "walk_blocks self blocks = (self', results)" by fastforce
  have "\<forall>b\<in>set blocks. claim_possible b \<and> walk_lower self \<le> bl_slot b" using assms(4) by simp
  note acc = walk_blocks_account [OF assms(1) this w]
  have "walk_lower self' \<le> Suc range_end"
  proof (cases "blocks = []")
    case True
    then show ?thesis using w assms(3) by simp
  next
    case False
    then have "bl_slot (last blocks) \<le> range_end" using assms(4) by simp
    then show ?thesis using acc False by simp
  qed
  note tail = observe_tail_account [OF assms(2) this, of next_block]
  have "{walk_lower self..<walk_lower self'} \<union> {walk_lower self'..range_end} = {walk_lower self..range_end}"
    using acc \<open>walk_lower self' \<le> Suc range_end\<close> by auto
  then show ?thesis using acc tail w \<open>walk_lower self' \<le> Suc range_end\<close> by simp
qed

definition sample_chain :: "block_info list" where
  "sample_chain =
     [\<lparr>bl_slot = 12, bl_parent_slot = 10, bl_blockhash = [12], bl_parent_blockhash = [10],
       bl_executed_transaction_count = 0, bl_entry_count = 0\<rparr>,
      \<lparr>bl_slot = 15, bl_parent_slot = 12, bl_blockhash = [15], bl_parent_blockhash = [12],
       bl_executed_transaction_count = 0, bl_entry_count = 0\<rparr>]"

definition sample_walk :: chain_walk where
  "sample_walk = seed 10 [10] (from_checkpoint 11 None [(15, [15])] [] False)"

theorem walk_accounts_every_slot_witness:
  "let (self', results) = walk_blocks sample_walk sample_chain;
       tail = observe_tail self' 20 None
   in length results = 2 \<and> (\<Union>r\<in>set results. absent r) \<union> {12, 15} \<union> absent tail = {11..20} \<and>
      2 + sum_list (map absent_len results) + absent_len tail = 10"
proof -
  have lower: "walk_lower sample_walk = 11" by code_simp
  obtain self' results where w: "walk_blocks sample_walk sample_chain = (self', results)" by fastforce
  have "length (snd (walk_blocks sample_walk sample_chain)) = 2" by code_simp
  moreover have "bl_slot ` set sample_chain = {12, 15}" "length sample_chain = 2" by (simp_all add: sample_chain_def)
  moreover have "sorted_wrt (<) (map bl_slot sample_chain)"
    "\<forall>b\<in>set sample_chain. claim_possible b \<and> walk_lower sample_walk \<le> bl_slot b \<and> bl_slot b \<le> 20"
    unfolding lower by (simp_all add: sample_chain_def claim_possible_def u64_max_def)
  ultimately show ?thesis
    using walk_accounts_every_slot [of sample_chain 20 sample_walk None] w lower by (simp add: Let_def u64_max_def)
qed

text \<open>
  C15. A walk that carries a previous block reports nothing exactly when every block names the one
  before it as its parent, by slot and hash, and agrees with the anchor of its slot if there is one.
\<close>

theorem clean_walk_is_chain:
  assumes "cw_prev self = Some prev" "sorted_wrt (<) (fst prev # map bl_slot blocks)"
    and "\<forall>b\<in>set blocks. bl_slot b < u64_max"
  shows "(\<forall>r\<in>set (snd (walk_blocks self blocks)). or_findings r = []) \<longleftrightarrow>
    linked_from prev blocks \<and> (\<forall>b\<in>set blocks. anchor_agrees (cw_anchors self) b)"
  using assms by (rule walk_blocks_clean)

theorem clean_walk_is_chain_witness:
  "list_all (\<lambda>r. or_findings r = []) (snd (walk_blocks sample_walk sample_chain)) \<and>
   linked_from (10, [10]) sample_chain"
proof -
  have "cw_prev sample_walk = Some (10, [10])" by code_simp
  moreover have "linked_from (10, [10]) sample_chain"
    "\<forall>b\<in>set sample_chain. anchor_agrees (cw_anchors sample_walk) b"
    by (simp_all add: sample_chain_def anchor_agrees_def sample_walk_def seed_def from_checkpoint_def hm_get_eq)
  ultimately show ?thesis
    using clean_walk_is_chain [of sample_walk "(10, [10])" sample_chain]
    by (simp add: sample_chain_def u64_max_def list_all_iff)
qed

text \<open>
  C30. A block that claims a parent at or above its own slot is reported, but the absent slots in front
  of it are put into neither span and the walk moves past them: they end up with no status at all.
\<close>

theorem impossible_parent_loses_slots:
  assumes "bl_slot block \<noteq> 0" "bl_slot block \<le> bl_parent_slot block" "bl_slot block < u64_max"
    and "walk_lower self < bl_slot block"
  shows "absent (snd (observe_block self block)) = {} \<and>
    walk_lower (fst (observe_block self block)) = Suc (bl_slot block) \<and>
    {walk_lower self..<bl_slot block} \<noteq> {} \<and>
    (\<exists>f\<in>set (or_findings (snd (observe_block self block))). fi_code f = Parent_slot_mismatch)"
proof -
  have "walk_lower (fst (observe_block self block)) = Suc (bl_slot block)"
    using assms floor_le_lower [of self] by (intro walk_lower_observe) auto
  then show ?thesis using assms
    by (auto simp: absent_def observe_block_spans) (auto simp: observe_block_def Let_def split: option.splits)
qed

theorem impossible_parent_loses_slots_witness:
  "absent (snd (observe_block sample_walk
     \<lparr>bl_slot = 14, bl_parent_slot = 14, bl_blockhash = [14], bl_parent_blockhash = [10],
      bl_executed_transaction_count = 0, bl_entry_count = 0\<rparr>)) = {}"
proof -
  have "walk_lower sample_walk = 11" by code_simp
  then show ?thesis using impossible_parent_loses_slots
    [of "\<lparr>bl_slot = 14, bl_parent_slot = 14, bl_blockhash = [14], bl_parent_blockhash = [10],
      bl_executed_transaction_count = 0, bl_entry_count = 0\<rparr>" sample_walk] by (simp add: u64_max_def)
qed

end
