(* ===== verification/Verify_Checkpoint.thy ===== *)
theory Verify_Checkpoint
  imports Chain_Walk
begin

text \<open>
  Resume state of the verifier (\<^verbatim>\<open>src/crates/superbank-verify/src/checkpoint.rs\<close>) and the reconciliation of the
  Alpenglow boundary (\<^verbatim>\<open>src/crates/superbank-verify/src/alpenglow.rs\<close>).  The checkpoint file is its decoded
  contents: \<open>Inl\<close> for a file that cannot be read or parsed, \<open>Inr None\<close> for no file; serialisation and the
  atomic rename are not modelled.
\<close>

section \<open>Job descriptors\<close>

record job_descriptor =
  jd_range_start :: slot
  jd_range_end :: slot
  jd_mode :: string
  jd_blocks_table :: string
  jd_entries_table :: string
  jd_transactions_table :: string
  jd_ticks_per_slot :: nat
  jd_hashes_per_tick_schedule :: string
  jd_alpenglow_genesis_block :: "(slot \<times> hash32) option"
  jd_expected_genesis_hash :: "hash32 option"
  jd_anchors :: "(slot \<times> hash32) list"
  jd_audit_duplicate_conflicts :: bool

definition matches_resume :: "job_descriptor \<Rightarrow> job_descriptor \<Rightarrow> bool \<Rightarrow> slot \<Rightarrow> bool" where
  "matches_resume self current moving_tip next_start \<longleftrightarrow>
     self = current \<or>
     (let saved = (if moving_tip \<and> jd_range_end self \<le> jd_range_end current
                   then self\<lparr>jd_range_end := jd_range_end current\<rparr> else self);
          saved = (case (jd_alpenglow_genesis_block saved, jd_alpenglow_genesis_block current) of
                     (None, Some (genesis, _)) \<Rightarrow>
                       if next_start \<le> sat_add genesis 1
                       then saved\<lparr>jd_alpenglow_genesis_block := jd_alpenglow_genesis_block current\<rparr>
                       else saved
                   | _ \<Rightarrow> saved)
      in saved = current)"

record checkpoint =
  cp_descriptor :: job_descriptor
  cp_next_start :: slot
  cp_counters :: run_counters
  cp_checked_anchors :: "(slot, unit) btree"
  cp_genesis_checked :: bool
  cp_updated_unix :: nat

datatype resume_error = Unreadable_checkpoint | Different_job

type_synonym checkpoint_file = "unit + checkpoint option"

text \<open>The checkpoint to resume from, with the file as it is afterwards.\<close>

definition load_for_resume ::
  "checkpoint_file \<Rightarrow> job_descriptor \<Rightarrow> bool \<Rightarrow> nat \<Rightarrow> resume_error + checkpoint option \<times> checkpoint_file" where
  "load_for_resume file descriptor moving_tip now_unix =
     (case file of
        Inl _ \<Rightarrow> Inl Unreadable_checkpoint
      | Inr None \<Rightarrow> Inr (None, file)
      | Inr (Some checkpoint) \<Rightarrow>
          if \<not> matches_resume (cp_descriptor checkpoint) descriptor moving_tip (cp_next_start checkpoint)
          then Inl Different_job
          else if jd_alpenglow_genesis_block (cp_descriptor checkpoint) \<noteq> jd_alpenglow_genesis_block descriptor then
            let checkpoint = checkpoint\<lparr>cp_descriptor := (cp_descriptor checkpoint)
                  \<lparr>jd_alpenglow_genesis_block := jd_alpenglow_genesis_block descriptor\<rparr>,
                  cp_updated_unix := now_unix\<rparr>
            in Inr (Some checkpoint, Inr (Some checkpoint))
          else Inr (Some checkpoint, file))"

section \<open>The Alpenglow boundary\<close>

definition reconcile_genesis_block ::
  "(slot \<times> hash32) option \<Rightarrow> (slot \<times> hash32) option \<Rightarrow> unit + (slot \<times> hash32) option" where
  "reconcile_genesis_block remote offline =
     (case offline of
        None \<Rightarrow> Inr remote
      | Some block \<Rightarrow> if remote = Some block then Inr remote else Inl ())"

text \<open>\<open>fetch\<close>: the answer of the trusted endpoint when one is configured.\<close>

definition resolve_genesis_block ::
  "(unit + (slot \<times> hash32) option) option \<Rightarrow> (slot \<times> hash32) option \<Rightarrow> unit + (slot \<times> hash32) option" where
  "resolve_genesis_block fetch offline =
     (case fetch of
        None \<Rightarrow> Inr offline
      | Some (Inl e) \<Rightarrow> Inl e
      | Some (Inr remote) \<Rightarrow> reconcile_genesis_block remote offline)"

section \<open>Which checkpoints resume a job\<close>

lemma boundary_unpassed:
  assumes "is_u64 next_start"
  shows "next_start \<le> sat_add genesis 1 \<longleftrightarrow> (\<forall>slot<next_start. slot \<le> genesis)"
proof
  show "next_start \<le> sat_add genesis 1 \<Longrightarrow> \<forall>slot<next_start. slot \<le> genesis" by (auto simp: sat_add_def)
  assume below: "\<forall>slot<next_start. slot \<le> genesis"
  have "next_start \<le> Suc genesis"
  proof (cases next_start)
    case (Suc n)
    then show ?thesis using below by simp
  qed simp
  then show "next_start \<le> sat_add genesis 1" using assms by (simp add: sat_add_def is_u64_def)
qed

text \<open>What identifies a job apart from its range end and its Alpenglow boundary.\<close>

definition fixed_part where
  "fixed_part d =
     (jd_range_start d, jd_mode d, jd_blocks_table d, jd_entries_table d, jd_transactions_table d, jd_ticks_per_slot d,
      jd_hashes_per_tick_schedule d, jd_expected_genesis_hash d, jd_anchors d, jd_audit_duplicate_conflicts (d :: job_descriptor))"

lemma fixed_part_update [simp]:
  "fixed_part (d\<lparr>jd_range_end := e\<rparr>) = fixed_part d"
  "fixed_part (d\<lparr>jd_alpenglow_genesis_block := g\<rparr>) = fixed_part d"
  by (cases d; simp add: fixed_part_def)+

lemma descriptor_eq:
  "x = y \<longleftrightarrow> fixed_part x = fixed_part y \<and> jd_range_end x = jd_range_end y \<and>
     jd_alpenglow_genesis_block x = jd_alpenglow_genesis_block y"
  by (cases x; cases y) (auto simp: fixed_part_def)

text \<open>
  A saved job may be continued as another one: the same in everything fixed, a range end that is equal or,
  with a moving tip, later, and an Alpenglow boundary that is equal or was unknown and is not yet passed.
\<close>

definition continues_job :: "job_descriptor \<Rightarrow> job_descriptor \<Rightarrow> bool \<Rightarrow> slot \<Rightarrow> bool" where
  "continues_job s c moving_tip next_start \<longleftrightarrow>
     fixed_part s = fixed_part c \<and>
     (jd_range_end c = jd_range_end s \<or> moving_tip \<and> jd_range_end s < jd_range_end c) \<and>
     (jd_alpenglow_genesis_block c = jd_alpenglow_genesis_block s \<or>
      (\<exists>genesis h. jd_alpenglow_genesis_block s = None \<and> jd_alpenglow_genesis_block c = Some (genesis, h) \<and>
         (\<forall>slot<next_start. slot \<le> genesis)))"

lemma matches_resume_iff:
  assumes "is_u64 next_start"
  shows "matches_resume s c moving_tip next_start \<longleftrightarrow> continues_job s c moving_tip next_start"
  unfolding matches_resume_def continues_job_def Let_def boundary_unpassed [OF assms, symmetric] descriptor_eq
  by (cases "jd_alpenglow_genesis_block s"; cases "jd_alpenglow_genesis_block c") (auto split: if_splits)

section \<open>Properties\<close>

text \<open>
  C22. A checkpoint resumes a job exactly when the descriptors agree in everything but the range end, which
  may only grow and only for a moving tip, and an Alpenglow boundary that was unknown before, which may
  only appear while no slot above it has been accounted.  Otherwise the job is refused as a different one.
  What is resumed is the saved checkpoint, cursor, counters and all, with the boundary of the new job and
  the time of the change written into it and into the file when the boundary is new.
\<close>

theorem resume_accepts_exactly:
  assumes "is_u64 (cp_next_start saved)"
  shows "load_for_resume (Inr (Some saved)) current moving_tip now_unix =
    (if continues_job (cp_descriptor saved) current moving_tip (cp_next_start saved) then
       let new = (if jd_alpenglow_genesis_block current = jd_alpenglow_genesis_block (cp_descriptor saved) then saved
                  else saved\<lparr>cp_descriptor := (cp_descriptor saved)
                         \<lparr>jd_alpenglow_genesis_block := jd_alpenglow_genesis_block current\<rparr>,
                       cp_updated_unix := now_unix\<rparr>)
       in Inr (Some new, Inr (Some new))
     else Inl Different_job)"
  by (simp add: load_for_resume_def matches_resume_iff [OF assms] eq_commute Let_def)

definition sample_descriptor :: job_descriptor where
  "sample_descriptor = \<lparr>jd_range_start = 0, jd_range_end = 90, jd_mode = ''full'', jd_blocks_table = ''b'',
     jd_entries_table = ''e'', jd_transactions_table = ''t'', jd_ticks_per_slot = 64,
     jd_hashes_per_tick_schedule = ''0:12500'', jd_alpenglow_genesis_block = None,
     jd_expected_genesis_hash = None, jd_anchors = [], jd_audit_duplicate_conflicts = False\<rparr>"

theorem resume_accepts_exactly_witness:
  "let saved = \<lparr>cp_descriptor = sample_descriptor, cp_next_start = 41, cp_counters = run_counters_default,
         cp_checked_anchors = [], cp_genesis_checked = False, cp_updated_unix = 5\<rparr>;
       moved = sample_descriptor\<lparr>jd_range_end := 95, jd_alpenglow_genesis_block := Some (40, [1])\<rparr>;
       late = sample_descriptor\<lparr>jd_alpenglow_genesis_block := Some (39, [1])\<rparr>;
       new = saved\<lparr>cp_descriptor := sample_descriptor\<lparr>jd_alpenglow_genesis_block := Some (40, [1])\<rparr>, cp_updated_unix := 7\<rparr>
   in load_for_resume (Inr (Some saved)) moved True 7 = Inr (Some new, Inr (Some new)) \<and>
      load_for_resume (Inr (Some saved)) moved False 7 = Inl Different_job \<and>
      load_for_resume (Inr (Some saved)) late True 7 = Inl Different_job"
proof -
  have passed: "(\<forall>slot<41. slot \<le> (39 :: nat)) = False" by (auto intro: exI [of _ 40])
  show ?thesis
    by (simp add: resume_accepts_exactly Let_def is_u64_def u64_max_def continues_job_def fixed_part_def
        sample_descriptor_def passed)
qed

end
