(* ===== verification/Rust_Strings.thy ===== *)
theory Rust_Strings
  imports Superbank_Prelude
begin

text \<open>
  The string operations of Rust's standard library that the command-line parsers use, on strings of
  characters below U+0100: trimming, splitting, joining, \<open>str::parse::<u64>\<close> and the decimal rendering
  of an integer, with the facts that make rendering and parsing inverse to each other.
\<close>

section \<open>Operations\<close>

text \<open>\<open>char::is_whitespace\<close>: the controls 9 to 13, the space, NEL and the no-break space.\<close>

definition is_whitespace :: "char \<Rightarrow> bool" where
  "is_whitespace c \<longleftrightarrow> (let n = of_char c :: nat in 9 \<le> n \<and> n \<le> 13 \<or> n = 32 \<or> n = 133 \<or> n = 160)"

definition trim :: "string \<Rightarrow> string" where
  "trim s = rev (dropWhile is_whitespace (rev (dropWhile is_whitespace s)))"

fun split_on :: "(char \<Rightarrow> bool) \<Rightarrow> string \<Rightarrow> string list" where
  "split_on p [] = [[]]"
| "split_on p (c # cs) =
     (if p c then [] # split_on p cs
      else case split_on p cs of [] \<Rightarrow> [[c]] | part # parts \<Rightarrow> (c # part) # parts)"

definition split_char :: "char \<Rightarrow> string \<Rightarrow> string list" where
  "split_char c s = split_on (\<lambda>x. x = c) s"

definition split_whitespace :: "string \<Rightarrow> string list" where
  "split_whitespace s = filter (\<lambda>part. part \<noteq> []) (split_on is_whitespace s)"

fun split_once :: "char \<Rightarrow> string \<Rightarrow> (string \<times> string) option" where
  "split_once c [] = None"
| "split_once c (x # xs) =
     (if x = c then Some ([], xs) else map_option (\<lambda>(a, b). (x # a, b)) (split_once c xs))"

fun join :: "string \<Rightarrow> string list \<Rightarrow> string" where
  "join sep [] = []"
| "join sep [part] = part"
| "join sep (part # parts) = part @ sep @ join sep parts"

definition digit_value :: "char \<Rightarrow> nat option" where
  "digit_value c = (let n = of_char c in if 48 \<le> n \<and> n \<le> 57 then Some (n - 48) else None)"

fun parse_digits :: "nat \<Rightarrow> string \<Rightarrow> nat option" where
  "parse_digits acc [] = Some acc"
| "parse_digits acc (c # cs) =
     (case digit_value c of
        None \<Rightarrow> None
      | Some d \<Rightarrow> if acc * 10 + d \<le> u64_max then parse_digits (acc * 10 + d) cs else None)"

text \<open>A leading plus sign is accepted, a lone sign and the empty string are not.\<close>

definition parse_u64 :: "string \<Rightarrow> nat option" where
  "parse_u64 s =
     (case s of
        [] \<Rightarrow> None
      | c # cs \<Rightarrow> if c = CHR ''+'' then (if cs = [] then None else parse_digits 0 cs) else parse_digits 0 s)"

fun show_nat :: "nat \<Rightarrow> string" where
  "show_nat n = (if n < 10 then [char_of (48 + n)] else show_nat (n div 10) @ [char_of (48 + n mod 10)])"

declare show_nat.simps [simp del]

section \<open>Decimal digits\<close>

definition is_digit :: "char \<Rightarrow> bool" where
  "is_digit c \<longleftrightarrow> 48 \<le> (of_char c :: nat) \<and> of_char c \<le> (57 :: nat)"

lemma of_char_digit: "n < 10 \<Longrightarrow> of_char (char_of (48 + n) :: char) = (48 + n :: nat)"
  by (simp add: of_char_of)

lemma is_digit_char_of [simp]: "n < 10 \<Longrightarrow> is_digit (char_of (48 + n :: nat))"
  by (simp add: is_digit_def of_char_digit)

lemma digit_value_char_of [simp]: "n < 10 \<Longrightarrow> digit_value (char_of (48 + n)) = Some n"
  by (simp add: digit_value_def of_char_digit)

lemma show_nat_digits: "c \<in> set (show_nat n) \<Longrightarrow> is_digit c"
proof (induction n rule: show_nat.induct)
  case (1 n)
  show ?case
  proof (cases "n < 10")
    case True
    then show ?thesis using "1.prems" by (simp add: show_nat.simps [of n])
  next
    case False
    then have "c \<in> set (show_nat (n div 10)) \<or> c = char_of (48 + n mod 10)"
      using "1.prems" by (auto simp: show_nat.simps [of n])
    then show ?thesis using "1.IH" False by auto
  qed
qed

lemma show_nat_not_Nil [simp]: "show_nat n \<noteq> []"
  by (subst show_nat.simps) simp

lemma digit_not_special:
  "is_digit c \<Longrightarrow> \<not> is_whitespace c \<and> c \<noteq> CHR '':'' \<and> c \<noteq> CHR ''-'' \<and> c \<noteq> CHR '','' \<and> c \<noteq> CHR ''+'' \<and> c \<noteq> CHR ''#''"
  by (auto simp: is_digit_def is_whitespace_def Let_def)

lemma show_nat_no_special:
  "CHR '':'' \<notin> set (show_nat n)" "CHR ''-'' \<notin> set (show_nat n)" "CHR '','' \<notin> set (show_nat n)"
  "CHR ''+'' \<notin> set (show_nat n)" "CHR ''#'' \<notin> set (show_nat n)"
  "\<forall>c\<in>set (show_nat n). \<not> is_whitespace c"
  using show_nat_digits digit_not_special by blast+

lemma parse_digits_append:
  "parse_digits acc (s @ t) = (case parse_digits acc s of None \<Rightarrow> None | Some n \<Rightarrow> parse_digits n t)"
  by (induction s arbitrary: acc) (auto split: option.splits)

lemma parse_digits_show_nat: "is_u64 n \<Longrightarrow> parse_digits 0 (show_nat n) = Some n"
proof (induction n rule: show_nat.induct)
  case (1 n)
  show ?case
  proof (cases "n < 10")
    case True
    then show ?thesis using "1.prems" by (subst show_nat.simps) (simp add: is_u64_def)
  next
    case False
    have "is_u64 (n div 10)" using "1.prems" by (auto simp: is_u64_def)
    then have "parse_digits 0 (show_nat (n div 10)) = Some (n div 10)" using "1.IH" False by blast
    then show ?thesis using "1.prems" False
      by (subst show_nat.simps) (simp add: parse_digits_append is_u64_def)
  qed
qed

lemma parse_u64_show_nat [simp]: "is_u64 n \<Longrightarrow> parse_u64 (show_nat n) = Some n"
  using parse_digits_show_nat [of n] show_nat_no_special(4) [of n]
  by (auto simp: parse_u64_def split: list.splits)

lemma parse_digits_bound: "parse_digits acc s = Some n \<Longrightarrow> is_u64 acc \<Longrightarrow> is_u64 n"
  by (induction s arbitrary: acc) (auto simp: is_u64_def split: option.splits if_splits)

lemma parse_u64_bound: "parse_u64 s = Some n \<Longrightarrow> is_u64 n"
  using parse_digits_bound [of 0 s n] parse_digits_bound [of 0 "tl s" n]
  by (auto simp: parse_u64_def is_u64_def simp del: parse_digits.simps split: list.splits if_splits)

section \<open>Trimming, splitting and joining\<close>

lemma trim_id:
  assumes "\<forall>c\<in>set s. \<not> is_whitespace c"
  shows "trim s = s"
proof -
  have "dropWhile is_whitespace t = t" if "\<forall>c\<in>set t. \<not> is_whitespace c" for t
    using that by (cases t) auto
  from this [of s] this [of "rev s"] show ?thesis using assms by (simp add: trim_def)
qed

lemma trim_show_nat [simp]: "trim (show_nat n) = show_nat n"
  by (rule trim_id) (rule show_nat_no_special(6))

lemma trim_padded:
  assumes "\<forall>c\<in>set a. is_whitespace c" "\<forall>c\<in>set b. is_whitespace c"
    and "s \<noteq> []" "\<not> is_whitespace (hd s)" "\<not> is_whitespace (last s)"
  shows "trim (a @ s @ b) = s"
proof -
  have drop: "dropWhile is_whitespace (w @ t) = t"
    if "\<forall>c\<in>set w. is_whitespace c" "t \<noteq> []" "\<not> is_whitespace (hd t)" for w t
    using that by (induction w) (auto simp: neq_Nil_conv)
  have "dropWhile is_whitespace (a @ s @ b) = s @ b" using assms by (intro drop) auto
  moreover have "dropWhile is_whitespace (rev b @ rev s) = rev s"
    using assms by (intro drop) (auto simp: hd_rev)
  ultimately show ?thesis by (simp add: trim_def)
qed

lemma split_on_none: "\<forall>c\<in>set s. \<not> p c \<Longrightarrow> split_on p s = [s]"
  by (induction s) auto

lemma split_on_append: "\<forall>c\<in>set a. \<not> p c \<Longrightarrow> p x \<Longrightarrow> split_on p (a @ x # b) = a # split_on p b"
  by (induction a) auto

lemma split_on_not_Nil [simp]: "split_on p s \<noteq> []"
  by (cases s) (auto split: list.splits)

lemma split_char_none: "c \<notin> set s \<Longrightarrow> split_char c s = [s]"
  unfolding split_char_def by (rule split_on_none) auto

lemma split_char_append: "c \<notin> set a \<Longrightarrow> split_char c (a @ c # b) = a # split_char c b"
  unfolding split_char_def by (rule split_on_append) auto

lemma split_char_join:
  "parts \<noteq> [] \<Longrightarrow> \<forall>part\<in>set parts. c \<notin> set part \<Longrightarrow> split_char c (join [c] parts) = parts"
  by (induction "[c]" parts rule: join.induct) (auto simp: split_char_none split_char_append)

lemma split_once_append: "c \<notin> set a \<Longrightarrow> split_once c (a @ c # b) = Some (a, b)"
  by (induction a) auto

lemma split_once_sound: "split_once c s = Some (a, b) \<Longrightarrow> s = a @ c # b \<and> c \<notin> set a"
  by (induction s arbitrary: a) (auto split: if_splits)

end
