(* ===== verification/Range_Spec.thy ===== *)
theory Range_Spec
  imports Rust_Strings
begin

text \<open>
  The command-line parsers: range specifications (\<^verbatim>\<open>src/crates/superbank-verify/src/range.rs\<close>; the copy in
  \<^verbatim>\<open>src/crates/superbank/src/range.rs\<close> has the same text), slot list files (\<^verbatim>\<open>src/crates/superbank/src/range.rs\<close>)
  and \<open>hashes_per_tick\<close> schedules (\<^verbatim>\<open>src/crates/superbank-verify/src/eras.rs\<close>).  An \<open>anyhow\<close> message is a
  constructor of an error datatype; the file read of a slot list is its list of lines.
\<close>

section \<open>Range specifications\<close>

datatype range_spec = Slot_range slot slot | Epoch_range nat nat

datatype part_label = Slot_start | Slot_end | Epoch_start | Epoch_end | Epoch_label

datatype range_error =
    Range_empty
  | Slot_range_format
  | Epoch_range_format
  | Start_above_end nat nat
  | Part_empty part_label
  | Part_not_integer part_label

definition parse_part :: "part_label \<Rightarrow> string \<Rightarrow> range_error + nat" where
  "parse_part label value =
     (let trimmed = trim value
      in if trimmed = [] then Inl (Part_empty label)
         else case parse_u64 trimmed of Some n \<Rightarrow> Inr n | None \<Rightarrow> Inl (Part_not_integer label))"

definition parse_pair :: "part_label \<Rightarrow> part_label \<Rightarrow> string \<Rightarrow> string \<Rightarrow> range_error + nat \<times> nat" where
  "parse_pair l1 l2 a b =
     (case parse_part l1 a of
        Inl e \<Rightarrow> Inl e
      | Inr start \<Rightarrow>
          case parse_part l2 b of
            Inl e \<Rightarrow> Inl e
          | Inr end \<Rightarrow> if end < start then Inl (Start_above_end start end) else Inr (start, end))"

definition parse_range_spec :: "string \<Rightarrow> range_error + range_spec" where
  "parse_range_spec value =
     (let normalized = trim value
      in if normalized = [] then Inl Range_empty
         else if CHR '':'' \<in> set normalized then
           (case split_char (CHR '':'') normalized of
              [a, b] \<Rightarrow> map_sum id (\<lambda>(s, e). Slot_range s e) (parse_pair Slot_start Slot_end a b)
            | _ \<Rightarrow> Inl Slot_range_format)
         else if CHR ''-'' \<in> set normalized then
           (case split_char (CHR ''-'') normalized of
              [a, b] \<Rightarrow> map_sum id (\<lambda>(s, e). Epoch_range s e) (parse_pair Epoch_start Epoch_end a b)
            | _ \<Rightarrow> Inl Epoch_range_format)
         else map_sum id (\<lambda>epoch. Epoch_range epoch epoch) (parse_part Epoch_label normalized))"

section \<open>Slot list files\<close>

fun line_slots :: "string list \<Rightarrow> string + slot list" where
  "line_slots [] = Inr []"
| "line_slots (token # tokens) =
     (if hd token = CHR ''#'' then Inr []
      else case parse_u64 token of
        None \<Rightarrow> Inl token
      | Some slot \<Rightarrow> map_sum id (Cons slot) (line_slots tokens))"

fun read_lines :: "nat \<Rightarrow> string list \<Rightarrow> nat \<times> string + slot list" where
  "read_lines number [] = Inr []"
| "read_lines number (line # rest) =
     (let number = Suc number
      in case line_slots (split_whitespace line) of
           Inl token \<Rightarrow> Inl (number, token)
         | Inr slots \<Rightarrow> map_sum id (\<lambda>more_slots. slots @ more_slots) (read_lines number rest))"

datatype slot_list_error = Invalid_slot nat string | Slot_list_empty

definition load_slot_list :: "string list \<Rightarrow> slot_list_error + slot list" where
  "load_slot_list file_lines =
     (case read_lines 0 file_lines of
        Inl (number, token) \<Rightarrow> Inl (Invalid_slot number token)
      | Inr slots \<Rightarrow> if slots = [] then Inl Slot_list_empty else Inr (sort_dedup slots))"

section \<open>Schedules of hashes per tick\<close>

record hashes_per_tick_schedule =
  hs_eras :: "(slot \<times> nat) list"

definition mainnet_hashes_per_tick :: "(slot \<times> nat) list" where
  "mainnet_hashes_per_tick =
     [(0, 12500), (253584001, 17500), (255312004, 27500), (255744008, 47500), (257040000, 57500), (257904000, 62500)]"

definition schedule_mainnet :: hashes_per_tick_schedule where
  "schedule_mainnet = \<lparr>hs_eras = mainnet_hashes_per_tick\<rparr>"

datatype schedule_error =
    Era_format string
  | Era_from_slot string
  | Era_value string
  | Schedule_empty
  | Schedule_start
  | Schedule_order

fun parse_eras :: "string list \<Rightarrow> schedule_error + (slot \<times> nat) list" where
  "parse_eras [] = Inr []"
| "parse_eras (raw # parts) =
     (let part = trim raw
      in if part = [] then parse_eras parts
         else case split_once (CHR '':'') part of
           None \<Rightarrow> Inl (Era_format part)
         | Some (from_slot, value) \<Rightarrow>
             case parse_u64 (trim from_slot) of
               None \<Rightarrow> Inl (Era_from_slot part)
             | Some slot \<Rightarrow>
                 case parse_u64 (trim value) of
                   None \<Rightarrow> Inl (Era_value part)
                 | Some n \<Rightarrow> map_sum id (Cons (slot, n)) (parse_eras parts))"

text \<open>\<open>is_sorted_by_key\<close> and the check of neighbours for equal slots.\<close>

fun is_sorted_by_key :: "('a \<Rightarrow> nat) \<Rightarrow> 'a list \<Rightarrow> bool" where
  "is_sorted_by_key key (x # y # zs) \<longleftrightarrow> key x \<le> key y \<and> is_sorted_by_key key (y # zs)"
| "is_sorted_by_key key _ \<longleftrightarrow> True"

fun any_equal_neighbours :: "('a \<Rightarrow> nat) \<Rightarrow> 'a list \<Rightarrow> bool" where
  "any_equal_neighbours key (x # y # zs) \<longleftrightarrow> key x = key y \<or> any_equal_neighbours key (y # zs)"
| "any_equal_neighbours key _ \<longleftrightarrow> False"

definition schedule_parse :: "string \<Rightarrow> schedule_error + hashes_per_tick_schedule" where
  "schedule_parse spec =
     (case parse_eras (split_char (CHR '','') spec) of
        Inl e \<Rightarrow> Inl e
      | Inr eras \<Rightarrow>
          if eras = [] then Inl Schedule_empty
          else if fst (eras ! 0) \<noteq> 0 then Inl Schedule_start
          else if \<not> is_sorted_by_key fst eras \<or> any_equal_neighbours fst eras then Inl Schedule_order
          else Inr \<lparr>hs_eras = eras\<rparr>)"

definition schedule_to_spec :: "hashes_per_tick_schedule \<Rightarrow> string" where
  "schedule_to_spec self =
     join '','' (map (\<lambda>(from_slot, value). show_nat from_slot @ '':'' @ show_nat value) (hs_eras self))"

definition partition_point :: "('a \<Rightarrow> bool) \<Rightarrow> 'a list \<Rightarrow> nat" where
  "partition_point p xs = length (takeWhile p xs)"

definition schedule_value_at :: "hashes_per_tick_schedule \<Rightarrow> slot \<Rightarrow> nat" where
  "schedule_value_at self slot =
     (let index = partition_point (\<lambda>(from_slot, _). from_slot \<le> slot) (hs_eras self)
      in if index = 0 then 0 else snd (hs_eras self ! (index - 1)))"

section \<open>Specification\<close>

definition schedule_ok :: "hashes_per_tick_schedule \<Rightarrow> bool" where
  "schedule_ok self \<longleftrightarrow>
     hs_eras self \<noteq> [] \<and> fst (hd (hs_eras self)) = 0 \<and> sorted_wrt (<) (map fst (hs_eras self)) \<and>
     (\<forall>(from_slot, value)\<in>set (hs_eras self). is_u64 from_slot \<and> is_u64 value)"

definition show_range :: "range_spec \<Rightarrow> string" where
  "show_range r =
     (case r of
        Slot_range s e \<Rightarrow> show_nat s @ '':'' @ show_nat e
      | Epoch_range s e \<Rightarrow> if s = e then show_nat s else show_nat s @ ''-'' @ show_nat e)"

definition range_ok :: "range_spec \<Rightarrow> bool" where
  "range_ok r = (case r of Slot_range s e \<Rightarrow> s \<le> e \<and> is_u64 e | Epoch_range s e \<Rightarrow> s \<le> e \<and> is_u64 e)"

section \<open>Lemmas\<close>

lemma sorted_by_key_strict:
  "is_sorted_by_key key xs \<and> \<not> any_equal_neighbours key xs \<longleftrightarrow> sorted_wrt (<) (map key xs)"
proof (induction key xs rule: is_sorted_by_key.induct)
  case (1 key x y zs)
  then show ?case by (auto intro: less_trans)
qed auto

lemma parse_eras_bound:
  "parse_eras parts = Inr eras \<Longrightarrow> \<forall>(from_slot, value)\<in>set eras. is_u64 from_slot \<and> is_u64 value"
proof (induction parts arbitrary: eras)
  case (Cons raw parts)
  then show ?case
    by (auto simp: Let_def map_sum_def parse_u64_bound split: if_splits option.splits sum.splits prod.splits)
qed simp

lemma parse_part_show_nat [simp]: "is_u64 n \<Longrightarrow> parse_part label (show_nat n) = Inr n"
  by (simp add: parse_part_def)

lemma parse_part_bound: "parse_part label s = Inr n \<Longrightarrow> is_u64 n"
  by (auto simp: parse_part_def Let_def parse_u64_bound split: if_splits option.splits)

lemma parse_pair_sound: "parse_pair l1 l2 a b = Inr (s, e) \<Longrightarrow> s \<le> e \<and> is_u64 e"
  by (auto simp: parse_pair_def parse_part_bound split: sum.splits if_splits)

lemma show_nat_ends: "\<not> is_whitespace (hd (show_nat n))" "\<not> is_whitespace (last (show_nat n))"
  using show_nat_no_special(6) [of n] by auto

lemma show_range_trimmed:
  "show_range r \<noteq> []" "\<not> is_whitespace (hd (show_range r))" "\<not> is_whitespace (last (show_range r))"
  using show_nat_ends by (auto simp: show_range_def split: range_spec.splits)

lemma parse_range_trimmed:
  assumes "range_ok r" "trim value = show_range r"
  shows "parse_range_spec value = Inr r"
proof (cases r)
  case (Slot_range s e)
  have "split_char (CHR '':'') (show_nat s @ '':'' @ show_nat e) = [show_nat s, show_nat e]"
    using split_char_append [of "CHR '':''" "show_nat s"] show_nat_no_special(1) by (simp add: split_char_none)
  moreover have "is_u64 s" "is_u64 e" "s \<le> e" using assms Slot_range by (auto simp: range_ok_def is_u64_def)
  ultimately show ?thesis
    using assms(2) by (simp add: parse_range_spec_def show_range_def Slot_range parse_pair_def Let_def)
next
  case (Epoch_range s e)
  have "split_char (CHR ''-'') (show_nat s @ ''-'' @ show_nat e) = [show_nat s, show_nat e]"
    using split_char_append [of "CHR ''-''" "show_nat s"] show_nat_no_special(2) by (simp add: split_char_none)
  moreover have "is_u64 s" "is_u64 e" "s \<le> e" using assms Epoch_range by (auto simp: range_ok_def is_u64_def)
  ultimately show ?thesis
    using assms(2) show_nat_no_special(1,2)
    by (simp add: parse_range_spec_def show_range_def Epoch_range parse_pair_def Let_def)
qed

lemma parse_range_sound: "parse_range_spec value = Inr r \<Longrightarrow> range_ok r"
  using parse_part_bound [of Epoch_label] parse_pair_sound
  by (auto simp: parse_range_spec_def range_ok_def Let_def map_sum_def split: if_splits list.splits sum.splits prod.splits)

lemma show_era_part:
  fixes f v :: nat
  assumes "is_u64 f" "is_u64 v"
  shows "CHR '','' \<notin> set (show_nat f @ '':'' @ show_nat v)"
    and "parse_eras ((show_nat f @ '':'' @ show_nat v) # parts) = map_sum id (Cons (f, v)) (parse_eras parts)"
proof -
  let ?s = "show_nat f @ '':'' @ show_nat v"
  show "CHR '','' \<notin> set ?s" using show_nat_no_special(3) by simp
  have "\<forall>c\<in>set ?s. \<not> is_whitespace c"
    using show_nat_no_special(6) by (auto simp: is_whitespace_def Let_def)
  then have "trim ?s = ?s" by (rule trim_id)
  moreover have "split_once (CHR '':'') ?s = Some (show_nat f, show_nat v)"
    using split_once_append show_nat_no_special(1) by simp
  ultimately show "parse_eras (?s # parts) = map_sum id (Cons (f, v)) (parse_eras parts)"
    using assms by simp
qed

lemma parse_eras_show:
  "\<forall>(f, v)\<in>set eras. is_u64 f \<and> is_u64 v \<Longrightarrow>
     parse_eras (map (\<lambda>(f, v). show_nat f @ '':'' @ show_nat v) eras) = Inr eras"
proof (induction eras)
  case (Cons p eras)
  then show ?case using show_era_part(2) by (cases p) (simp del: parse_eras.simps(2))
qed simp

lemma line_slots_spec:
  "line_slots tokens =
     (let ts = takeWhile (\<lambda>t. hd t \<noteq> CHR ''#'') tokens
      in case find (\<lambda>t. parse_u64 t = None) ts of
           Some t \<Rightarrow> Inl t | None \<Rightarrow> Inr (map (the \<circ> parse_u64) ts))"
  by (induction tokens) (auto simp: Let_def split: option.splits)

definition file_tokens :: "string list \<Rightarrow> string list" where
  "file_tokens file_lines = concat (map (\<lambda>line. takeWhile (\<lambda>t. hd t \<noteq> CHR ''#'') (split_whitespace line)) file_lines)"

lemma find_append: "find p (xs @ ys) = (case find p xs of None \<Rightarrow> find p ys | Some x \<Rightarrow> Some x)"
  by (induction xs) auto

lemma read_lines_spec:
  "case read_lines number file_lines of
     Inl (n, t) \<Rightarrow> number < n \<and> n \<le> number + length file_lines \<and> parse_u64 t = None \<and>
       t \<in> set (split_whitespace (file_lines ! (n - Suc number))) \<and> find (\<lambda>t. parse_u64 t = None) (file_tokens file_lines) = Some t
   | Inr slots \<Rightarrow> (\<forall>t\<in>set (file_tokens file_lines). parse_u64 t \<noteq> None) \<and>
       slots = map (the \<circ> parse_u64) (file_tokens file_lines)"
proof (induction number file_lines rule: read_lines.induct)
  case (1 number)
  then show ?case by (simp add: file_tokens_def)
next
  case (2 number line rest)
  let ?ts = "takeWhile (\<lambda>t. hd t \<noteq> CHR ''#'') (split_whitespace line)"
  show ?case
  proof (cases "find (\<lambda>t. parse_u64 t = None) ?ts")
    case (Some t)
    then have "t \<in> set (split_whitespace line)" "parse_u64 t = None"
      by (auto simp: find_Some_iff dest: set_takeWhileD [OF nth_mem])
    then show ?thesis using Some by (simp add: line_slots_spec Let_def file_tokens_def find_append)
  next
    case None
    then have "\<forall>t\<in>set ?ts. parse_u64 t \<noteq> None" by (auto simp: find_None_iff)
    then show ?thesis using None "2.IH" [OF refl]
      by (auto simp: line_slots_spec Let_def file_tokens_def find_append nth_Cons'
          split: sum.splits prod.splits)
  qed
qed

section \<open>Properties\<close>

text \<open>
  C34. Range specifications round trip: rendering a range and parsing it, with any whitespace around
  it, gives the range back.
\<close>

theorem range_spec_roundtrip:
  assumes "range_ok r" "\<forall>c\<in>set before \<union> set after. is_whitespace c"
  shows "parse_range_spec (before @ show_range r @ after) = Inr r"
  using parse_range_trimmed [OF assms(1) trim_padded] assms(2) show_range_trimmed by simp

theorem range_spec_roundtrip_witness:
  "parse_range_spec '' 10:25 '' = Inr (Slot_range 10 25)"
proof -
  have "show_range (Slot_range 10 25) = ''10:25''" by code_simp
  moreover have "range_ok (Slot_range 10 25)" by (simp add: range_ok_def is_u64_def u64_max_def)
  ultimately show ?thesis
    using range_spec_roundtrip [of "Slot_range 10 25" "'' ''" "'' ''"] by (simp add: is_whitespace_def)
qed

text \<open>
  C35. What the range parser accepts is a range: the start is at most the end and the end fits 64 bits.
\<close>

theorem range_spec_well_formed:
  assumes "parse_range_spec value = Inr r"
  shows "case r of Slot_range s e \<Rightarrow> s \<le> e \<and> e \<le> u64_max | Epoch_range s e \<Rightarrow> s \<le> e \<and> e \<le> u64_max"
  using parse_range_sound [OF assms] by (auto simp: range_ok_def is_u64_def split: range_spec.splits)

theorem range_spec_well_formed_witness:
  "parse_range_spec ''7-+9'' = Inr (Epoch_range 7 9) \<and> 7 \<le> (9::nat) \<and> 9 \<le> u64_max"
proof -
  have "parse_range_spec ''7-+9'' = Inr (Epoch_range 7 9)" by code_simp
  then show ?thesis using range_spec_well_formed [of "''7-+9''" "Epoch_range 7 9"] by simp
qed

text \<open>
  C36. Schedules round trip through their checkpoint fingerprint, so equal fingerprints mean equal
  schedules, and every accepted schedule starts at slot 0 with strictly ascending eras.
\<close>

theorem schedule_roundtrip:
  "(schedule_ok self \<longrightarrow> schedule_parse (schedule_to_spec self) = Inr self) \<and>
   (schedule_parse spec = Inr parsed \<longrightarrow> schedule_ok parsed)"
proof (intro conjI impI)
  assume ok: "schedule_ok self"
  let ?show = "\<lambda>(f, v). show_nat f @ '':'' @ show_nat v"
  have u: "\<forall>(f, v)\<in>set (hs_eras self). is_u64 f \<and> is_u64 v" and ne: "hs_eras self \<noteq> []"
    using ok by (simp_all add: schedule_ok_def)
  have "split_char (CHR '','') (schedule_to_spec self) = map ?show (hs_eras self)"
    unfolding schedule_to_spec_def using u ne show_era_part(1) by (intro split_char_join) auto
  then have "parse_eras (split_char (CHR '','') (schedule_to_spec self)) = Inr (hs_eras self)"
    using parse_eras_show [OF u] by simp
  moreover have "is_sorted_by_key fst (hs_eras self) \<and> \<not> any_equal_neighbours fst (hs_eras self)"
    using ok by (simp add: sorted_by_key_strict schedule_ok_def)
  ultimately show "schedule_parse (schedule_to_spec self) = Inr self"
    using ok hd_conv_nth [OF ne] by (simp add: schedule_parse_def schedule_ok_def)
next
  assume "schedule_parse spec = Inr parsed"
  then obtain eras where "parse_eras (split_char (CHR '','') spec) = Inr eras" "parsed = \<lparr>hs_eras = eras\<rparr>"
    "eras \<noteq> []" "fst (eras ! 0) = 0" "is_sorted_by_key fst eras \<and> \<not> any_equal_neighbours fst eras"
    by (auto simp: schedule_parse_def split: sum.splits if_splits)
  then show "schedule_ok parsed"
    using parse_eras_bound sorted_by_key_strict [of fst eras] by (simp add: schedule_ok_def hd_conv_nth)
qed

theorem schedule_roundtrip_witness:
  "schedule_to_spec \<lparr>hs_eras = [(0, 5), (30, 7)]\<rparr> = ''0:5,30:7'' \<and>
   schedule_parse ''0:5,30:7'' = Inr \<lparr>hs_eras = [(0, 5), (30, 7)]\<rparr>"
proof -
  have "schedule_ok \<lparr>hs_eras = [(0, 5), (30, 7)]\<rparr>" by (simp add: schedule_ok_def is_u64_def u64_max_def)
  moreover have "schedule_to_spec \<lparr>hs_eras = [(0, 5), (30, 7)]\<rparr> = ''0:5,30:7''" by code_simp
  ultimately show ?thesis
    using schedule_roundtrip [of "\<lparr>hs_eras = [(0, 5), (30, 7)]\<rparr>"] by simp
qed

text \<open>
  C37. The schedule's value at a slot is the value of the latest era that has started there; a
  well-formed schedule has one for every slot.
\<close>

theorem schedule_value_latest:
  assumes "schedule_ok self"
  shows "\<exists>from_slot\<le>slot. (from_slot, schedule_value_at self slot) \<in> set (hs_eras self) \<and>
    (\<forall>(f, v)\<in>set (hs_eras self). f \<le> slot \<longrightarrow> f \<le> from_slot)"
proof -
  let ?p = "\<lambda>(f, _). f \<le> slot"
  let ?eras = "hs_eras self"
  let ?k = "partition_point ?p ?eras"
  have sorted: "sorted_wrt (<) (map fst ?eras)" and "?eras \<noteq> []" "fst (hd ?eras) = 0"
    using assms by (simp_all add: schedule_ok_def)
  then have pos: "0 < ?k" by (cases ?eras) (auto simp: partition_point_def)
  have len: "?k \<le> length ?eras" by (simp add: partition_point_def length_takeWhile_le)
  let ?e = "?eras ! (?k - 1)"
  have "?e = takeWhile ?p ?eras ! (?k - 1)" using pos by (simp add: partition_point_def takeWhile_nth)
  then have "?e \<in> set (takeWhile ?p ?eras)" using pos by (simp add: partition_point_def)
  then have started: "fst ?e \<le> slot" by (auto dest: set_takeWhileD)
  have "f \<le> fst ?e" if "(f, v) \<in> set ?eras" "f \<le> slot" for f v
  proof -
    obtain i where i: "i < length ?eras" "?eras ! i = (f, v)" using \<open>(f, v) \<in> set ?eras\<close> by (metis in_set_conv_nth)
    have "i < ?k"
    proof (rule ccontr)
      assume "\<not> i < ?k"
      then have "?k < length ?eras" using i(1) by simp
      then have above: "slot < fst (?eras ! ?k)"
        using nth_length_takeWhile [of ?p ?eras] by (auto simp: partition_point_def)
      have "fst (?eras ! ?k) \<le> fst (?eras ! i)"
        using sorted_wrt_nth_less [OF sorted, of ?k i] i(1) \<open>\<not> i < ?k\<close> \<open>?k < length ?eras\<close>
        by (cases "?k = i") auto
      then show False using above i(2) \<open>f \<le> slot\<close> by simp
    qed
    then have "i < ?k - 1 \<or> i = ?k - 1" and "?k - 1 < length ?eras" using len by linarith+
    then show ?thesis using sorted_wrt_nth_less [OF sorted, of i "?k - 1"] i by auto
  qed
  then have "\<forall>(f, v)\<in>set ?eras. f \<le> slot \<longrightarrow> f \<le> fst ?e" by blast
  moreover have "(fst ?e, schedule_value_at self slot) \<in> set ?eras"
    using pos len by (simp add: schedule_value_at_def Let_def)
  ultimately show ?thesis using started by blast
qed

theorem schedule_value_latest_witness:
  "\<exists>from_slot\<le>255000000. (from_slot, schedule_value_at schedule_mainnet 255000000) \<in> set mainnet_hashes_per_tick \<and>
    schedule_value_at schedule_mainnet 255000000 = 17500"
proof -
  have "schedule_ok schedule_mainnet"
    by (simp add: schedule_ok_def schedule_mainnet_def mainnet_hashes_per_tick_def is_u64_def u64_max_def)
  moreover have "schedule_value_at schedule_mainnet 255000000 = 17500" by code_simp
  ultimately show ?thesis
    using schedule_value_latest [of schedule_mainnet 255000000] by (auto simp: schedule_mainnet_def)
qed

text \<open>
  C38. A slot list file is accepted exactly when every token before a comment is an unsigned integer
  and there is one; the result is their ascending enumeration without duplicates.  Otherwise the first
  bad token is reported with a line that contains it.
\<close>

theorem load_slot_list_exact:
  "case load_slot_list file_lines of
     Inr slots \<Rightarrow> file_tokens file_lines \<noteq> [] \<and> (\<forall>t\<in>set (file_tokens file_lines). parse_u64 t \<noteq> None) \<and>
       slots = sorted_list_of_set (set (map (the \<circ> parse_u64) (file_tokens file_lines)))
   | Inl (Invalid_slot n t) \<Rightarrow> 1 \<le> n \<and> n \<le> length file_lines \<and> t \<in> set (split_whitespace (file_lines ! (n - 1))) \<and>
       find (\<lambda>t. parse_u64 t = None) (file_tokens file_lines) = Some t
   | Inl Slot_list_empty \<Rightarrow> file_tokens file_lines = []"
  using read_lines_spec [of 0 file_lines]
  by (auto simp: load_slot_list_def sort_dedup_eq split: sum.splits prod.splits)

theorem load_slot_list_exact_witness:
  "load_slot_list [''7 3 # old'', ''3 9''] = Inr [3, 7, 9] \<and>
   find (\<lambda>t. parse_u64 t = None) (file_tokens [''1'', ''2 x'']) = Some ''x''"
proof -
  have "load_slot_list [''7 3 # old'', ''3 9''] = Inr [3, 7, 9]" by code_simp
  moreover have "load_slot_list [''1'', ''2 x''] = Inl (Invalid_slot 2 ''x'')" by code_simp
  ultimately show ?thesis using load_slot_list_exact [of "[''1'', ''2 x'']"] by simp
qed

end
