(* ===== verification/Verify_Run.thy ===== *)
theory Verify_Run
  imports Verify_Checkpoint Range_Spec
begin

text \<open>
  A verification run (\<^verbatim>\<open>src/crates/superbank-verify/src/runner.rs\<close>), with the row grouping of \<^verbatim>\<open>chdb.rs\<close> and the argument
  checks of \<^verbatim>\<open>cli.rs\<close>.  The queries of the database, the epoch schedule of the \<open>solana-epoch-schedule\<close> crate, the
  answer of the trusted RPC and the clock are parameters.  The fetcher task, the channel and the thread
  pool hand windows over in order, so the pipeline is the sequential loop \<open>run_windows\<close>; its outer
  \<open>option\<close> is the loop not returning.  Progress logs and metrics are left out, the report file is the
  list of findings written.
\<close>

section \<open>The database\<close>

record entry_row =
  er_slot :: slot
  er_entry_index :: nat
  er_starting_transaction_index :: nat
  er_transaction_count :: nat
  er_num_hashes :: nat
  er_hash :: hash32

record tx_signatures_row =
  tr_slot :: slot
  tr_slot_idx :: nat
  tr_tx_signatures :: "bytes list"

record database =
  db_bounds :: "unit + (slot \<times> slot) option"
  db_blocks :: "slot \<Rightarrow> slot \<Rightarrow> unit + block_info list"
  db_block_at :: "slot \<Rightarrow> unit + block_info option"
  db_first_block_after :: "slot \<Rightarrow> unit + block_info option"
  db_entry_rows :: "slot \<Rightarrow> slot \<Rightarrow> unit + entry_row list"
  db_tx_rows :: "slot \<Rightarrow> slot \<Rightarrow> unit + tx_signatures_row list"
  db_block_conflicts :: "slot \<Rightarrow> slot \<Rightarrow> unit + slot list"
  db_entry_conflicts :: "slot \<Rightarrow> slot \<Rightarrow> unit + (slot \<times> nat) list"
  db_tx_conflicts :: "slot \<Rightarrow> slot \<Rightarrow> unit + (slot \<times> nat) list"

definition bt_get_or :: "'v \<Rightarrow> ('k, 'v) btree \<Rightarrow> 'k \<Rightarrow> 'v" where
  "bt_get_or d m k = (case bt_get m k of Some v \<Rightarrow> v | None \<Rightarrow> d)"

definition add_entry_row :: "(slot, entry_info list) btree \<Rightarrow> entry_row \<Rightarrow> (slot, entry_info list) btree" where
  "add_entry_row by_slot row =
     bt_insert (er_slot row)
       (bt_get_or [] by_slot (er_slot row) @
        [\<lparr>en_entry_index = er_entry_index row, en_num_hashes = er_num_hashes row, en_hash = er_hash row,
          en_starting_transaction_index = er_starting_transaction_index row,
          en_transaction_count = er_transaction_count row\<rparr>])
       by_slot"

definition fetch_entries :: "database \<Rightarrow> slot \<Rightarrow> slot \<Rightarrow> unit + (slot, entry_info list) btree" where
  "fetch_entries db start end = map_sum id (foldl add_entry_row []) (db_entry_rows db start end)"

definition add_tx_row :: "(slot, tx_signatures) btree \<Rightarrow> tx_signatures_row \<Rightarrow> (slot, tx_signatures) btree" where
  "add_tx_row by_slot row =
     bt_insert (tr_slot row)
       (bt_insert (tr_slot_idx row) (tr_tx_signatures row) (bt_get_or [] by_slot (tr_slot row))) by_slot"

definition fetch_tx_signatures :: "database \<Rightarrow> slot \<Rightarrow> slot \<Rightarrow> unit + (slot, tx_signatures) btree" where
  "fetch_tx_signatures db start end = map_sum id (foldl add_tx_row []) (db_tx_rows db start end)"

definition fetch_duplicate_conflicts :: "database \<Rightarrow> slot \<Rightarrow> slot \<Rightarrow> bool \<Rightarrow> unit + finding list" where
  "fetch_duplicate_conflicts db start end include_transactions =
     (case db_block_conflicts db start end of
        Inl e \<Rightarrow> Inl e
      | Inr slots \<Rightarrow>
          let findings = map (\<lambda>slot. finding_new slot Duplicate_conflict) slots
          in case db_entry_conflicts db start end of
               Inl e \<Rightarrow> Inl e
             | Inr rows \<Rightarrow>
                 let findings = findings @
                       map (\<lambda>(slot, index). with_entry_index index (finding_new slot Duplicate_conflict)) rows
                 in if include_transactions then
                      (case db_tx_conflicts db start end of
                         Inl e \<Rightarrow> Inl e
                       | Inr rows \<Rightarrow>
                           Inr (findings @ map (\<lambda>(slot, _). finding_new slot Duplicate_conflict) rows))
                    else Inr findings)"

section \<open>Arguments\<close>

record run_args =
  ra_range :: "range_spec option"
  ra_full :: bool
  ra_mode :: verify_mode
  ra_blocks_table :: string
  ra_entries_table :: string
  ra_transactions_table :: string
  ra_ticks_per_slot :: nat
  ra_schedule :: hashes_per_tick_schedule
  ra_alpenglow_genesis_block :: "(slot \<times> hash32) option"
  ra_expected_genesis_hash :: "hash32 option"
  ra_anchors :: "(slot \<times> hash32) list"
  ra_audit_duplicate_conflicts :: bool
  ra_window_slots :: nat
  ra_fetch_ahead :: nat
  ra_resume :: bool
  ra_checkpoint_file :: bool
  ra_max_failures :: nat
  ra_export_fixture :: bool

datatype args_error =
    Range_and_full
  | Range_or_full_required
  | Resume_requires_checkpoint
  | Window_slots_zero
  | Fetch_ahead_zero
  | Window_slots_too_large
  | Fetch_ahead_too_large
  | Too_many_slots_in_flight
  | Ticks_per_slot_zero
  | Duplicate_anchor slot

fun duplicate_anchor :: "(slot, unit) btree \<Rightarrow> (slot \<times> hash32) list \<Rightarrow> slot option" where
  "duplicate_anchor seen [] = None"
| "duplicate_anchor seen ((slot, _) # anchors) =
     (if bt_get seen slot \<noteq> None then Some slot else duplicate_anchor (bt_insert slot () seen) anchors)"

definition validate_args :: "run_args \<Rightarrow> args_error + unit" where
  "validate_args args =
     (if \<not> ra_export_fixture args \<and> ra_range args \<noteq> None \<and> ra_full args then Inl Range_and_full
      else if \<not> ra_export_fixture args \<and> ra_range args = None \<and> \<not> ra_full args then Inl Range_or_full_required
      else if ra_resume args \<and> \<not> ra_checkpoint_file args then Inl Resume_requires_checkpoint
      else if ra_window_slots args = 0 then Inl Window_slots_zero
      else if ra_fetch_ahead args = 0 then Inl Fetch_ahead_zero
      else if 128 < ra_window_slots args then Inl Window_slots_too_large
      else if 2 < ra_fetch_ahead args then Inl Fetch_ahead_too_large
      else if 512 < ra_window_slots args * (ra_fetch_ahead args + 2) then Inl Too_many_slots_in_flight
      else if ra_ticks_per_slot args = 0 then Inl Ticks_per_slot_zero
      else case duplicate_anchor [] (ra_anchors args) of Some slot \<Rightarrow> Inl (Duplicate_anchor slot) | None \<Rightarrow> Inr ())"

section \<open>Windows\<close>

record window_data =
  wd_end :: slot
  wd_blocks :: "block_info list"
  wd_entries :: "(slot, entry_info list) btree"
  wd_tx_signatures :: "(slot, tx_signatures) btree"
  wd_duplicate_findings :: "finding list"
  wd_parent_seed :: "block_info option"

text \<open>The first error of \<open>try_join\<close> fails the window, whichever it is.\<close>

definition fetch_window ::
  "database \<Rightarrow> slot \<Rightarrow> slot \<Rightarrow> bool \<Rightarrow> bool \<Rightarrow> bool \<Rightarrow> unit + window_data" where
  "fetch_window db start end include_transactions audit_duplicate_conflicts need_parent_seed =
     (case db_blocks db start end of
        Inl e \<Rightarrow> Inl e
      | Inr blocks \<Rightarrow>
          case fetch_entries db start end of
            Inl e \<Rightarrow> Inl e
          | Inr entries \<Rightarrow>
              case (if include_transactions then fetch_tx_signatures db start end else Inr []) of
                Inl e \<Rightarrow> Inl e
              | Inr tx_signatures \<Rightarrow>
                  case (if audit_duplicate_conflicts
                        then fetch_duplicate_conflicts db start end include_transactions else Inr []) of
                    Inl e \<Rightarrow> Inl e
                  | Inr duplicate_findings \<Rightarrow>
                      map_sum id
                        (\<lambda>parent_seed. \<lparr>wd_end = end, wd_blocks = blocks, wd_entries = entries,
                           wd_tx_signatures = tx_signatures, wd_duplicate_findings = duplicate_findings,
                           wd_parent_seed = parent_seed\<rparr>)
                        (case blocks of
                           block # _ \<Rightarrow>
                             if need_parent_seed \<and> bl_slot block \<noteq> 0 \<and> bl_parent_slot block < start
                             then db_block_at db (bl_parent_slot block) else Inr None
                         | [] \<Rightarrow> Inr None))"

definition verify_window_block ::
  "(bytes \<Rightarrow> bytes) \<Rightarrow> window_data \<Rightarrow> verify_mode \<Rightarrow> nat \<Rightarrow> hashes_per_tick_schedule \<Rightarrow> slot option \<Rightarrow>
   block_info \<Rightarrow> verify_outcome" where
  "verify_window_block sha window mode ticks_per_slot schedule alpenglow_genesis_slot block =
     (let entries = bt_get_or [] (wd_entries window) (bl_slot block)
      in if entries \<noteq> [] then
           verify_block_in_era sha mode block entries (bt_get_or [] (wd_tx_signatures window) (bl_slot block))
             ticks_per_slot (Some (schedule_value_at schedule (bl_slot block)))
             (case alpenglow_genesis_slot of Some slot \<Rightarrow> slot < bl_slot block | None \<Rightarrow> False)
         else \<lparr>vo_findings = [finding_new (bl_slot block) Missing_entries],
               vo_entries_verified = 0, vo_hashes_computed = 0\<rparr>)"

definition verify_window ::
  "(bytes \<Rightarrow> bytes) \<Rightarrow> window_data \<Rightarrow> verify_mode \<Rightarrow> nat \<Rightarrow> hashes_per_tick_schedule \<Rightarrow> slot option \<Rightarrow>
   verify_outcome list" where
  "verify_window sha window mode ticks_per_slot schedule alpenglow_genesis_slot =
     map (verify_window_block sha window mode ticks_per_slot schedule alpenglow_genesis_slot) (wd_blocks window)"

section \<open>Accounting\<close>

definition account_spans :: "observe_result \<Rightarrow> run_counters \<Rightarrow> run_counters" where
  "account_spans result counters =
     (let skipped = span_len (or_skipped_span result);
          missing = span_len (or_missing_span result)
      in counters\<lparr>rc_slots_skipped := rc_slots_skipped counters + skipped,
                  rc_slots_missing := rc_slots_missing counters + missing\<rparr>)"

fun slot_status_loop :: "slot_status \<Rightarrow> finding list \<Rightarrow> slot_status" where
  "slot_status_loop status [] = status"
| "slot_status_loop status (f # fs) =
     (case fi_class f of
        Fail \<Rightarrow> Status_failed
      | Unverifiable \<Rightarrow> slot_status_loop Status_unverifiable fs
      | Warn \<Rightarrow> slot_status_loop status fs)"

definition slot_status_of :: "finding list \<Rightarrow> slot_status" where
  "slot_status_of findings = slot_status_loop Status_ok findings"

definition record_findings :: "finding list \<Rightarrow> run_counters \<Rightarrow> run_counters" where
  "record_findings findings counters = foldl (\<lambda>c f. record_finding (fi_code f) c) counters findings"

record run_state =
  rs_walk :: chain_walk
  rs_counters :: run_counters
  rs_report :: "finding list"
  rs_aborted :: bool
  rs_file :: checkpoint_file

definition group_findings :: "finding list \<Rightarrow> (slot, finding list) btree" where
  "group_findings findings =
     foldl (\<lambda>m f. bt_insert (fi_slot f) (bt_get_or [] m (fi_slot f) @ [f]) m) [] findings"

definition account_block ::
  "nat \<Rightarrow> run_state \<times> (slot, finding list) btree \<Rightarrow> block_info \<times> verify_outcome \<Rightarrow>
   run_state \<times> (slot, finding list) btree" where
  "account_block max_failures acc bo =
     (let (st, duplicates_by_slot) = acc;
          (block, outcome) = bo;
          (walk, chain_result) = observe_block (rs_walk st) block;
          counters = account_spans chain_result (rs_counters st);
          findings = or_findings chain_result @ vo_findings outcome @
                     bt_get_or [] duplicates_by_slot (bl_slot block);
          counters = record_slot (slot_status_of findings) counters;
          counters = counters\<lparr>rc_entries_verified := rc_entries_verified counters + vo_entries_verified outcome,
                       rc_hashes_computed := rc_hashes_computed counters + vo_hashes_computed outcome\<rparr>;
          counters = record_findings findings counters;
          aborted = (rs_aborted st \<or> 0 < max_failures \<and> max_failures \<le> failure_count counters)
      in (st\<lparr>rs_walk := walk, rs_counters := counters, rs_report := rs_report st @ findings, rs_aborted := aborted\<rparr>,
          bt_remove (bl_slot block) duplicates_by_slot))"

definition account_orphan :: "run_state \<Rightarrow> finding \<Rightarrow> run_state" where
  "account_orphan st f =
     (let counters = rs_counters st;
          counters = (if fi_class f = Fail
                      then counters\<lparr>rc_orphan_failures := rc_orphan_failures counters + 1\<rparr> else counters)
      in st\<lparr>rs_counters := record_finding (fi_code f) counters, rs_report := rs_report st @ [f]\<rparr>)"

definition checkpoint_state :: "job_descriptor \<Rightarrow> slot \<Rightarrow> run_counters \<Rightarrow> chain_walk \<Rightarrow> nat \<Rightarrow> checkpoint" where
  "checkpoint_state descriptor next_start counters walk now_unix =
     \<lparr>cp_descriptor = descriptor, cp_next_start = next_start, cp_counters = counters,
      cp_checked_anchors = cw_checked_anchors walk, cp_genesis_checked = cw_genesis_checked walk,
      cp_updated_unix = now_unix\<rparr>"

definition accounted_through :: "chain_walk \<Rightarrow> slot \<Rightarrow> slot" where
  "accounted_through walk cursor =
     (case last_present walk of Some slot \<Rightarrow> max (wrap64 (slot + 1)) cursor | None \<Rightarrow> cursor)"

definition process_window ::
  "(bytes \<Rightarrow> bytes) \<Rightarrow> run_args \<Rightarrow> job_descriptor \<Rightarrow> slot \<Rightarrow> nat \<Rightarrow> window_data \<Rightarrow> run_state \<Rightarrow> run_state" where
  "process_window sha args descriptor cursor now_unix window st =
     (let walk = (case wd_parent_seed window of
                    Some s \<Rightarrow> seed (bl_slot s) (bl_blockhash s) (rs_walk st) | None \<Rightarrow> rs_walk st);
          outcomes = verify_window sha window (ra_mode args) (ra_ticks_per_slot args) (ra_schedule args)
                       (map_option fst (jd_alpenglow_genesis_block descriptor));
          duplicates_by_slot = group_findings (wd_duplicate_findings window);
          (st, duplicates_by_slot) =
            foldl (account_block (ra_max_failures args)) (st\<lparr>rs_walk := walk\<rparr>, duplicates_by_slot)
              (zip (wd_blocks window) outcomes);
          st = foldl account_orphan st (concat (map snd duplicates_by_slot))
      in if ra_checkpoint_file args
         then st\<lparr>rs_file := Inr (Some (checkpoint_state descriptor (accounted_through (rs_walk st) cursor)
                (rs_counters st) (rs_walk st) now_unix))\<rparr>
         else st)"

section \<open>The run\<close>

partial_function (option) run_windows ::
  "(bytes \<Rightarrow> bytes) \<Rightarrow> database \<Rightarrow> run_args \<Rightarrow> job_descriptor \<Rightarrow> slot \<Rightarrow> nat \<Rightarrow> slot \<Rightarrow> slot \<Rightarrow> bool \<Rightarrow> run_state \<Rightarrow>
   (unit + run_state) option" where
  [code]: "run_windows sha db args descriptor cursor now_unix range_end start need_parent_seed st =
     (if start \<le> range_end then
        let end = min range_end (sat_add start (ra_window_slots args - 1))
        in case fetch_window db start end (ra_mode args = Full) (ra_audit_duplicate_conflicts args) need_parent_seed of
             Inl e \<Rightarrow> Some (Inl e)
           | Inr window \<Rightarrow>
               let st = process_window sha args descriptor cursor now_unix window st
               in if rs_aborted st then Some (Inr st)
                  else run_windows sha db args descriptor cursor now_unix range_end (wrap64 (end + 1))
                         (need_parent_seed \<and> wd_blocks window = []) st
      else Some (Inr st))"

definition account_tail :: "observe_result \<Rightarrow> run_state \<Rightarrow> run_state" where
  "account_tail tail st =
     st\<lparr>rs_counters := record_findings (or_findings tail) (account_spans tail (rs_counters st)),
        rs_report := rs_report st @ or_findings tail\<rparr>"

definition account_unchecked_anchor :: "run_state \<Rightarrow> slot \<times> hash32 \<Rightarrow> run_state" where
  "account_unchecked_anchor st anchor =
     (let f = finding_new (fst anchor) Anchor_not_checked;
          counters = rs_counters st;
          counters = counters\<lparr>rc_anchors_unchecked := rc_anchors_unchecked counters + 1\<rparr>
      in st\<lparr>rs_counters := record_finding (fi_code f) counters, rs_report := rs_report st @ [f]\<rparr>)"

definition finish_run :: "database \<Rightarrow> run_args \<Rightarrow> job_descriptor \<Rightarrow> nat \<Rightarrow> slot \<Rightarrow> run_state \<Rightarrow> unit + run_state" where
  "finish_run db args descriptor now_unix range_end st =
     (if rs_aborted st then Inr st
      else case db_first_block_after db range_end of
        Inl e \<Rightarrow> Inl e
      | Inr next_block \<Rightarrow>
          let st = account_tail (observe_tail (rs_walk st) range_end next_block) st;
              st = foldl account_unchecked_anchor st (unchecked_anchors (rs_walk st))
          in Inr (if ra_checkpoint_file args
                  then st\<lparr>rs_file := Inr (Some (checkpoint_state descriptor (wrap64 (range_end + 1))
                         (rs_counters st) (rs_walk st) now_unix))\<rparr>
                  else st))"

datatype run_error = Query_failed | No_blocks_found | No_range_specified | Genesis_unresolved | Resume_refused resume_error

definition resolve_range_args ::
  "run_args \<Rightarrow> database \<Rightarrow> (nat \<Rightarrow> slot) \<Rightarrow> (nat \<Rightarrow> slot) \<Rightarrow> run_error + slot \<times> slot" where
  "resolve_range_args args db first_slot_in_epoch last_slot_in_epoch =
     (if ra_full args then
        (case db_bounds db of
           Inl _ \<Rightarrow> Inl Query_failed
         | Inr None \<Rightarrow> Inl No_blocks_found
         | Inr (Some bounds) \<Rightarrow> Inr bounds)
      else case ra_range args of
        Some (Slot_range start end) \<Rightarrow> Inr (start, end)
      | Some (Epoch_range start end) \<Rightarrow> Inr (first_slot_in_epoch start, last_slot_in_epoch end)
      | None \<Rightarrow> Inl No_range_specified)"

definition canonical_anchors :: "(slot \<times> hash32) list \<Rightarrow> (slot \<times> hash32) list" where
  "canonical_anchors anchors = sort anchors"

definition job_of :: "run_args \<Rightarrow> slot \<Rightarrow> slot \<Rightarrow> (slot \<times> hash32) option \<Rightarrow> job_descriptor" where
  "job_of args range_start range_end genesis =
     \<lparr>jd_range_start = range_start, jd_range_end = range_end,
      jd_mode = (case ra_mode args of Structural \<Rightarrow> ''structural'' | Full \<Rightarrow> ''full''),
      jd_blocks_table = ra_blocks_table args, jd_entries_table = ra_entries_table args,
      jd_transactions_table = ra_transactions_table args, jd_ticks_per_slot = ra_ticks_per_slot args,
      jd_hashes_per_tick_schedule = schedule_to_spec (ra_schedule args),
      jd_alpenglow_genesis_block = genesis, jd_expected_genesis_hash = ra_expected_genesis_hash args,
      jd_anchors = canonical_anchors (ra_anchors args),
      jd_audit_duplicate_conflicts = ra_audit_duplicate_conflicts args\<rparr>"

text \<open>The run proper, from the cursor on; the report of a resumed run is appended to the old one.\<close>

definition run_from ::
  "(bytes \<Rightarrow> bytes) \<Rightarrow> database \<Rightarrow> run_args \<Rightarrow> job_descriptor \<Rightarrow> nat \<Rightarrow> checkpoint option \<Rightarrow> checkpoint_file \<Rightarrow>
   (unit + run_state) option" where
  "run_from sha db args descriptor now_unix saved file =
     (let range_end = jd_range_end descriptor;
          cursor = (case saved of Some c \<Rightarrow> cp_next_start c | None \<Rightarrow> jd_range_start descriptor);
          counters = (case saved of Some c \<Rightarrow> cp_counters c | None \<Rightarrow> run_counters_default);
          checked_anchors = (case saved of Some c \<Rightarrow> cp_checked_anchors c | None \<Rightarrow> []);
          genesis_checked = (case saved of Some c \<Rightarrow> cp_genesis_checked c | None \<Rightarrow> False);
          walk = from_checkpoint cursor (ra_expected_genesis_hash args) (ra_anchors args) checked_anchors genesis_checked;
          st = \<lparr>rs_walk = walk, rs_counters = counters, rs_report = [], rs_aborted = False, rs_file = file\<rparr>
      in if range_end < cursor then Some (Inr st)
         else
           case run_windows sha db args descriptor cursor now_unix range_end cursor True st of
             None \<Rightarrow> None
           | Some (Inl e) \<Rightarrow> Some (Inl e)
           | Some (Inr st) \<Rightarrow> Some (finish_run db args descriptor now_unix range_end st))"

definition run ::
  "(bytes \<Rightarrow> bytes) \<Rightarrow> (nat \<Rightarrow> slot) \<Rightarrow> (nat \<Rightarrow> slot) \<Rightarrow> (unit + (slot \<times> hash32) option) option \<Rightarrow> database \<Rightarrow> run_args \<Rightarrow>
   nat \<Rightarrow> checkpoint_file \<Rightarrow> (run_error + run_state) option" where
  "run sha first_slot_in_epoch last_slot_in_epoch trusted_rpc db args now_unix file =
     (case resolve_range_args args db first_slot_in_epoch last_slot_in_epoch of
        Inl e \<Rightarrow> Some (Inl e)
      | Inr (range_start, range_end) \<Rightarrow>
          case resolve_genesis_block trusted_rpc (ra_alpenglow_genesis_block args) of
            Inl _ \<Rightarrow> Some (Inl Genesis_unresolved)
          | Inr genesis \<Rightarrow>
              let descriptor = job_of args range_start range_end genesis
              in case (if ra_resume args \<and> ra_checkpoint_file args
                       then load_for_resume file descriptor (ra_full args) now_unix else Inr (None, file)) of
                   Inl e \<Rightarrow> Some (Inl (Resume_refused e))
                 | Inr (saved, file) \<Rightarrow>
                     map_option (map_sum (\<lambda>_. Query_failed) id)
                       (run_from sha db args descriptor now_unix saved file))"

section \<open>The loop over windows\<close>

lemma run_windows_done:
  "range_end < start \<Longrightarrow>
     run_windows sha db args d cursor now range_end start need st = Some (Inr st)"
  by (subst run_windows.simps) simp

lemma run_windows_step:
  assumes "start \<le> range_end"
  shows "run_windows sha db args d cursor now range_end start need st =
    (let end = min range_end (sat_add start (ra_window_slots args - 1))
     in case fetch_window db start end (ra_mode args = Full) (ra_audit_duplicate_conflicts args) need of
          Inl e \<Rightarrow> Some (Inl e)
        | Inr window \<Rightarrow>
            let st = process_window sha args d cursor now window st
            in if rs_aborted st then Some (Inr st)
               else run_windows sha db args d cursor now range_end (wrap64 (end + 1))
                      (need \<and> wd_blocks window = []) st)"
  using assms by (subst run_windows.simps) simp

text \<open>Below the largest slot a window ends at or after its start, so the next one starts higher.\<close>

lemma window_advances:
  fixes w :: nat
  assumes "start \<le> range_end" "range_end < u64_max"
  defines "e \<equiv> min range_end (sat_add start (w - 1))"
  shows "start \<le> e" "e \<le> range_end" "wrap64 (e + 1) = Suc e"
proof -
  show "start \<le> e" "e \<le> range_end" using assms(1,2) by (auto simp: e_def sat_add_def)
  then show "wrap64 (e + 1) = Suc e" using assms(2) by (simp add: wrap64_def)
qed

text \<open>Induction over the windows of a range.\<close>

lemma run_windows_induct [consumes 1, case_names past failed aborted continued]:
  assumes "range_end < u64_max"
    and "\<And>start need st. range_end < start \<Longrightarrow> P start need st (Inr st)"
    and "\<And>start e need st f. start \<le> e \<Longrightarrow> e \<le> range_end \<Longrightarrow>
      fetch_window db start e (ra_mode args = Full) (ra_audit_duplicate_conflicts args) need = Inl f \<Longrightarrow>
      P start need st (Inl f)"
    and "\<And>start e need st window. start \<le> e \<Longrightarrow> e \<le> range_end \<Longrightarrow>
      fetch_window db start e (ra_mode args = Full) (ra_audit_duplicate_conflicts args) need = Inr window \<Longrightarrow>
      rs_aborted (process_window sha args d cursor now window st) \<Longrightarrow>
      P start need st (Inr (process_window sha args d cursor now window st))"
    and "\<And>start e need st window r. start \<le> e \<Longrightarrow> e \<le> range_end \<Longrightarrow>
      fetch_window db start e (ra_mode args = Full) (ra_audit_duplicate_conflicts args) need = Inr window \<Longrightarrow>
      \<not> rs_aborted (process_window sha args d cursor now window st) \<Longrightarrow>
      P (Suc e) (need \<and> wd_blocks window = []) (process_window sha args d cursor now window st) r \<Longrightarrow>
      P start need st r"
  shows "\<exists>r. run_windows sha db args d cursor now range_end start need st = Some r \<and> P start need st r"
proof (induction "Suc range_end - start" arbitrary: start need st rule: less_induct)
  case less
  show ?case
  proof (cases "start \<le> range_end")
    case False
    then show ?thesis using assms(2) by (simp add: run_windows_done)
  next
    case True
    define e where "e = min range_end (sat_add start (ra_window_slots args - 1))"
    note adv = window_advances [OF True assms(1), of "ra_window_slots args", folded e_def]
    note step = run_windows_step [OF True, of sha db args d cursor now need st, folded e_def]
    show ?thesis
    proof (cases "fetch_window db start e (ra_mode args = Full) (ra_audit_duplicate_conflicts args) need")
      case (Inl f)
      then show ?thesis using step assms(3) [OF adv(1,2)] by (simp add: Let_def)
    next
      case (Inr window)
      let ?st = "process_window sha args d cursor now window st"
      show ?thesis
      proof (cases "rs_aborted ?st")
        case True
        then show ?thesis using step Inr assms(4) [OF adv(1,2) Inr True] by (simp add: Let_def)
      next
        case False
        have "Suc range_end - Suc e < Suc range_end - start" using adv(1,2) by linarith
        then obtain r where "run_windows sha db args d cursor now range_end (Suc e) (need \<and> wd_blocks window = []) ?st = Some r"
          "P (Suc e) (need \<and> wd_blocks window = []) ?st r"
          using less [of "Suc e" "need \<and> wd_blocks window = []" ?st] by blast
        then show ?thesis using step Inr False adv(3) assms(5) [OF adv(1,2) Inr False] by (auto simp: Let_def)
      qed
    qed
  qed
qed

section \<open>What a window does to the counters\<close>

lemma record_findings_frame [simp]:
  "slots_accounted (record_findings fs c) = slots_accounted c"
  "rc_slots_failed (record_findings fs c) = rc_slots_failed c"
  "rc_slots_unverifiable (record_findings fs c) = rc_slots_unverifiable c"
  "rc_slots_missing (record_findings fs c) = rc_slots_missing c"
  "rc_orphan_failures (record_findings fs c) = rc_orphan_failures c"
  "rc_anchors_unchecked (record_findings fs c) = rc_anchors_unchecked c"
  unfolding record_findings_def by (induction fs arbitrary: c) simp_all

lemma slots_accounted_update [simp]:
  "slots_accounted (c\<lparr>rc_entries_verified := a, rc_hashes_computed := b\<rparr>) = slots_accounted c"
  "slots_accounted (c\<lparr>rc_orphan_failures := a\<rparr>) = slots_accounted c"
  "slots_accounted (c\<lparr>rc_anchors_unchecked := a\<rparr>) = slots_accounted c"
  "slots_accounted (account_spans r c) = slots_accounted c + absent_len r"
  by (simp_all add: slots_accounted_def account_spans_def absent_len_def Let_def)

lemma account_block_effect:
  "rs_walk (fst (account_block mf (st, dups) (b, out))) = fst (observe_block (rs_walk st) b)"
  "slots_accounted (rs_counters (fst (account_block mf (st, dups) (b, out)))) =
     Suc (slots_accounted (rs_counters st) + absent_len (snd (observe_block (rs_walk st) b)))"
  "mf = 0 \<Longrightarrow> rs_aborted (fst (account_block mf (st, dups) (b, out))) = rs_aborted st"
  by (simp_all add: account_block_def Let_def split: prod.splits)

lemma account_blocks_effect:
  "length outs = length blocks \<Longrightarrow> foldl (account_block mf) (st, dups) (zip blocks outs) = (st', dups') \<Longrightarrow>
     rs_walk st' = fst (walk_blocks (rs_walk st) blocks) \<and>
     slots_accounted (rs_counters st') =
       slots_accounted (rs_counters st) + length blocks + sum_list (map absent_len (snd (walk_blocks (rs_walk st) blocks))) \<and>
     (mf = 0 \<longrightarrow> rs_aborted st' = rs_aborted st)"
proof (induction outs blocks arbitrary: st dups rule: list_induct2)
  case (Cons out outs b blocks)
  obtain st1 dups1 where one: "account_block mf (st, dups) (b, out) = (st1, dups1)" by fastforce
  have rest: "foldl (account_block mf) (st1, dups1) (zip blocks outs) = (st', dups')" using Cons.prems one by simp
  show ?case using Cons.IH [OF rest] account_block_effect [of mf st dups b out] one
    by (auto simp: Let_def split: prod.splits)
qed simp

lemma account_orphans_effect:
  "rs_walk (foldl account_orphan st fs) = rs_walk st"
  "slots_accounted (rs_counters (foldl account_orphan st fs)) = slots_accounted (rs_counters st)"
  "rs_aborted (foldl account_orphan st fs) = rs_aborted st"
  by (induction fs arbitrary: st) (simp_all add: account_orphan_def Let_def)

definition seeded :: "window_data \<Rightarrow> chain_walk \<Rightarrow> chain_walk" where
  "seeded window walk =
     (case wd_parent_seed window of Some s \<Rightarrow> seed (bl_slot s) (bl_blockhash s) walk | None \<Rightarrow> walk)"

lemma process_window_effect:
  fixes st :: run_state and window :: window_data
  defines "w \<equiv> seeded window (rs_walk st)"
  shows "rs_walk (process_window sha args d cursor now window st) = fst (walk_blocks w (wd_blocks window))"
    "slots_accounted (rs_counters (process_window sha args d cursor now window st)) =
       slots_accounted (rs_counters st) + length (wd_blocks window) +
       sum_list (map absent_len (snd (walk_blocks w (wd_blocks window))))"
    "ra_max_failures args = 0 \<Longrightarrow> rs_aborted (process_window sha args d cursor now window st) = rs_aborted st"
proof -
  let ?outs = "verify_window sha window (ra_mode args) (ra_ticks_per_slot args) (ra_schedule args)
    (map_option fst (jd_alpenglow_genesis_block d))"
  obtain st1 dups1 where fold: "foldl (account_block (ra_max_failures args))
      (st\<lparr>rs_walk := w\<rparr>, group_findings (wd_duplicate_findings window)) (zip (wd_blocks window) ?outs) = (st1, dups1)"
    by fastforce
  have "length ?outs = length (wd_blocks window)" by (simp add: verify_window_def)
  note eff = account_blocks_effect [OF this fold]
  let ?st2 = "foldl account_orphan st1 (concat (map snd dups1))"
  have p: "process_window sha args d cursor now window st =
      (if ra_checkpoint_file args
       then ?st2\<lparr>rs_file := Inr (Some (checkpoint_state d (accounted_through (rs_walk ?st2) cursor)
              (rs_counters ?st2) (rs_walk ?st2) now))\<rparr> else ?st2)"
    using fold by (simp add: process_window_def Let_def w_def seeded_def)
  show "rs_walk (process_window sha args d cursor now window st) = fst (walk_blocks w (wd_blocks window))"
    "slots_accounted (rs_counters (process_window sha args d cursor now window st)) =
       slots_accounted (rs_counters st) + length (wd_blocks window) +
       sum_list (map absent_len (snd (walk_blocks w (wd_blocks window))))"
    "ra_max_failures args = 0 \<Longrightarrow> rs_aborted (process_window sha args d cursor now window st) = rs_aborted st"
    using eff by (simp_all add: p account_orphans_effect)
qed

end
