(* ===== verification/Verify_Statuses.thy ===== *)
theory Verify_Statuses
  imports Verify_Run
begin

text \<open>
  What a window of a verification run does to the status of every slot: the counters of present, skipped
  and missing slots, and the missing-block findings of the report, in terms of the walk over the blocks.
  Only the walk reports missing blocks; block verification and the duplicate audit never do.
\<close>

section \<open>Findings of block verification\<close>

lemma hash_counts_missing [simp]: "missing_slots (hash_counts_loop slot h n entries) = {}"
  by (induction slot h n entries rule: hash_counts_loop.induct) (simp_all add: Let_def)

lemma tiling_missing: "tiling_loop slot n entries = Inl f \<Longrightarrow> fi_code f = Tx_index_mismatch"
  by (induction slot n entries rule: tiling_loop.induct) (auto split: if_splits)

lemma structure_missing [simp]: "missing_slots (check_structure_in_era block entries tps hpt alp) = {}"
proof -
  have "missing_slots (check_transaction_ranges block entries) = {}"
    using tiling_missing [of "bl_slot block" 0 entries]
    by (cases "tiling_loop (bl_slot block) 0 entries") (simp_all add: check_transaction_ranges_def)
  moreover have "missing_slots (check_ticks block entries tps alp) = {}" "missing_slots (check_last_entry block entries) = {}"
    by (simp_all add: check_ticks_def check_last_entry_def Let_def)
  moreover have "missing_slots (check_hash_counts block entries hpt alp) = {}"
    by (simp add: check_hash_counts_def Let_def split: option.split)
  ultimately show ?thesis
    by (simp add: check_structure_in_era_def Let_def split: option.split)
qed

lemma entry_mixin_missing: "entry_mixin sha slot entry txs = Inl f \<Longrightarrow> fi_code f = Missing_transactions"
  by (auto simp: entry_mixin_def Let_def split: if_splits option.splits)

lemma hash_chain_missing [simp]:
  "missing_slots (vo_findings (hash_chain_loop sha slot txs prev entries outcome)) = missing_slots (vo_findings outcome)"
proof (induction entries arbitrary: prev outcome)
  case (Cons entry entries)
  then show ?case
    using entry_mixin_missing [of sha slot entry txs] by (cases "entry_mixin sha slot entry txs") (simp_all add: Let_def)
qed simp

lemma verify_window_block_missing [simp]:
  "missing_slots (vo_findings (verify_window_block sha window mode tps sched alp block)) = {}"
  by (simp add: verify_window_block_def verify_block_in_era_def verify_hash_chain_def Let_def)

section \<open>Findings of the duplicate audit\<close>

lemma set_bt_insert_subset: "set (bt_insert k v m) \<subseteq> insert (k, v) (set m)"
  by (induction k v m rule: bt_insert.induct) auto

lemma group_findings_all:
  assumes "\<forall>f\<in>set fs. P f" "(k, gs) \<in> set (group_findings fs)"
  shows "\<forall>f\<in>set gs. P f"
proof -
  have "\<forall>(k, gs)\<in>set (foldl (\<lambda>m f. bt_insert (fi_slot f) (bt_get_or [] m (fi_slot f) @ [f]) m) m fs). \<forall>f\<in>set gs. P f"
    if "\<forall>(k, gs)\<in>set m. \<forall>f\<in>set gs. P f" "\<forall>f\<in>set fs. P f" for m :: "(slot, finding list) btree"
    using that
  proof (induction fs arbitrary: m)
    case (Cons f fs)
    let ?m = "bt_insert (fi_slot f) (bt_get_or [] m (fi_slot f) @ [f]) m"
    have "\<forall>g\<in>set (bt_get_or [] m (fi_slot f)). P g"
    proof (cases "bt_get m (fi_slot f)")
      case (Some gs)
      then have "(fi_slot f, gs) \<in> set m" by (simp add: bt_get_eq map_of_SomeD)
      then show ?thesis using Cons.prems(1) Some by (auto simp: bt_get_or_def)
    qed (simp add: bt_get_or_def)
    moreover have "set ?m \<subseteq> insert (fi_slot f, bt_get_or [] m (fi_slot f) @ [f]) (set m)"
      by (rule set_bt_insert_subset)
    ultimately have "\<forall>(k, gs)\<in>set ?m. \<forall>f\<in>set gs. P f" using Cons.prems by fastforce
    then show ?case using Cons.IH [of ?m] Cons.prems(2) by simp
  qed simp
  from this [of "[]"] assms show ?thesis unfolding group_findings_def by fastforce
qed

lemma fetch_window_duplicates:
  assumes "fetch_window db a b inc aud need = Inr w"
  shows "\<forall>f\<in>set (wd_duplicate_findings w). fi_class f = Fail \<and> fi_code f = Duplicate_conflict"
proof -
  have "\<forall>f\<in>set fs. fi_class f = Fail \<and> fi_code f = Duplicate_conflict" if "fetch_duplicate_conflicts db a b inc = Inr fs" for fs
    using that by (auto simp: fetch_duplicate_conflicts_def Let_def split: sum.splits if_splits)
  then show ?thesis using assms
    by (auto simp: fetch_window_def map_sum_def split: sum.splits if_splits)
qed

text \<open>The duplicates left over after the blocks are among those of the window.\<close>

lemma account_blocks_dups:
  "foldl (account_block mf) (st, dups) bos = (st', dups') \<Longrightarrow> set dups' \<subseteq> set dups"
proof (induction bos arbitrary: st dups)
  case (Cons bo bos)
  obtain st1 dups1 where one: "account_block mf (st, dups) bo = (st1, dups1)" by fastforce
  then have "set dups1 \<subseteq> set dups" by (auto simp: account_block_def Let_def bt_remove_def split: prod.splits)
  then show ?case using Cons.IH [of st1 dups1] Cons.prems one by simp
qed simp

section \<open>Statuses\<close>

text \<open>The slots with a block, whatever its verdict.\<close>

definition slots_seen :: "run_counters \<Rightarrow> nat" where
  "slots_seen self = rc_slots_ok self + rc_slots_failed self + rc_slots_unverifiable self"

lemma slots_seen_frame [simp]:
  "slots_seen (record_findings fs c) = slots_seen c" "rc_slots_skipped (record_findings fs c) = rc_slots_skipped c"
  "slots_seen (account_spans r c) = slots_seen c"
  "slots_seen (c\<lparr>rc_orphan_failures := n\<rparr>) = slots_seen c" "slots_seen (record_finding code c) = slots_seen c"
  "slots_seen (c\<lparr>rc_anchors_unchecked := n\<rparr>) = slots_seen c"
  "slots_seen (c\<lparr>rc_entries_verified := n, rc_hashes_computed := k\<rparr>) = slots_seen c"
  unfolding record_findings_def by (induction fs arbitrary: c) (simp_all add: slots_seen_def account_spans_def Let_def)

lemma slot_status_of_block: "slot_status_of fs \<in> {Status_ok, Status_failed, Status_unverifiable}"
proof -
  have "slot_status_loop s fs \<in> {s, Status_failed, Status_unverifiable}" for s
    by (induction fs arbitrary: s) (auto split: finding_class.split)
  then show ?thesis by (simp add: slot_status_of_def)
qed

text \<open>How much a run counted between two states, and the slots of its missing-block findings.\<close>

definition counted :: "run_state \<Rightarrow> run_state \<Rightarrow> nat \<Rightarrow> nat \<Rightarrow> nat \<Rightarrow> slot set \<Rightarrow> bool" where
  "counted st st' present skipped missing lost \<longleftrightarrow>
     slots_seen (rs_counters st') = slots_seen (rs_counters st) + present \<and>
     rc_slots_skipped (rs_counters st') = rc_slots_skipped (rs_counters st) + skipped \<and>
     rc_slots_missing (rs_counters st') = rc_slots_missing (rs_counters st) + missing \<and>
     missing_slots (rs_report st') = missing_slots (rs_report st) \<union> lost"

lemma counted_trans:
  "counted st st' p s m l \<Longrightarrow> counted st' st'' p' s' m' l' \<Longrightarrow> counted st st'' (p + p') (s + s') (m + m') (l \<union> l')"
  by (simp add: counted_def Un_assoc)

lemma account_block_counted:
  assumes "missing_slots (vo_findings out) = {}" "missing_slots (bt_get_or [] dups (bl_slot b)) = {}"
  shows "counted st (fst (account_block mf (st, dups) (b, out))) 1
    (span_len (or_skipped_span (snd (observe_block (rs_walk st) b)))) (span_len (or_missing_span (snd (observe_block (rs_walk st) b))))
    (missing_slots (or_findings (snd (observe_block (rs_walk st) b))))"
proof -
  obtain w r where o: "observe_block (rs_walk st) b = (w, r)" by fastforce
  let ?fs = "or_findings r @ vo_findings out @ bt_get_or [] dups (bl_slot b)"
  have rs: "slots_seen (record_slot (slot_status_of ?fs) c) = Suc (slots_seen c)"
    "rc_slots_skipped (record_slot (slot_status_of ?fs) c) = rc_slots_skipped c"
    "rc_slots_missing (record_slot (slot_status_of ?fs) c) = rc_slots_missing c" for c
    using slot_status_of_block [of ?fs] by (auto simp: slots_seen_def)
  show ?thesis
    using rs assms by (simp add: counted_def account_block_def o Let_def) (simp add: account_spans_def Let_def)
qed

lemma account_blocks_counted:
  "length outs = length blocks \<Longrightarrow> foldl (account_block mf) (st, dups) (zip blocks outs) = (st', dups') \<Longrightarrow>
   \<forall>out\<in>set outs. missing_slots (vo_findings out) = {} \<Longrightarrow> \<forall>(k, gs)\<in>set dups. missing_slots gs = {} \<Longrightarrow>
   counted st st' (length blocks)
     (sum_list (map (span_len \<circ> or_skipped_span) (snd (walk_blocks (rs_walk st) blocks))))
     (sum_list (map (span_len \<circ> or_missing_span) (snd (walk_blocks (rs_walk st) blocks))))
     (missing_slots (concat (map or_findings (snd (walk_blocks (rs_walk st) blocks)))))"
proof (induction outs blocks arbitrary: st dups rule: list_induct2)
  case Nil
  then show ?case by (simp add: counted_def)
next
  case (Cons out outs b blocks)
  obtain st1 dups1 where one: "account_block mf (st, dups) (b, out) = (st1, dups1)" by fastforce
  have rest: "foldl (account_block mf) (st1, dups1) (zip blocks outs) = (st', dups')" using Cons.prems one by simp
  have sub: "set dups1 \<subseteq> set dups" using account_blocks_dups [of mf st dups "[(b, out)]" st1 dups1] one by simp
  have "missing_slots (bt_get_or [] dups (bl_slot b)) = {}"
    using Cons.prems(3) by (auto simp: bt_get_or_def bt_get_eq dest: map_of_SomeD split: option.split)
  then have first: "counted st st1 1 (span_len (or_skipped_span (snd (observe_block (rs_walk st) b))))
      (span_len (or_missing_span (snd (observe_block (rs_walk st) b)))) (missing_slots (or_findings (snd (observe_block (rs_walk st) b))))"
    using account_block_counted [of out dups b st mf] Cons.prems(2) one by simp
  have walk: "rs_walk st1 = fst (observe_block (rs_walk st) b)"
    using account_block_effect(1) [of mf st dups b out] one by simp
  have "counted st1 st' (length blocks)
     (sum_list (map (span_len \<circ> or_skipped_span) (snd (walk_blocks (rs_walk st1) blocks))))
     (sum_list (map (span_len \<circ> or_missing_span) (snd (walk_blocks (rs_walk st1) blocks))))
     (missing_slots (concat (map or_findings (snd (walk_blocks (rs_walk st1) blocks)))))"
    by (rule Cons.IH [OF rest]) (use Cons.prems sub in auto)
  note all = counted_trans [OF first this]
  have unfold: "snd (walk_blocks w (b # blocks)) = snd (observe_block w b) # snd (walk_blocks (fst (observe_block w b)) blocks)" for w
    by (simp add: Let_def split: prod.splits)
  show ?case unfolding unfold using all by (simp add: walk comp_def)
qed

lemma process_window_counted:
  fixes st :: run_state and window :: window_data
  assumes "fetch_window db a b inc aud need = Inr window"
  defines "results \<equiv> snd (walk_blocks (seeded window (rs_walk st)) (wd_blocks window))"
  shows "counted st (process_window sha args d cursor now window st) (length (wd_blocks window))
    (sum_list (map (span_len \<circ> or_skipped_span) results)) (sum_list (map (span_len \<circ> or_missing_span) results))
    (missing_slots (concat (map or_findings results)))"
proof -
  let ?outs = "verify_window sha window (ra_mode args) (ra_ticks_per_slot args) (ra_schedule args)
    (map_option fst (jd_alpenglow_genesis_block d))"
  let ?g = "group_findings (wd_duplicate_findings window)" and ?st0 = "st\<lparr>rs_walk := seeded window (rs_walk st)\<rparr>"
  obtain st1 dups1 where fold: "foldl (account_block (ra_max_failures args)) (?st0, ?g) (zip (wd_blocks window) ?outs) = (st1, dups1)"
    by fastforce
  have codes: "\<forall>f\<in>set gs. fi_code f = Duplicate_conflict" if "(k, gs) \<in> set ?g" for k gs
    by (rule group_findings_all [OF _ that]) (use fetch_window_duplicates [OF assms(1)] in blast)
  then have "\<forall>(k, gs)\<in>set ?g. missing_slots gs = {}" by (auto simp: missing_slots_def)
  moreover have "length ?outs = length (wd_blocks window)" "\<forall>out\<in>set ?outs. missing_slots (vo_findings out) = {}"
    by (auto simp: verify_window_def)
  ultimately have blocks: "counted ?st0 st1 (length (wd_blocks window))
      (sum_list (map (span_len \<circ> or_skipped_span) results)) (sum_list (map (span_len \<circ> or_missing_span) results))
      (missing_slots (concat (map or_findings results)))"
    using account_blocks_counted [OF _ fold] by (simp add: results_def)
  have "missing_slots fs = {} \<Longrightarrow> counted s (foldl account_orphan s fs) 0 0 0 {}" for s fs
  proof (induction fs arbitrary: s)
    case (Cons f fs)
    have "counted s (account_orphan s f) 0 0 0 {}"
      using Cons.prems by (auto simp: counted_def account_orphan_def Let_def split: if_splits)
    from counted_trans [OF this Cons.IH] Cons.prems show ?case by (simp split: if_splits)
  qed (simp add: counted_def)
  moreover have "missing_slots (concat (map snd dups1)) = {}"
    using codes account_blocks_dups [OF fold] by (fastforce simp: missing_slots_def)
  ultimately have "counted st1 (foldl account_orphan st1 (concat (map snd dups1))) 0 0 0 {}" by blast
  from counted_trans [OF blocks this] show ?thesis
    using fold by (simp add: counted_def process_window_def Let_def seeded_def)
qed

end
