(* ===== verification/Verify_Accounting.thy ===== *)
theory Verify_Accounting
  imports Verify_Statuses
begin

text \<open>
  What a whole verification run guarantees: it returns, every slot of the range is counted once and
  under the status it has in the table, however the range is cut into windows, the exit code says what the report contains, and
  where a resumed run differs from an uninterrupted one.
\<close>

section \<open>A database that answers\<close>

text \<open>Every query succeeds and blocks are those of the table \<open>D\<close>, at most one per slot, in slot order.\<close>

definition db_true :: "block_info list \<Rightarrow> database \<Rightarrow> bool" where
  "db_true D db \<longleftrightarrow>
     (\<forall>a b. db_blocks db a b = Inr (filter (\<lambda>x. a \<le> bl_slot x \<and> bl_slot x \<le> b) D)) \<and>
     (\<forall>p. \<exists>r. db_block_at db p = Inr r \<and> (\<forall>b. r = Some b \<longrightarrow> b \<in> set D \<and> bl_slot b = p)) \<and>
     (\<forall>s. \<exists>r. db_first_block_after db s = Inr r) \<and>
     (\<forall>a b. (\<exists>r. db_entry_rows db a b = Inr r) \<and> (\<exists>r. db_tx_rows db a b = Inr r) \<and>
        (\<exists>r. db_block_conflicts db a b = Inr r) \<and> (\<exists>r. db_entry_conflicts db a b = Inr r) \<and>
        (\<exists>r. db_tx_conflicts db a b = Inr r))"

text \<open>The first block after a slot is the one of the table.\<close>

definition db_next_true :: "block_info list \<Rightarrow> database \<Rightarrow> bool" where
  "db_next_true D db \<longleftrightarrow> (\<forall>s. db_first_block_after db s = Inr (block_after D s))"

definition table_ok :: "block_info list \<Rightarrow> bool" where
  "table_ok D \<longleftrightarrow> sorted_wrt (<) (map bl_slot D) \<and> (\<forall>b\<in>set D. claim_possible b)"

lemma fetch_window_true:
  assumes "db_true D db"
  shows "\<exists>w. fetch_window db a b inc aud need = Inr w \<and>
    wd_blocks w = filter (\<lambda>x. a \<le> bl_slot x \<and> bl_slot x \<le> b) D \<and>
    (\<forall>s. wd_parent_seed w = Some s \<longrightarrow> s \<in> set D \<and> bl_slot s < a)"
proof -
  let ?B = "filter (\<lambda>x. a \<le> bl_slot x \<and> bl_slot x \<le> b) D"
  obtain er where er: "db_entry_rows db a b = Inr er" using assms unfolding db_true_def by blast
  obtain tr where tr: "db_tx_rows db a b = Inr tr" using assms unfolding db_true_def by blast
  obtain bc ec tc where c: "db_block_conflicts db a b = Inr bc" "db_entry_conflicts db a b = Inr ec"
    "db_tx_conflicts db a b = Inr tc" using assms unfolding db_true_def by blast
  have blocks: "db_blocks db a b = Inr ?B" using assms by (simp add: db_true_def)
  obtain dup where dup: "(if aud then fetch_duplicate_conflicts db a b inc else Inr []) = Inr dup"
    using c by (cases aud; cases inc) (simp_all add: fetch_duplicate_conflicts_def Let_def)
  obtain ps where ps: "(case ?B of block # _ \<Rightarrow>
        if need \<and> bl_slot block \<noteq> 0 \<and> bl_parent_slot block < a then db_block_at db (bl_parent_slot block) else Inr None
      | [] \<Rightarrow> Inr None) = Inr ps" "\<forall>s. ps = Some s \<longrightarrow> s \<in> set D \<and> bl_slot s < a"
  proof -
    have "\<exists>r. db_block_at db p = Inr r \<and> (\<forall>s. r = Some s \<longrightarrow> s \<in> set D \<and> bl_slot s = p)" for p
      using assms by (simp add: db_true_def)
    then show ?thesis using that by (cases ?B) (fastforce split: if_splits)+
  qed
  obtain tx where tx: "(if inc then fetch_tx_signatures db a b else Inr []) = Inr tx"
    using tr by (cases inc) (simp_all add: fetch_tx_signatures_def)
  show ?thesis using ps(2)
    by (simp add: fetch_window_def fetch_entries_def er blocks tx dup ps(1))
qed

section \<open>The accounting invariant\<close>

text \<open>
  A run that began at \<open>floor\<close> in the state \<open>st0\<close> has counted every slot below the lower bound of its walk,
  and no block of the table lies between that bound and the next window.
\<close>

definition run_inv :: "block_info list \<Rightarrow> run_state \<Rightarrow> slot \<Rightarrow> slot \<Rightarrow> run_state \<Rightarrow> bool" where
  "run_inv D st0 floor start st \<longleftrightarrow>
     cw_floor (rs_walk st) = floor \<and> floor \<le> start \<and> walk_lower (rs_walk st) \<le> start \<and>
     gap_start D floor (walk_lower (rs_walk st)) \<and>
     (\<forall>b\<in>set D. walk_lower (rs_walk st) \<le> bl_slot b \<longrightarrow> start \<le> bl_slot b) \<and>
     counted st0 st (count_slots (slot_present D) floor (walk_lower (rs_walk st)))
       (count_slots (slot_skipped D) floor (walk_lower (rs_walk st)))
       (count_slots (slot_missing D) floor (walk_lower (rs_walk st)))
       {x \<in> {floor..<walk_lower (rs_walk st)}. slot_missing D x \<and> gap_start D floor x}"

lemma seeded_lower:
  assumes "run_inv D st0 floor start st" "\<forall>s. wd_parent_seed w = Some s \<longrightarrow> s \<in> set D \<and> bl_slot s < start"
  shows "walk_lower (seeded w (rs_walk st)) = walk_lower (rs_walk st)" "cw_floor (seeded w (rs_walk st)) = floor"
proof -
  show "cw_floor (seeded w (rs_walk st)) = floor"
    using assms(1) by (auto simp: seeded_def seed_def run_inv_def split: option.splits)
  show "walk_lower (seeded w (rs_walk st)) = walk_lower (rs_walk st)"
  proof (cases "wd_parent_seed w = None \<or> cw_prev (rs_walk st) \<noteq> None")
    case True
    then show ?thesis by (cases "wd_parent_seed w") (auto simp: seeded_def seed_def)
  next
    case False
    then obtain s where s: "wd_parent_seed w = Some s" "cw_prev (rs_walk st) = None"
      by (cases "wd_parent_seed w") blast+
    have "walk_lower (rs_walk st) = floor" using assms(1) s(2) by (simp add: walk_lower_def run_inv_def)
    moreover have "s \<in> set D" "bl_slot s < start" using assms(2) s(1) by auto
    ultimately have "bl_slot s < floor" using assms(1) by (auto simp: run_inv_def not_less)
    then have "sat_add (bl_slot s) 1 \<le> floor" by (simp add: sat_add_def)
    then show ?thesis using s assms(1) by (simp add: seeded_def seed_def walk_lower_def run_inv_def)
  qed
qed

lemma status_total:
  "card {x \<in> {a..b}. slot_present D x} + card {x \<in> {a..b}. slot_skipped D x} + card {x \<in> {a..b}. slot_missing D x} = Suc b - a"
proof -
  let ?p = "{x \<in> {a..b}. slot_present D x}" and ?s = "{x \<in> {a..b}. slot_skipped D x}" and ?m = "{x \<in> {a..b}. slot_missing D x}"
  have "?p \<union> ?s \<union> ?m = {a..b}" by (auto simp: slot_skipped_def slot_missing_def not_less split: option.splits)
  moreover have "card (?p \<union> ?s \<union> ?m) = card (?p \<union> ?s) + card ?m"
    by (rule card_Un_disjoint) (auto simp: slot_skipped_def slot_missing_def split: option.splits)
  moreover have "card (?p \<union> ?s) = card ?p + card ?s"
    by (rule card_Un_disjoint) (auto simp: slot_skipped_def)
  ultimately show ?thesis by simp
qed

lemma interval_split:
  fixes a b c :: nat
  assumes "a \<le> b" "b \<le> c"
  shows "{x \<in> {a..<c}. P x} = {x \<in> {a..<b}. P x} \<union> {x \<in> {b..<c}. P x}"
  using assms by auto

lemma counted_extend:
  assumes "counted st0 st (count_slots P a b) (count_slots Q a b) (count_slots R a b) {x \<in> {a..<b}. S x}"
    and "counted st st' (count_slots P b c) (count_slots Q b c) (count_slots R b c) {x \<in> {b..<c}. S x}"
    and "a \<le> b" "b \<le> c"
  shows "counted st0 st' (count_slots P a c) (count_slots Q a c) (count_slots R a c) {x \<in> {a..<c}. S x}"
  unfolding count_slots_split [OF assms(3,4)] interval_split [OF assms(3,4)] by (rule counted_trans [OF assms(1,2)])

lemma run_inv_window:
  assumes "table_ok D" "db_true D db" "run_inv D st0 floor start st" "start \<le> e"
    and "fetch_window db start e inc aud need = Inr w"
  shows "run_inv D st0 floor (Suc e) (process_window sha args d cursor now w st)"
proof -
  obtain w0 where "fetch_window db start e inc aud need = Inr w0"
    "wd_blocks w0 = filter (\<lambda>x. start \<le> bl_slot x \<and> bl_slot x \<le> e) D"
    "\<forall>s. wd_parent_seed w0 = Some s \<longrightarrow> s \<in> set D \<and> bl_slot s < start"
    using fetch_window_true [OF assms(2)] by blast
  then have w: "wd_blocks w = filter (\<lambda>x. start \<le> bl_slot x \<and> bl_slot x \<le> e) D"
    "\<forall>s. wd_parent_seed w = Some s \<longrightarrow> s \<in> set D \<and> bl_slot s < start" using assms(5) by simp_all
  let ?s = "seeded w (rs_walk st)" and ?p = "process_window sha args d cursor now w st"
  note lower = seeded_lower [OF assms(3) w(2)]
  have inv: "walk_lower (rs_walk st) \<le> start" "gap_start D floor (walk_lower (rs_walk st))" "floor \<le> start"
    "\<forall>b\<in>set D. walk_lower (rs_walk st) \<le> bl_slot b \<longrightarrow> start \<le> bl_slot b"
    using assms(3) by (simp_all add: run_inv_def)
  obtain walk' results where wb: "walk_blocks ?s (wd_blocks w) = (walk', results)" by fastforce
  have D: "sorted_wrt (<) (map bl_slot D)" "\<forall>b\<in>set D. claim_possible b" using assms(1) by (simp_all add: table_ok_def)
  have sorted: "sorted_wrt (<) (map bl_slot (wd_blocks w))"
    using D(1) by (simp add: w(1) sorted_wrt_map sorted_wrt_filter)
  have mem: "\<forall>b. b \<in> set (wd_blocks w) \<longleftrightarrow> b \<in> set D \<and> walk_lower ?s \<le> bl_slot b \<and> bl_slot b \<le> e"
    using inv by (auto simp: w(1) lower)
  have gap: "gap_start D floor (walk_lower ?s)" by (simp add: lower inv)
  note cl = walk_blocks_classified [OF D sorted mem lower(2) gap wb]
  have walk: "rs_walk ?p = walk'" by (simp add: process_window_effect(1) wb)
  have le: "walk_lower walk' \<le> Suc e"
  proof (cases "wd_blocks w = []")
    case True
    then show ?thesis using wb lower(1) inv(1) assms(4) by simp
  next
    case False
    have "\<forall>b\<in>set (wd_blocks w). claim_possible b \<and> walk_lower ?s \<le> bl_slot b" using D(2) mem by blast
    from walk_blocks_account [OF sorted this wb] False have "walk_lower walk' = Suc (bl_slot (last (wd_blocks w)))" by simp
    moreover have "last (wd_blocks w) \<in> set (wd_blocks w)" using False by simp
    ultimately show ?thesis using mem by simp
  qed
  have "counted st ?p (count_slots (slot_present D) (walk_lower (rs_walk st)) (walk_lower walk'))
      (count_slots (slot_skipped D) (walk_lower (rs_walk st)) (walk_lower walk'))
      (count_slots (slot_missing D) (walk_lower (rs_walk st)) (walk_lower walk'))
      {x \<in> {walk_lower (rs_walk st)..<walk_lower walk'}. slot_missing D x \<and> gap_start D floor x}"
    using process_window_counted [OF assms(5), of st sha args d cursor now] cl by (simp add: wb lower)
  from counted_extend [OF _ this] have "counted st0 ?p (count_slots (slot_present D) floor (walk_lower walk'))
      (count_slots (slot_skipped D) floor (walk_lower walk')) (count_slots (slot_missing D) floor (walk_lower walk'))
      {x \<in> {floor..<walk_lower walk'}. slot_missing D x \<and> gap_start D floor x}"
    using assms(3) cl floor_le_lower [of "rs_walk st"] by (simp add: run_inv_def lower)
  then show ?thesis using cl le inv(3) assms(4) by (auto simp: run_inv_def walk Suc_le_eq)
qed

lemma run_windows_account:
  assumes "table_ok D" "db_true D db" "range_end < u64_max"
  shows "\<exists>r. run_windows sha db args d cursor now range_end start need st = Some r \<and>
    (run_inv D st0 floor start st \<and> start \<le> Suc range_end \<longrightarrow>
       (\<exists>st'. r = Inr st' \<and> (ra_max_failures args = 0 \<and> \<not> rs_aborted st \<longrightarrow> \<not> rs_aborted st') \<and>
          (rs_aborted st' \<or> run_inv D st0 floor (Suc range_end) st')))"
  using assms(3)
proof (induction rule: run_windows_induct)
  case (past start need st)
  then show ?case by (metis le_antisym not_less_eq_eq Suc_leI)
next
  case (failed start e need st f)
  then show ?case using fetch_window_true [OF assms(2)] by (metis Inr_not_Inl)
next
  case (aborted start e need st window)
  then show ?case using process_window_effect(3) by blast
next
  case (continued start e need st window r)
  have "run_inv D st0 floor (Suc e) (process_window sha args d cursor now window st)"
    if inv: "run_inv D st0 floor start st" by (rule run_inv_window [OF assms(1,2) inv continued(1,3)])
  then show ?case using continued(2,4,5) by auto
qed

lemma finish_run_account:
  assumes "db_next_true D db" "run_inv D st0 floor (Suc range_end) st" "range_end < u64_max" "\<not> rs_aborted st"
  shows "\<exists>st'. finish_run db args d now range_end st = Inr st' \<and> \<not> rs_aborted st' \<and>
    counted st0 st' (count_slots (slot_present D) floor (Suc range_end)) (count_slots (slot_skipped D) floor (Suc range_end))
      (count_slots (slot_missing D) floor (Suc range_end)) {x \<in> {floor..<Suc range_end}. slot_missing D x \<and> gap_start D floor x}"
proof -
  let ?a = "walk_lower (rs_walk st)" and ?t = "observe_tail (rs_walk st) range_end (block_after D range_end)"
  have anchors: "counted s (foldl account_unchecked_anchor s as) 0 0 0 {} \<and> rs_aborted (foldl account_unchecked_anchor s as) = rs_aborted s"
    for s as
  proof (induction as arbitrary: s)
    case (Cons a as)
    have "counted s (account_unchecked_anchor s a) 0 0 0 {}" "rs_aborted (account_unchecked_anchor s a) = rs_aborted s"
      by (simp_all add: counted_def account_unchecked_anchor_def Let_def)
    then show ?case using counted_trans Cons.IH [of "account_unchecked_anchor s a"] by force
  qed (simp add: counted_def)
  have inv: "?a \<le> Suc range_end" "cw_floor (rs_walk st) = floor" "gap_start D floor ?a" "\<forall>b\<in>set D. ?a \<le> bl_slot b \<longrightarrow> range_end < bl_slot b"
    using assms(2) by (auto simp: run_inv_def Suc_le_eq)
  have cl: "classified D floor ?a (Suc range_end) ?t"
    by (rule observe_tail_classified [OF inv(4) assms(3) inv(1-3)])
  then have "counted st (account_tail ?t st) (count_slots (slot_present D) ?a (Suc range_end))
      (count_slots (slot_skipped D) ?a (Suc range_end)) (count_slots (slot_missing D) ?a (Suc range_end))
      {x \<in> {?a..<Suc range_end}. slot_missing D x \<and> gap_start D floor x}"
    by (simp add: counted_def account_tail_def classified_def) (simp add: account_spans_def Let_def)
  from counted_extend [OF _ this] have tail: "counted st0 (account_tail ?t st)
      (count_slots (slot_present D) floor (Suc range_end)) (count_slots (slot_skipped D) floor (Suc range_end))
      (count_slots (slot_missing D) floor (Suc range_end)) {x \<in> {floor..<Suc range_end}. slot_missing D x \<and> gap_start D floor x}"
    using assms(2) inv(1,2) floor_le_lower [of "rs_walk st"] by (simp add: run_inv_def)
  let ?f = "foldl account_unchecked_anchor (account_tail ?t st) (unchecked_anchors (rs_walk (account_tail ?t st)))"
  have "counted st0 ?f (count_slots (slot_present D) floor (Suc range_end)) (count_slots (slot_skipped D) floor (Suc range_end))
      (count_slots (slot_missing D) floor (Suc range_end)) {x \<in> {floor..<Suc range_end}. slot_missing D x \<and> gap_start D floor x}"
    using counted_trans [OF tail conjunct1 [OF anchors]] by simp
  moreover have "\<not> rs_aborted ?f" using anchors assms(4) by (simp add: account_tail_def)
  ultimately show ?thesis using assms(1,4) by (simp add: finish_run_def db_next_true_def Let_def counted_def)
qed

section \<open>Findings and exit codes\<close>

definition has_class :: "finding_class \<Rightarrow> finding list \<Rightarrow> bool" where
  "has_class c fs \<longleftrightarrow> (\<exists>f\<in>set fs. fi_class f = c)"

lemma has_class_simps [simp]:
  "\<not> has_class c []" "has_class c (f # fs) \<longleftrightarrow> fi_class f = c \<or> has_class c fs"
  "has_class c (fs @ gs) \<longleftrightarrow> has_class c fs \<or> has_class c gs"
  by (auto simp: has_class_def)

text \<open>The counters say which classes of findings were written.\<close>

definition report_inv :: "run_counters \<Rightarrow> finding list \<Rightarrow> bool" where
  "report_inv c fs \<longleftrightarrow>
     (has_failures c \<longleftrightarrow> has_class Fail fs) \<and>
     (has_unverifiable c \<longrightarrow> has_class Unverifiable fs) \<and>
     (has_class Unverifiable fs \<longrightarrow> has_unverifiable c \<or> has_failures c)"

lemma slot_status_loop_eq:
  "slot_status_loop s fs =
     (if has_class Fail fs then Status_failed else if has_class Unverifiable fs then Status_unverifiable else s)"
  by (induction fs arbitrary: s) (auto split: finding_class.splits)

lemma classify_missing:
  "or_missing_span r = None \<Longrightarrow> or_missing_span (classify_interval self block r) \<noteq> None \<Longrightarrow>
     has_class Unverifiable (or_findings (classify_interval self block r))"
  by (auto simp: classify_interval_def Let_def missing_span_finding_def split: if_splits)

lemma check_linkage_extends: "has_class c (or_findings r) \<Longrightarrow> has_class c (or_findings (check_linkage self block r))"
  by (auto simp: check_linkage_def Let_def split: option.splits)

lemma observe_block_missing:
  assumes "or_missing_span (snd (observe_block self block)) \<noteq> None"
  shows "has_class Unverifiable (or_findings (snd (observe_block self block)))"
proof -
  have "bl_slot block \<noteq> 0" "\<not> bl_slot block \<le> bl_parent_slot block"
    "or_missing_span (classify_interval self block observe_result_default) \<noteq> None"
    using assms by (auto simp: observe_block_spans split: if_splits)
  then show ?thesis
    using check_linkage_extends [OF classify_missing [of observe_result_default self block], of self block]
    by (auto simp: observe_block_def Let_def split: option.splits)
qed

lemma observe_tail_findings:
  "has_class Fail (or_findings (observe_tail self e nb)) = False"
  "has_class Unverifiable (or_findings (observe_tail self e nb)) \<longleftrightarrow> or_missing_span (observe_tail self e nb) \<noteq> None"
  by (auto simp: observe_tail_def Let_def missing_span_finding_def split: option.splits)

lemma span_len_pos: "0 < span_len sp \<longleftrightarrow> sp \<noteq> None"
  by (auto simp: span_len_def split: option.splits)

lemma report_inv_block:
  assumes "report_inv (rs_counters st) (rs_report st)"
  shows "report_inv (rs_counters (fst (account_block mf (st, dups) (b, out))))
    (rs_report (fst (account_block mf (st, dups) (b, out))))"
proof -
  obtain w r where o: "observe_block (rs_walk st) b = (w, r)" by fastforce
  let ?fs = "or_findings r @ vo_findings out @ bt_get_or [] dups (bl_slot b)"
  let ?c = "rs_counters (fst (account_block mf (st, dups) (b, out)))"
  have rep: "rs_report (fst (account_block mf (st, dups) (b, out))) = rs_report st @ ?fs"
    by (simp add: account_block_def o Let_def)
  have c: "rc_slots_failed ?c = rc_slots_failed (rs_counters st) + (if has_class Fail ?fs then 1 else 0)"
    "rc_slots_unverifiable ?c = rc_slots_unverifiable (rs_counters st) +
       (if \<not> has_class Fail ?fs \<and> has_class Unverifiable ?fs then 1 else 0)"
    "rc_slots_missing ?c = rc_slots_missing (rs_counters st) + span_len (or_missing_span r)"
    "rc_orphan_failures ?c = rc_orphan_failures (rs_counters st)"
    "rc_anchors_unchecked ?c = rc_anchors_unchecked (rs_counters st)"
    by (simp_all add: account_block_def o Let_def slot_status_of_def slot_status_loop_eq account_spans_def)
  have missing: "0 < span_len (or_missing_span r) \<Longrightarrow> has_class Unverifiable ?fs"
    using observe_block_missing [of "rs_walk st" b] o by (simp add: span_len_pos)
  show ?thesis
  proof (cases "has_class Fail ?fs")
    case True
    then show ?thesis using assms missing unfolding report_inv_def has_failures_def has_unverifiable_def rep c by auto
  next
    case False
    then show ?thesis using assms missing unfolding report_inv_def has_failures_def has_unverifiable_def rep c by auto
  qed
qed

lemma report_inv_blocks:
  "report_inv (rs_counters st) (rs_report st) \<Longrightarrow> foldl (account_block mf) (st, dups) bos = (st', dups') \<Longrightarrow>
     report_inv (rs_counters st') (rs_report st')"
proof (induction bos arbitrary: st dups)
  case (Cons bo bos)
  obtain st1 dups1 where one: "account_block mf (st, dups) bo = (st1, dups1)" by fastforce
  then have "report_inv (rs_counters st1) (rs_report st1)"
    using report_inv_block [OF Cons.prems(1), of mf dups "fst bo" "snd bo"] by simp
  then show ?case using Cons.IH [of st1 dups1] Cons.prems(2) one by simp
qed simp

lemma report_inv_orphans:
  "report_inv (rs_counters st) (rs_report st) \<Longrightarrow> \<forall>f\<in>set fs. fi_class f = Fail \<Longrightarrow>
     report_inv (rs_counters (foldl account_orphan st fs)) (rs_report (foldl account_orphan st fs))"
proof (induction fs arbitrary: st)
  case (Cons f fs)
  have "report_inv (rs_counters (account_orphan st f)) (rs_report (account_orphan st f))"
    using Cons.prems by (auto simp: account_orphan_def Let_def report_inv_def has_failures_def has_unverifiable_def)
  then show ?case using Cons by simp
qed simp

lemma report_inv_window:
  assumes "report_inv (rs_counters st) (rs_report st)" "\<forall>f\<in>set (wd_duplicate_findings window). fi_class f = Fail"
  shows "report_inv (rs_counters (process_window sha args d cursor now window st))
    (rs_report (process_window sha args d cursor now window st))"
proof -
  let ?w = "seeded window (rs_walk st)"
  let ?outs = "verify_window sha window (ra_mode args) (ra_ticks_per_slot args) (ra_schedule args)
    (map_option fst (jd_alpenglow_genesis_block d))"
  let ?g = "group_findings (wd_duplicate_findings window)"
  obtain st1 dups1 where fold: "foldl (account_block (ra_max_failures args)) (st\<lparr>rs_walk := ?w\<rparr>, ?g)
      (zip (wd_blocks window) ?outs) = (st1, dups1)" by fastforce
  have "report_inv (rs_counters st1) (rs_report st1)" using report_inv_blocks [OF _ fold] assms(1) by simp
  moreover have "\<forall>f\<in>set (concat (map snd dups1)). fi_class f = Fail"
    using account_blocks_dups [OF fold] group_findings_all [OF assms(2)] by fastforce
  ultimately have "report_inv (rs_counters (foldl account_orphan st1 (concat (map snd dups1))))
      (rs_report (foldl account_orphan st1 (concat (map snd dups1))))" by (rule report_inv_orphans)
  then show ?thesis using fold by (simp add: process_window_def Let_def seeded_def)
qed

lemma report_inv_windows:
  assumes "range_end < u64_max"
  shows "\<exists>r. run_windows sha db args d cursor now range_end start need st = Some r \<and>
    (report_inv (rs_counters st) (rs_report st) \<longrightarrow> (\<forall>st'. r = Inr st' \<longrightarrow> report_inv (rs_counters st') (rs_report st')))"
  using assms
proof (induction rule: run_windows_induct)
  case (aborted start e need st window)
  then show ?case using report_inv_window fetch_window_duplicates [OF aborted(3)] by blast
next
  case (continued start e need st window r)
  then show ?case using report_inv_window fetch_window_duplicates [OF continued(3)] by blast
qed simp_all

lemma report_inv_finish:
  assumes "report_inv (rs_counters st) (rs_report st)" "finish_run db args d now range_end st = Inr st'"
  shows "report_inv (rs_counters st') (rs_report st')"
proof -
  have anchors: "report_inv (rs_counters s) (rs_report s) \<Longrightarrow>
      report_inv (rs_counters (foldl account_unchecked_anchor s as)) (rs_report (foldl account_unchecked_anchor s as))"
    for s as
  proof (induction as arbitrary: s)
    case (Cons a as)
    have "report_inv (rs_counters (account_unchecked_anchor s a)) (rs_report (account_unchecked_anchor s a))"
      using Cons.prems
      by (auto simp: account_unchecked_anchor_def Let_def report_inv_def has_failures_def has_unverifiable_def)
    then show ?case using Cons.IH by simp
  qed simp
  have tail: "report_inv (rs_counters (account_tail (observe_tail w e nb) st)) (rs_report (account_tail (observe_tail w e nb) st))"
    for w e nb
    using assms(1) observe_tail_findings [of w e nb] span_len_pos [of "or_missing_span (observe_tail w e nb)"]
    by (auto simp: account_tail_def report_inv_def has_failures_def has_unverifiable_def account_spans_def Let_def)
  show ?thesis using assms anchors [OF tail]
    by (auto simp: finish_run_def Let_def split: if_splits sum.splits)
qed

section \<open>Properties\<close>

text \<open>
  C7. A run over a database that answers returns.  When every block of the table claims a parent below its
  own slot, and the failure budget did not stop the run (it cannot when there is none), every slot from
  the cursor to the end of the range is counted once and under its status in the table, whatever the window
  size and also when the run was resumed: the slots with a block, the absent slots that the next block's
  parent claim passes over as skipped, and the other absent slots as missing.  The missing-block findings
  of the report name exactly the first slot of every gap that has a missing slot.
\<close>

theorem run_accounts_range:
  assumes "table_ok D" "db_true D db" "db_next_true D db"
    and "jd_range_end d < u64_max" "cursor \<le> jd_range_end d"
    and "saved = None \<and> cursor = jd_range_start d \<and> c0 = run_counters_default \<or>
         (\<exists>c. saved = Some c \<and> cursor = cp_next_start c \<and> c0 = cp_counters c)"
  shows "\<exists>st. run_from sha db args d now saved file = Some (Inr st) \<and>
    (ra_max_failures args = 0 \<longrightarrow> \<not> rs_aborted st) \<and>
    (\<not> rs_aborted st \<longrightarrow>
       slots_seen (rs_counters st) = slots_seen c0 + card {x \<in> {cursor..jd_range_end d}. slot_present D x} \<and>
       rc_slots_skipped (rs_counters st) = rc_slots_skipped c0 + card {x \<in> {cursor..jd_range_end d}. slot_skipped D x} \<and>
       rc_slots_missing (rs_counters st) = rc_slots_missing c0 + card {x \<in> {cursor..jd_range_end d}. slot_missing D x} \<and>
       slots_accounted (rs_counters st) = slots_accounted c0 + (jd_range_end d + 1 - cursor) \<and>
       missing_slots (rs_report st) = {x \<in> {cursor..jd_range_end d}. slot_missing D x \<and> gap_start D cursor x})"
proof -
  obtain genesis anchors checked gc where
    run: "run_from sha db args d now saved file =
      (case run_windows sha db args d cursor now (jd_range_end d) cursor True
         \<lparr>rs_walk = from_checkpoint cursor genesis anchors checked gc, rs_counters = c0, rs_report = [],
          rs_aborted = False, rs_file = file\<rparr> of
         None \<Rightarrow> None | Some (Inl e) \<Rightarrow> Some (Inl e)
       | Some (Inr st) \<Rightarrow> Some (finish_run db args d now (jd_range_end d) st))"
    using assms(5,6) by (auto simp: run_from_def Let_def not_less)
  let ?st0 = "\<lparr>rs_walk = from_checkpoint cursor genesis anchors checked gc, rs_counters = c0, rs_report = [],
          rs_aborted = False, rs_file = file\<rparr>"
  have "run_inv D ?st0 cursor cursor ?st0"
    by (simp add: run_inv_def from_checkpoint_def walk_lower_def gap_start_def counted_def)
  then obtain st where st: "run_windows sha db args d cursor now (jd_range_end d) cursor True ?st0 = Some (Inr st)"
    "ra_max_failures args = 0 \<longrightarrow> \<not> rs_aborted st" "rs_aborted st \<or> run_inv D ?st0 cursor (Suc (jd_range_end d)) st"
    using run_windows_account [OF assms(1,2,4), of sha args d cursor now cursor True ?st0 ?st0 cursor] assms(5)
    by (auto simp: le_Suc_eq)
  show ?thesis
  proof (cases "rs_aborted st")
    case True
    then show ?thesis using run st by (simp add: finish_run_def)
  next
    case False
    then obtain st' where st': "finish_run db args d now (jd_range_end d) st = Inr st'" "\<not> rs_aborted st'"
      "counted ?st0 st' (count_slots (slot_present D) cursor (Suc (jd_range_end d)))
        (count_slots (slot_skipped D) cursor (Suc (jd_range_end d))) (count_slots (slot_missing D) cursor (Suc (jd_range_end d)))
        {x \<in> {cursor..<Suc (jd_range_end d)}. slot_missing D x \<and> gap_start D cursor x}"
      using finish_run_account [OF assms(3) _ assms(4)] st(3) by metis
    have "run_from sha db args d now saved file = Some (Inr st')" using run st(1) st'(1) by simp
    moreover have "slots_accounted c = slots_seen c + rc_slots_skipped c + rc_slots_missing c" for c
      by (simp add: slots_accounted_def slots_seen_def)
    ultimately show ?thesis
      using st'(2,3) status_total [of cursor "jd_range_end d" D] assms(5)
      by (simp add: counted_def count_slots_def atLeastLessThanSuc_atLeastAtMost)
  qed
qed

text \<open>
  C8. The exit code of a run that was not resumed says what its report contains: 2 exactly when a
  failure was written, 3 exactly when there was none but something unverifiable, 0 otherwise, also when
  the failure budget cut the run short.
\<close>

theorem exit_code_matches_report:
  assumes "run_from sha db args d now None file = Some (Inr st)" "jd_range_end d < u64_max"
  shows "exit_code (rs_counters st) False =
    (if \<exists>f\<in>set (rs_report st). fi_class f = Fail then 2
     else if \<exists>f\<in>set (rs_report st). fi_class f = Unverifiable then 3 else 0)"
proof -
  have default: "report_inv run_counters_default []"
    by (simp add: report_inv_def run_counters_default_def has_failures_def has_unverifiable_def)
  have "report_inv (rs_counters st) (rs_report st)"
  proof (cases "jd_range_end d < jd_range_start d")
    case True
    then show ?thesis using assms(1) default by (auto simp: run_from_def Let_def)
  next
    case False
    let ?st0 = "\<lparr>rs_walk = from_checkpoint (jd_range_start d) (ra_expected_genesis_hash args) (ra_anchors args) [] False,
      rs_counters = run_counters_default, rs_report = [], rs_aborted = False, rs_file = file\<rparr>"
    obtain r where r: "run_windows sha db args d (jd_range_start d) now (jd_range_end d) (jd_range_start d) True ?st0 = Some r"
      "\<forall>st'. r = Inr st' \<longrightarrow> report_inv (rs_counters st') (rs_report st')"
      using report_inv_windows [OF assms(2), of sha db args d "jd_range_start d" now "jd_range_start d" True ?st0] default by auto
    then obtain st1 where "r = Inr st1" "finish_run db args d now (jd_range_end d) st1 = Inr st"
      using assms(1) False by (auto simp: run_from_def Let_def split: sum.splits)
    then show ?thesis using report_inv_finish r(2) by blast
  qed
  then show ?thesis by (auto simp: exit_code_def report_inv_def has_class_def)
qed

text \<open>
  C31. A range that ends at the largest slot never finishes: after its last window the cursor wraps to
  slot 0 and the loop over windows starts again, as long as queries succeed and nothing aborts it.
\<close>

theorem last_slot_range_diverges:
  assumes "db_true D db" "ra_max_failures args = 0" "\<not> rs_aborted st" "is_u64 start"
  shows "run_windows sha db args d cursor now u64_max start need st = None"
proof -
  let ?P = "\<lambda>sha db args d cursor now range_end start need st r.
    \<forall>D. \<not> (db_true D db \<and> ra_max_failures args = 0 \<and> \<not> rs_aborted st \<and> is_u64 start \<and> range_end = u64_max)"
  have "?P sha db args d cursor now range_end start need st r"
    if ret: "run_windows sha db args d cursor now range_end start need st = Some r" for range_end r
  proof (rule run_windows.raw_induct [where P = ?P, OF _ ret])
    fix f sha db args d cursor now range_end start need st r
    assume IH: "\<And>sha db args d cursor now range_end start need st r.
        f sha db args d cursor now range_end start need st = Some r \<Longrightarrow> ?P sha db args d cursor now range_end start need st r"
      and body: "(if start \<le> range_end then
        let end = min range_end (sat_add start (ra_window_slots args - 1))
        in case fetch_window db start end (ra_mode args = Full) (ra_audit_duplicate_conflicts args) need of
             Inl e \<Rightarrow> Some (Inl e)
           | Inr window \<Rightarrow>
               let st = process_window sha args d cursor now window st
               in if rs_aborted st then Some (Inr st)
                  else f sha db args d cursor now range_end (wrap64 (end + 1)) (need \<and> wd_blocks window = []) st
        else Some (Inr st)) = Some r"
    show "?P sha db args d cursor now range_end start need st r"
    proof (intro allI notI, elim conjE)
      fix D
      assume h: "db_true D db" "ra_max_failures args = 0" "\<not> rs_aborted st" "is_u64 start" "range_end = u64_max"
      define e where "e = min range_end (sat_add start (ra_window_slots args - 1))"
      obtain w where w: "fetch_window db start e (ra_mode args = Full) (ra_audit_duplicate_conflicts args) need = Inr w"
        using fetch_window_true [OF h(1)] by blast
      let ?p = "process_window sha args d cursor now w st"
      have "\<not> rs_aborted ?p" using process_window_effect(3) [OF h(2)] h(3) by simp
      moreover from this have "f sha db args d cursor now range_end (wrap64 (e + 1)) (need \<and> wd_blocks w = []) ?p = Some r"
        using body w h(4,5) by (simp add: e_def is_u64_def Let_def)
      moreover have "wrap64 (e + 1) < u64_max + 1" unfolding wrap64_def by (rule mod_less_divisor) simp
      then have "is_u64 (wrap64 (e + 1))" by (simp add: is_u64_def)
      ultimately show False using IH h(1,2,5) by blast
    qed
  qed
  then show ?thesis using assms by (metis not_Some_eq)
qed

text \<open>
  A sample table: the block at slot 7 names slot 5 as its parent although slot 6 holds a block.  Each
  block carries its ticks, so the structural checks pass.
\<close>

definition sample_block_at :: "slot \<Rightarrow> slot \<Rightarrow> block_info" where
  "sample_block_at s p = \<lparr>bl_slot = s, bl_parent_slot = p, bl_blockhash = [s], bl_parent_blockhash = [p],
     bl_executed_transaction_count = 0, bl_entry_count = 0\<rparr>"

definition sample_table :: "block_info list" where
  "sample_table = [sample_block_at 4 3, sample_block_at 5 4, sample_block_at 6 5, sample_block_at 7 5]"

definition sample_rows :: "entry_row list" where
  "sample_rows = map (\<lambda>(s, i). \<lparr>er_slot = s, er_entry_index = i, er_starting_transaction_index = 0,
     er_transaction_count = 0, er_num_hashes = 1, er_hash = [s]\<rparr>) [(5, 0), (6, 0), (7, 0), (7, 1)]"

text \<open>A database that holds a table of blocks and entry rows.\<close>

definition table_db :: "block_info list \<Rightarrow> entry_row list \<Rightarrow> database" where
  "table_db D rows =
     \<lparr>db_bounds = Inr None,
      db_blocks = (\<lambda>a b. Inr (filter (\<lambda>x. a \<le> bl_slot x \<and> bl_slot x \<le> b) D)),
      db_block_at = (\<lambda>p. Inr (find (\<lambda>x. bl_slot x = p) D)),
      db_first_block_after = (\<lambda>s. Inr (find (\<lambda>x. s < bl_slot x) D)),
      db_entry_rows = (\<lambda>a b. Inr (filter (\<lambda>r. a \<le> er_slot r \<and> er_slot r \<le> b) rows)),
      db_tx_rows = (\<lambda>a b. Inr []), db_block_conflicts = (\<lambda>a b. Inr []),
      db_entry_conflicts = (\<lambda>a b. Inr []), db_tx_conflicts = (\<lambda>a b. Inr [])\<rparr>"

definition sample_db :: database where
  "sample_db = table_db sample_table sample_rows"

definition sample_args :: run_args where
  "sample_args =
     \<lparr>ra_range = Some (Slot_range 5 7), ra_full = False, ra_mode = Structural, ra_blocks_table = ''b'',
      ra_entries_table = ''e'', ra_transactions_table = ''t'', ra_ticks_per_slot = 1,
      ra_schedule = \<lparr>hs_eras = [(0, 0)]\<rparr>, ra_alpenglow_genesis_block = None, ra_expected_genesis_hash = None,
      ra_anchors = [], ra_audit_duplicate_conflicts = False, ra_window_slots = 2, ra_fetch_ahead = 1,
      ra_resume = False, ra_checkpoint_file = True, ra_max_failures = 0, ra_export_fixture = False\<rparr>"

definition sample_job :: job_descriptor where
  "sample_job = job_of sample_args 5 7 None"

lemma table_db_true: "db_true D (table_db D rows)" "db_next_true D (table_db D rows)"
proof -
  have found: "b \<in> set D \<and> P b" if "find P D = Some b" for P and b :: block_info
    using that by (induction D) (auto split: if_splits)
  have "b \<in> set D \<and> bl_slot b = p" if "find (\<lambda>x. bl_slot x = p) D = Some b" for p b
    using found [OF that] .
  then show "db_true D (table_db D rows)" unfolding db_true_def table_db_def database.simps by blast
  show "db_next_true D (table_db D rows)" by (simp add: db_next_true_def table_db_def block_after_def)
qed

lemma sample_db_true: "db_true sample_table sample_db"
  unfolding sample_db_def by (rule table_db_true)

text \<open>
  A table with gaps: slot 5 is skipped, 7 and 8 are missing in front of the skipped slot 9, and the block
  at 15 claims the parent 14, so 11 and 12 are missing from the range 5 to 12.
\<close>

definition gap_table :: "block_info list" where
  "gap_table = [sample_block_at 4 3, sample_block_at 6 4, sample_block_at 10 8, sample_block_at 15 14]"

lemma gap_table_ok: "table_ok gap_table"
  by (simp add: table_ok_def gap_table_def sample_block_at_def claim_possible_def u64_max_def)

lemma slots_filter: "{x \<in> {a..b}. P x} = set (filter P [a..<Suc b])" "card {x \<in> {a..b}. P x} = length (filter P [a..<Suc b])"
proof -
  show eq: "{x \<in> {a..b}. P x} = set (filter P [a..<Suc b])" by auto
  have "card (set (filter P [a..<Suc b])) = length (filter P [a..<Suc b])" by (intro distinct_card distinct_filter) simp
  then show "card {x \<in> {a..b}. P x} = length (filter P [a..<Suc b])" unfolding eq .
qed

lemma gap_table_statuses:
  "filter (slot_present gap_table) [5..<Suc 12] = [6, 10]" "filter (slot_skipped gap_table) [5..<Suc 12] = [5, 9]"
  "filter (slot_missing gap_table) [5..<Suc 12] = [7, 8, 11, 12]"
  "filter (\<lambda>x. slot_missing gap_table x \<and> gap_start gap_table 5 x) [5..<Suc 12] = [7, 11]"
  by code_simp+

theorem run_accounts_range_witness:
  "\<exists>st. run_from toy_sha (table_db gap_table []) sample_args (job_of sample_args 5 12 None) 0 None (Inr None) = Some (Inr st) \<and>
     slots_seen (rs_counters st) = 2 \<and> rc_slots_skipped (rs_counters st) = 2 \<and> rc_slots_missing (rs_counters st) = 4 \<and>
     slots_accounted (rs_counters st) = 8 \<and> missing_slots (rs_report st) = {7, 11}"
proof -
  let ?job = "job_of sample_args 5 12 None"
  have job: "jd_range_start ?job = 5" "jd_range_end ?job = 12" "ra_max_failures sample_args = 0"
    by (simp_all add: job_of_def sample_args_def)
  have zero: "slots_seen run_counters_default = 0" "rc_slots_skipped run_counters_default = 0"
    "rc_slots_missing run_counters_default = 0" "slots_accounted run_counters_default = 0"
    by (simp_all add: run_counters_default_def slots_seen_def slots_accounted_def)
  show ?thesis
    using run_accounts_range [OF gap_table_ok table_db_true, of ?job 5 None run_counters_default toy_sha "[]" sample_args 0 "Inr None"]
    unfolding job slots_filter gap_table_statuses zero by (auto simp: u64_max_def)
qed

theorem exit_code_matches_report_witness:
  "\<exists>st. run_from toy_sha sample_db sample_args sample_job 0 None (Inr None) = Some (Inr st) \<and>
     exit_code (rs_counters st) False = 2 \<and> (\<exists>f\<in>set (rs_report st). fi_class f = Fail)"
proof -
  have run: "map_option (map_sum id (\<lambda>st. map fi_code (rs_report st)))
      (run_from toy_sha sample_db sample_args sample_job 0 None (Inr None)) = Some (Inr [Parent_slot_mismatch])"
    and classes: "map_option (map_sum id (\<lambda>st. map fi_class (rs_report st)))
      (run_from toy_sha sample_db sample_args sample_job 0 None (Inr None)) = Some (Inr [Fail])"
    by code_simp+
  then obtain st where st: "run_from toy_sha sample_db sample_args sample_job 0 None (Inr None) = Some (Inr st)"
    "map fi_class (rs_report st) = [Fail]" by (auto simp: map_sum_def split: sum.splits)
  then have "\<exists>f\<in>set (rs_report st). fi_class f = Fail" by (cases "rs_report st") auto
  then show ?thesis
    using st(1) exit_code_matches_report [OF st(1)] by (simp add: sample_job_def job_of_def u64_max_def)
qed

theorem last_slot_range_diverges_witness:
  "run_windows toy_sha sample_db sample_args sample_job 5 0 u64_max 5 True
     \<lparr>rs_walk = from_checkpoint 5 None [] [] False, rs_counters = run_counters_default, rs_report = [],
      rs_aborted = False, rs_file = Inr None\<rparr> = None"
  by (rule last_slot_range_diverges [OF sample_db_true]) (simp_all add: sample_args_def is_u64_def u64_max_def)

text \<open>
  C21. A checkpoint does not keep the last present block.  When the block after the cursor names an older
  block as its parent, the uninterrupted walk reports a parent mismatch, because a later block exists;
  the walk resumed from the checkpoint is seeded with that older block and reports nothing.
\<close>

theorem resume_forgets_last_block:
  assumes "cw_prev walk = Some (q, hq)" "bl_parent_slot b < q" "q < bl_slot b" "bl_slot b < u64_max"
    and "bl_parent_blockhash b = bl_blockhash parent" "bl_slot parent = bl_parent_slot b"
    and "cursor \<le> q" "anchor_agrees (cw_anchors walk) b"
  shows "let resumed = seed (bl_slot parent) (bl_blockhash parent)
               (from_checkpoint (accounted_through walk cursor) (cw_expected_genesis_hash walk) (cw_anchors walk)
                  (cw_checked_anchors walk) (cw_genesis_checked walk))
         in (\<exists>f\<in>set (or_findings (snd (observe_block walk b))). fi_code f = Parent_slot_mismatch \<and> fi_class f = Fail) \<and>
            or_findings (snd (observe_block resumed b)) = []"
proof -
  let ?r = "seed (bl_slot parent) (bl_blockhash parent)
      (from_checkpoint (accounted_through walk cursor) (cw_expected_genesis_hash walk) (cw_anchors walk)
         (cw_checked_anchors walk) (cw_genesis_checked walk))"
  have "cw_prev ?r = Some (bl_slot parent, bl_blockhash parent)" "cw_anchors ?r = cw_anchors walk"
    by (simp_all add: seed_def from_checkpoint_def)
  then have "or_findings (snd (observe_block ?r b)) = []"
    using observe_block_clean [of ?r "bl_slot parent" "bl_blockhash parent" b] assms by simp
  moreover have "\<exists>f\<in>set (or_findings (snd (observe_block walk b))). fi_code f = Parent_slot_mismatch \<and> fi_class f = Fail"
    using assms(1-3) by (auto simp: observe_block_def check_linkage_def Let_def split: option.splits)
  ultimately show ?thesis by (simp add: Let_def)
qed

text \<open>The same at the level of whole runs: the checkpoint of the first window, then a resumed run.\<close>

definition sample_interrupted :: checkpoint_file where
  "sample_interrupted =
     (case fetch_window sample_db 5 6 False False True of
        Inl _ \<Rightarrow> Inl ()
      | Inr window \<Rightarrow>
          rs_file (process_window toy_sha sample_args sample_job 5 0 window
            \<lparr>rs_walk = from_checkpoint 5 None [] [] False, rs_counters = run_counters_default, rs_report = [],
             rs_aborted = False, rs_file = Inr None\<rparr>))"

lemma resumed_run_is_clean:
  "map_option (map_sum id (\<lambda>st. exit_code (rs_counters st) False))
     (run toy_sha id id None sample_db (sample_args\<lparr>ra_resume := True\<rparr>) 0 sample_interrupted) = Some (Inr 0)"
  "map_option (map_sum id (\<lambda>st. exit_code (rs_counters st) False))
     (run toy_sha id id None sample_db sample_args 0 (Inr None)) = Some (Inr 2)"
  by code_simp+

theorem resume_forgets_last_block_witness:
  "let walk = fst (walk_blocks (seed 4 [4] (from_checkpoint 5 None [] [] False)) [sample_block_at 5 4, sample_block_at 6 5]);
       resumed = seed 5 [5] (from_checkpoint (accounted_through walk 5) None [] [] False)
   in or_findings (snd (observe_block resumed (sample_block_at 7 5))) = [] \<and>
      (\<exists>f\<in>set (or_findings (snd (observe_block walk (sample_block_at 7 5)))). fi_class f = Fail)"
proof -
  define walk where "walk = fst (walk_blocks (seed 4 [4] (from_checkpoint 5 None [] [] False))
    [sample_block_at 5 4, sample_block_at 6 5])"
  have w: "cw_prev walk = Some (6, [6])" "cw_anchors walk = []" "cw_expected_genesis_hash walk = None"
    "cw_checked_anchors walk = []" "cw_genesis_checked walk = False"
    unfolding walk_def by code_simp+
  show ?thesis
    using resume_forgets_last_block [of walk 6 "[6]" "sample_block_at 7 5" "sample_block_at 5 4" 5] w
    unfolding Let_def walk_def [symmetric]
    by (auto simp: sample_block_at_def u64_max_def anchor_agrees_def hm_get_eq)
qed

end
