(* ===== verification/Head_Store.thy ===== *)
theory Head_Store
  imports Head_Coverage "HOL-Library.List_Lexorder" "HOL-Library.Product_Lexorder"
begin

text \<open>
  The recent transactions the server holds in memory (\<open>head_cache/mod.rs\<close>): the maps indexed by
  slot, signature and address, their eviction, and the reads over them.  The state machine that
  decides what is written here is in \<open>Head_Banks\<close>.

  A \<open>DashMap\<close> is an association list; every operation runs under the bank lock, so an operation is
  one step.  The commitment of a bank is an \<open>AtomicU8\<close> shared between the bank and the entries of its
  transactions: a \<open>token\<close> is its address in the store \<open>st_tokens\<close>.  Conversions to stored records,
  memo extraction, base58 and JSON are the functions of a \<open>convert_env\<close>; the fields of metadata and
  transactions the cache only carries along are kept as opaque bytes (\<open>bm_rewards\<close>, \<open>tr_payload\<close>).
\<close>

section \<open>Data\<close>

type_synonym signature = "nat list"
type_synonym pubkey = "nat list"
type_synonym token = nat

record slot_index =
  si_slot :: slot
  si_idx :: nat

record head_sig_key =
  sk_signature :: signature
  sk_pos :: slot_index

record head_tx_meta =
  mt_bank_commitment :: "token option"
  mt_signature_str :: string
  mt_pos :: slot_index
  mt_err :: "string option"
  mt_memo :: "string option"
  mt_block_time :: "int option"

record transaction_count_overlay =
  ov_start_slot :: slot
  ov_context_slot :: slot
  ov_transaction_count :: nat

record block_metadata =
  bm_slot :: slot
  bm_parent_slot :: slot
  bm_blockhash :: hash
  bm_parent_blockhash :: hash
  bm_block_time :: "int option"
  bm_block_height :: "nat option"
  bm_executed_transaction_count :: nat
  bm_entry_count :: nat
  bm_rewards :: "nat list"
  bm_footer :: "nat list option"

text \<open>A transaction as the stream delivers it, and as the cache stores it.\<close>

record tx_info =
  ti_signature :: "nat list"
  ti_index :: nat
  ti_payload :: "nat list"

record stored_tx =
  tr_signature :: signature
  tr_slot :: slot
  tr_slot_idx :: nat
  tr_block_time :: "int option"
  tr_account_keys :: "pubkey list"
  tr_loaded_writable :: "pubkey list"
  tr_loaded_readonly :: "pubkey list"
  tr_meta_err :: "string option"
  tr_payload :: "nat list"

record convert_env =
  ev_convert :: "slot \<Rightarrow> tx_info \<Rightarrow> stored_tx option"
  ev_memo :: "stored_tx \<Rightarrow> string option"
  ev_json :: "string \<Rightarrow> string option"
  ev_bs58 :: "nat list \<Rightarrow> string"
  ev_accounts :: "stored_tx \<Rightarrow> nat list"

datatype slot_boundary = Position slot nat | Slot slot

datatype transaction_details = Details_none | Details_signatures | Details_accounts | Details_full

datatype stored_block_payload =
    Payload_metadata block_metadata
  | Payload_signatures block_metadata "string list"
  | Payload_accounts block_metadata "nat list list"
  | Payload_full block_metadata "stored_tx list"

record head_store =
  st_coverage :: head_coverage
  st_retain_slots :: nat
  st_max_per_address :: nat
  st_latest_slot :: slot
  st_block_height :: "(slot, nat) hmap"
  st_blockhash :: "(slot, hash) hmap"
  st_block_time :: "(slot, int) hmap"
  st_block_metadata :: "(slot, block_metadata) hmap"
  st_tx :: "(signature, stored_tx) hmap"
  st_meta :: "(signature, head_tx_meta) hmap"
  st_sigs_by_address :: "(pubkey, head_sig_key list) hmap"
  st_truncated :: "(pubkey, slot) hmap"
  st_sigs_by_slot :: "(slot, signature list) hmap"
  st_addrs_by_slot :: "(slot, pubkey list) hmap"
  st_commitment :: "(slot, commitment_level) hmap"
  st_tokens :: "token \<Rightarrow> nat"
  st_next_token :: token

definition head_store_new :: "nat \<Rightarrow> nat \<Rightarrow> head_store" where
  "head_store_new retain_slots max_per_address =
     \<lparr>st_coverage = head_coverage_default,
      st_retain_slots = max retain_slots 1,
      st_max_per_address = max max_per_address 1,
      st_latest_slot = 0,
      st_block_height = [], st_blockhash = [], st_block_time = [], st_block_metadata = [],
      st_tx = [], st_meta = [],
      st_sigs_by_address = [], st_truncated = [], st_sigs_by_slot = [], st_addrs_by_slot = [],
      st_commitment = [],
      st_tokens = (\<lambda>_. 0), st_next_token = 0\<rparr>"

text \<open>\<open>self.coverage.write()\<close> followed by the operations on the proof.\<close>

definition on_coverage :: "(head_coverage \<Rightarrow> head_coverage) \<Rightarrow> head_store \<Rightarrow> head_store" where
  "on_coverage f self = self\<lparr>st_coverage := f (st_coverage self)\<rparr>"

section \<open>Reads by slot\<close>

definition decode_commitment :: "nat \<Rightarrow> commitment_level" where
  "decode_commitment r = (if r = 2 then Finalized else if r = 1 then Confirmed else Processed)"

definition min_retained_slot :: "head_store \<Rightarrow> slot" where
  "min_retained_slot self = sat_sub (st_latest_slot self) (sat_sub (st_retain_slots self) 1)"

definition slot_commitment :: "head_store \<Rightarrow> slot \<Rightarrow> commitment_level" where
  "slot_commitment self s = (case hm_get (st_commitment self) s of Some c \<Rightarrow> c | None \<Rightarrow> Processed)"

definition block_time_for_slot :: "head_store \<Rightarrow> slot \<Rightarrow> int option" where
  "block_time_for_slot self s = hm_get (st_block_time self) s"

definition latest_block_height_at_least :: "head_store \<Rightarrow> commitment_level \<Rightarrow> nat option" where
  "latest_block_height_at_least self c =
     foldl (\<lambda>latest (s, height).
       if commitment_meets (slot_commitment self s) c
       then Some (case latest of None \<Rightarrow> height | Some prev \<Rightarrow> max prev height)
       else latest) None (st_block_height self)"

definition latest_blockhash_info_at_least ::
  "head_store \<Rightarrow> commitment_level \<Rightarrow> (slot \<times> hash \<times> nat) option" where
  "latest_blockhash_info_at_least self c =
     (let latest = st_latest_slot self;
          scan = foldl (\<lambda>best (s, h).
            if \<not> commitment_meets (slot_commitment self s) c then best
            else (case hm_get (st_block_height self) s of
                    None \<Rightarrow> best
                  | Some height \<Rightarrow>
                      (case best of
                         Some (best_slot, _) \<Rightarrow> if s \<le> best_slot then best else Some (s, h, height)
                       | None \<Rightarrow> Some (s, h, height)))) None (st_blockhash self)
      in if latest \<noteq> 0 \<and> commitment_meets (slot_commitment self latest) c
         then (case (hm_get (st_blockhash self) latest, hm_get (st_block_height self) latest) of
                 (Some h, Some height) \<Rightarrow> Some (latest, h, height)
               | _ \<Rightarrow> scan)
         else scan)"

fun blockhash_valid_loop ::
  "head_store \<Rightarrow> hash \<Rightarrow> nat \<Rightarrow> commitment_level \<Rightarrow> (slot \<times> hash) list \<Rightarrow> bool \<Rightarrow> bool option" where
  "blockhash_valid_loop self h lowest c [] found = (if found then Some False else None)"
| "blockhash_valid_loop self h lowest c ((s, h') # rest) found =
     (if h' \<noteq> h then blockhash_valid_loop self h lowest c rest found
      else if \<not> commitment_meets (slot_commitment self s) c
      then blockhash_valid_loop self h lowest c rest found
      else (case hm_get (st_block_height self) s of
              None \<Rightarrow> blockhash_valid_loop self h lowest c rest found
            | Some height \<Rightarrow>
                if lowest \<le> height then Some True
                else blockhash_valid_loop self h lowest c rest True))"

definition blockhash_valid_at_least ::
  "head_store \<Rightarrow> hash \<Rightarrow> nat \<Rightarrow> commitment_level \<Rightarrow> bool option" where
  "blockhash_valid_at_least self h lowest c =
     blockhash_valid_loop self h lowest c (st_blockhash self) False"

definition latest_slot_at_least :: "head_store \<Rightarrow> commitment_level \<Rightarrow> slot" where
  "latest_slot_at_least self c =
     (if c = Processed then st_latest_slot self
      else foldl (\<lambda>latest (s, have). if latest < s \<and> commitment_meets have c then s else latest)
             0 (st_commitment self))"

text \<open>
  The walk of \<open>transaction_count_overlay_at_least\<close> down the parents of one tip.  It ends because it
  only continues at a smaller slot.
\<close>

function overlay_walk ::
  "head_store \<Rightarrow> slot \<Rightarrow> slot \<Rightarrow> slot \<Rightarrow> nat \<Rightarrow> transaction_count_overlay option" where
  "overlay_walk self clickhouse_slot tip current count =
     (case hm_get (st_block_metadata self) current of
        None \<Rightarrow> None
      | Some m \<Rightarrow>
          let count' = sat_add count (bm_executed_transaction_count m)
          in if bm_parent_slot m \<le> clickhouse_slot
             then Some \<lparr>ov_start_slot = current, ov_context_slot = tip, ov_transaction_count = count'\<rparr>
             else if current \<le> bm_parent_slot m \<or>
                     hm_get (st_block_metadata self) (bm_parent_slot m) = None
             then None
             else overlay_walk self clickhouse_slot tip (bm_parent_slot m) count')"
  by pat_completeness auto

termination
  by (relation "measure (\<lambda>(_, _, _, current, _). current)") auto

declare overlay_walk.simps [simp del]

fun overlay_tips ::
  "head_store \<Rightarrow> slot \<Rightarrow> slot list \<Rightarrow> transaction_count_overlay option" where
  "overlay_tips self clickhouse_slot [] = None"
| "overlay_tips self clickhouse_slot (tip # tips) =
     (case overlay_walk self clickhouse_slot tip tip 0 of
        Some overlay \<Rightarrow> Some overlay
      | None \<Rightarrow> overlay_tips self clickhouse_slot tips)"

definition transaction_count_overlay_at_least ::
  "head_store \<Rightarrow> commitment_level \<Rightarrow> slot \<Rightarrow> transaction_count_overlay option" where
  "transaction_count_overlay_at_least self c clickhouse_slot =
     overlay_tips self clickhouse_slot
       (remdups_adj (rev (sort (filter (\<lambda>s. commitment_meets (slot_commitment self s) c)
          (map fst (st_block_metadata self))))))"

section \<open>Reads by signature and address\<close>

definition meta_commitment :: "head_store \<Rightarrow> head_tx_meta \<Rightarrow> commitment_level" where
  "meta_commitment self meta =
     (case mt_bank_commitment meta of
        None \<Rightarrow> slot_commitment self (si_slot (mt_pos meta))
      | Some t \<Rightarrow> decode_commitment (st_tokens self t))"

definition commitment_to_str :: "commitment_level \<Rightarrow> string" where
  "commitment_to_str c =
     (case c of Processed \<Rightarrow> ''processed'' | Confirmed \<Rightarrow> ''confirmed'' | Finalized \<Rightarrow> ''finalized'')"

definition confirmation_status_string :: "head_store \<Rightarrow> head_tx_meta \<Rightarrow> string" where
  "confirmation_status_string self meta = commitment_to_str (meta_commitment self meta)"

definition signature_position :: "head_store \<Rightarrow> signature \<Rightarrow> slot_index option" where
  "signature_position self sig = map_option mt_pos (hm_get (st_meta self) sig)"

definition get_meta :: "head_store \<Rightarrow> signature \<Rightarrow> commitment_level \<Rightarrow> head_tx_meta option" where
  "get_meta self sig c =
     (case hm_get (st_meta self) sig of
        None \<Rightarrow> None
      | Some meta \<Rightarrow> if commitment_meets (meta_commitment self meta) c then Some meta else None)"

definition get_tx :: "head_store \<Rightarrow> signature \<Rightarrow> commitment_level \<Rightarrow> stored_tx option" where
  "get_tx self sig c =
     (case hm_get (st_meta self) sig of
        None \<Rightarrow> None
      | Some meta \<Rightarrow>
          if commitment_meets (meta_commitment self meta) c then hm_get (st_tx self) sig else None)"

fun ordered_loop ::
  "head_store \<Rightarrow> slot \<Rightarrow> signature list \<Rightarrow> (nat \<times> signature \<times> string) list option" where
  "ordered_loop self s [] = Some []"
| "ordered_loop self s (sig # sigs) =
     (case hm_get (st_meta self) sig of
        None \<Rightarrow> None
      | Some meta \<Rightarrow>
          if si_slot (mt_pos meta) \<noteq> s then None
          else map_option ((#) (si_idx (mt_pos meta), sig, mt_signature_str meta))
                 (ordered_loop self s sigs))"

fun records_loop :: "head_store \<Rightarrow> signature list \<Rightarrow> stored_tx list option" where
  "records_loop self [] = Some []"
| "records_loop self (sig # sigs) =
     (case hm_get (st_tx self) sig of
        None \<Rightarrow> None
      | Some r \<Rightarrow> map_option ((#) r) (records_loop self sigs))"

definition get_block ::
  "convert_env \<Rightarrow> head_store \<Rightarrow> slot \<Rightarrow> commitment_level \<Rightarrow> transaction_details \<Rightarrow>
   stored_block_payload option" where
  "get_block env self s c details =
     (if \<not> commitment_meets (slot_commitment self s) c then None
      else case hm_get (st_block_metadata self) s of
        None \<Rightarrow> None
      | Some m \<Rightarrow>
          if details = Details_none then Some (Payload_metadata m)
          else
            case (if bm_executed_transaction_count m = 0 then Some []
                  else hm_get (st_sigs_by_slot self) s) of
              None \<Rightarrow> None
            | Some sigs \<Rightarrow>
                if length sigs \<noteq> bm_executed_transaction_count m then None
                else
                  case ordered_loop self s sigs of
                    None \<Rightarrow> None
                  | Some ordered0 \<Rightarrow>
                      let ordered = sort_key (\<lambda>(idx, sig, _). (idx, sig)) ordered0
                      in if details = Details_signatures
                         then Some (Payload_signatures m (map (\<lambda>(_, _, str). str) ordered))
                         else
                           case records_loop self (map (\<lambda>(_, sig, _). sig) ordered) of
                             None \<Rightarrow> None
                           | Some txs \<Rightarrow>
                               if details = Details_accounts
                               then Some (Payload_accounts m (map (ev_accounts env) txs))
                               else Some (Payload_full m txs))"

definition slot_index_lt :: "slot_index \<Rightarrow> slot_index \<Rightarrow> bool" where
  "slot_index_lt a b \<longleftrightarrow> si_slot a < si_slot b \<or> (si_slot a = si_slot b \<and> si_idx a < si_idx b)"

definition slot_index_gt :: "slot_index \<Rightarrow> slot_index \<Rightarrow> bool" where
  "slot_index_gt a b \<longleftrightarrow> si_slot a > si_slot b \<or> (si_slot a = si_slot b \<and> si_idx a > si_idx b)"

definition position_before_boundary :: "slot_index \<Rightarrow> slot_boundary \<Rightarrow> bool" where
  "position_before_boundary p b =
     (case b of
        Position s i \<Rightarrow> slot_index_lt p \<lparr>si_slot = s, si_idx = i\<rparr>
      | Slot s \<Rightarrow> si_slot p < s)"

definition position_after_boundary :: "slot_index \<Rightarrow> slot_boundary \<Rightarrow> bool" where
  "position_after_boundary p b =
     (case b of
        Position s i \<Rightarrow> slot_index_gt p \<lparr>si_slot = s, si_idx = i\<rparr>
      | Slot s \<Rightarrow> si_slot p > s)"

definition key_selected ::
  "head_store \<Rightarrow> slot_boundary option \<Rightarrow> slot_boundary option \<Rightarrow> commitment_level \<Rightarrow>
   head_sig_key \<Rightarrow> bool" where
  "key_selected self bef unt c k \<longleftrightarrow>
     (case bef of None \<Rightarrow> True | Some b \<Rightarrow> position_before_boundary (sk_pos k) b) \<and>
     (case unt of None \<Rightarrow> True | Some u \<Rightarrow> position_after_boundary (sk_pos k) u) \<and>
     commitment_meets (slot_commitment self (si_slot (sk_pos k))) c"

fun signatures_loop ::
  "head_store \<Rightarrow> (head_sig_key \<Rightarrow> bool) \<Rightarrow> nat \<Rightarrow> head_sig_key list \<Rightarrow> head_tx_meta list \<Rightarrow>
   head_tx_meta list" where
  "signatures_loop self selected limit [] out = out"
| "signatures_loop self selected limit (k # ks) out =
     (if \<not> selected k then signatures_loop self selected limit ks out
      else case hm_get (st_meta self) (sk_signature k) of
        None \<Rightarrow> signatures_loop self selected limit ks out
      | Some meta \<Rightarrow>
          if limit \<le> Suc (length out) then out @ [meta]
          else signatures_loop self selected limit ks (out @ [meta]))"

definition signatures_for_address ::
  "head_store \<Rightarrow> pubkey \<Rightarrow> slot_boundary option \<Rightarrow> slot_boundary option \<Rightarrow> nat \<Rightarrow>
   commitment_level \<Rightarrow> head_tx_meta list" where
  "signatures_for_address self address bef unt limit c =
     (case hm_get (st_sigs_by_address self) address of
        None \<Rightarrow> []
      | Some ks \<Rightarrow> signatures_loop self (key_selected self bef unt c) limit ks [])"

definition address_list_full :: "head_store \<Rightarrow> pubkey \<Rightarrow> bool" where
  "address_list_full self address =
     (case hm_get (st_sigs_by_address self) address of
        None \<Rightarrow> False
      | Some ks \<Rightarrow> st_max_per_address self \<le> length ks)"

definition chain_floor :: "head_store \<Rightarrow> commitment_level \<Rightarrow> instant \<Rightarrow> slot option option" where
  "chain_floor self c now =
     map_option (\<lambda>r. case r of
         Inl _ \<Rightarrow> None
       | Inr (_, p) \<Rightarrow> (case sc_intervals p of [] \<Rightarrow> None | (floor, _) # _ \<Rightarrow> Some floor))
       (head_coverage_snapshot (st_coverage self) 0 None c now)"

definition address_floor :: "head_store \<Rightarrow> pubkey \<Rightarrow> slot option \<Rightarrow> slot option" where
  "address_floor self address chain =
     (case chain of
        None \<Rightarrow> None
      | Some c \<Rightarrow>
          let floor = max c (min_retained_slot self)
          in Some (case hm_get (st_truncated self) address of
                     None \<Rightarrow> floor
                   | Some s \<Rightarrow> max floor (sat_add s 1)))"

section \<open>Writes\<close>

definition backfill_transaction_block_time :: "signature \<Rightarrow> int \<Rightarrow> head_store \<Rightarrow> head_store" where
  "backfill_transaction_block_time sig block_time self =
     (case hm_get (st_tx self) sig of
        None \<Rightarrow> self
      | Some r \<Rightarrow>
          if tr_block_time r = Some block_time then self
          else self\<lparr>st_tx := hm_insert sig (r\<lparr>tr_block_time := Some block_time\<rparr>) (st_tx self)\<rparr>)"

definition backfill_meta_block_time :: "signature \<Rightarrow> int \<Rightarrow> head_store \<Rightarrow> head_store" where
  "backfill_meta_block_time sig block_time self =
     (case hm_get (st_meta self) sig of
        None \<Rightarrow> self
      | Some meta \<Rightarrow>
          if mt_block_time meta = Some block_time then self
          else self\<lparr>st_meta := hm_insert sig (meta\<lparr>mt_block_time := Some block_time\<rparr>) (st_meta self)\<rparr>)"

definition backfill_slot_block_time :: "slot \<Rightarrow> int \<Rightarrow> head_store \<Rightarrow> head_store" where
  "backfill_slot_block_time s block_time self =
     (case hm_get (st_sigs_by_slot self) s of
        None \<Rightarrow> self
      | Some sigs \<Rightarrow>
          fold (\<lambda>sig self. backfill_meta_block_time sig block_time
                            (backfill_transaction_block_time sig block_time self)) sigs self)"

definition note_block_metadata :: "block_metadata \<Rightarrow> head_store \<Rightarrow> head_store" where
  "note_block_metadata m self =
     (let s = bm_slot m;
          self1 = (case bm_block_height m of
                     None \<Rightarrow> self
                   | Some height \<Rightarrow> self\<lparr>st_block_height := hm_insert s height (st_block_height self)\<rparr>);
          self2 = self1\<lparr>st_blockhash := hm_insert s (bm_blockhash m) (st_blockhash self1)\<rparr>;
          self3 = (case bm_block_time m of
                     None \<Rightarrow> self2
                   | Some block_time \<Rightarrow>
                       backfill_slot_block_time s block_time
                         (self2\<lparr>st_block_time := hm_insert s block_time (st_block_time self2)\<rparr>))
      in self3\<lparr>st_block_metadata := hm_insert s m (st_block_metadata self3)\<rparr>)"

definition drop_signature :: "slot \<Rightarrow> signature \<Rightarrow> head_store \<Rightarrow> head_store" where
  "drop_signature s sig self =
     (case hm_get (st_meta self) sig of
        None \<Rightarrow> self
      | Some meta \<Rightarrow>
          if si_slot (mt_pos meta) = s
          then self\<lparr>st_tx := hm_remove sig (st_tx self), st_meta := hm_remove sig (st_meta self)\<rparr>
          else self)"

definition drop_address :: "slot \<Rightarrow> pubkey \<Rightarrow> head_store \<Rightarrow> head_store" where
  "drop_address s address self =
     (case hm_get (st_sigs_by_address self) address of
        None \<Rightarrow> self
      | Some ks \<Rightarrow>
          let ks' = filter (\<lambda>k. si_slot (sk_pos k) \<noteq> s) ks
          in self\<lparr>st_sigs_by_address :=
               (if ks' = [] then hm_remove address (st_sigs_by_address self)
                else hm_insert address ks' (st_sigs_by_address self))\<rparr>)"

definition remove_slot_inner :: "slot \<Rightarrow> head_store \<Rightarrow> head_store" where
  "remove_slot_inner s self =
     (let self1 = on_coverage (\<lambda>cov. head_coverage_retain (st_latest_slot self) (st_retain_slots self)
                                       (head_coverage_invalidate s cov)) self;
          self2 = self1\<lparr>st_commitment := hm_remove s (st_commitment self1),
                        st_block_height := hm_remove s (st_block_height self1),
                        st_blockhash := hm_remove s (st_blockhash self1),
                        st_block_time := hm_remove s (st_block_time self1),
                        st_block_metadata := hm_remove s (st_block_metadata self1)\<rparr>;
          self3 = (case hm_get (st_sigs_by_slot self2) s of
                     None \<Rightarrow> self2
                   | Some sigs \<Rightarrow>
                       fold (drop_signature s) sigs
                         (self2\<lparr>st_sigs_by_slot := hm_remove s (st_sigs_by_slot self2)\<rparr>))
      in case hm_get (st_addrs_by_slot self3) s of
           None \<Rightarrow> self3
         | Some addrs \<Rightarrow>
             fold (drop_address s) (remdups_adj (sort addrs))
               (self3\<lparr>st_addrs_by_slot := hm_remove s (st_addrs_by_slot self3)\<rparr>))"

definition remove_slot :: "slot \<Rightarrow> head_store \<Rightarrow> head_store" where
  "remove_slot s self = remove_slot_inner s (on_coverage (head_coverage_invalidate_branch s) self)"

definition evict_old_slots :: "head_store \<Rightarrow> head_store" where
  "evict_old_slots self =
     (let min_slot = min_retained_slot self;
          old = filter (\<lambda>s. s < min_slot) (map fst (st_commitment self))
      in if old = [] then self
         else let self' = fold remove_slot_inner old self
              in self'\<lparr>st_truncated := hm_retain (\<lambda>_ s. min_slot \<le> s) (st_truncated self')\<rparr>)"

definition note_slot_commitment :: "slot \<Rightarrow> commitment_level \<Rightarrow> head_store \<Rightarrow> head_store" where
  "note_slot_commitment s c self =
     (let prev_latest = st_latest_slot self;
          merged = (case hm_get (st_commitment self) s of
                      None \<Rightarrow> c
                    | Some existing \<Rightarrow> if commitment_meets c existing then c else existing);
          self' = self\<lparr>st_latest_slot := max prev_latest s,
                       st_commitment := hm_insert s merged (st_commitment self)\<rparr>
      in if prev_latest < s then evict_old_slots self' else self')"

section \<open>Ingesting a transaction\<close>

definition bytes_to_array :: "nat \<Rightarrow> nat list \<Rightarrow> nat list option" where
  "bytes_to_array n bytes = (if length bytes = n then Some bytes else None)"

definition token_rank :: "head_store \<Rightarrow> token option \<Rightarrow> nat" where
  "token_rank self t = (case t of None \<Rightarrow> 0 | Some t \<Rightarrow> st_tokens self t)"

definition projection_wins :: "head_store \<Rightarrow> head_tx_meta \<Rightarrow> slot \<Rightarrow> token option \<Rightarrow> bool" where
  "projection_wins self old s bank_commitment \<longleftrightarrow>
     si_slot (mt_pos old) = s \<or>
     token_rank self bank_commitment = 0 \<or>
     token_rank self (mt_bank_commitment old) \<noteq> 0"

definition keeps_existing_projection :: "head_store \<Rightarrow> signature \<Rightarrow> slot \<Rightarrow> token option \<Rightarrow> bool" where
  "keeps_existing_projection self sig s bank_commitment =
     (case hm_get (st_meta self) sig of
        None \<Rightarrow> False
      | Some old \<Rightarrow> projection_wins self old s bank_commitment)"

text \<open>The two loops at the back of an address list, and the insertion that precedes them.\<close>

definition key_order :: "head_sig_key \<Rightarrow> slot \<times> nat" where
  "key_order k = (si_slot (sk_pos k), si_idx (sk_pos k))"

function expire_loop :: "slot \<Rightarrow> head_sig_key list \<Rightarrow> head_sig_key list" where
  "expire_loop min_slot entry =
     (if entry \<noteq> [] \<and> si_slot (sk_pos (last entry)) < min_slot
      then expire_loop min_slot (butlast entry) else entry)"
  by pat_completeness auto

termination
  by (relation "measure (\<lambda>(_, entry). length entry)") auto

declare expire_loop.simps [simp del]

function truncate_loop :: "nat \<Rightarrow> head_sig_key list \<Rightarrow> slot option \<Rightarrow> head_sig_key list \<times> slot option" where
  "truncate_loop cap entry truncated =
     (if cap < length entry
      then let dropped = si_slot (sk_pos (last entry))
           in truncate_loop cap (butlast entry)
                (Some (case truncated of None \<Rightarrow> dropped | Some t \<Rightarrow> max t dropped))
      else (entry, truncated))"
  by pat_completeness auto

termination
  by (relation "measure (\<lambda>(_, entry, _). length entry)") auto

declare truncate_loop.simps [simp del]

definition index_address :: "pubkey \<Rightarrow> head_sig_key \<Rightarrow> slot \<Rightarrow> head_store \<Rightarrow> head_store" where
  "index_address address key min_slot self =
     (let entry = (case hm_get (st_sigs_by_address self) address of None \<Rightarrow> [] | Some ks \<Rightarrow> ks);
          newer = (\<lambda>k. key_order k > key_order key);
          entry1 = takeWhile newer entry @ key # dropWhile newer entry;
          entry2 = expire_loop min_slot entry1;
          (entry3, truncated) = truncate_loop (st_max_per_address self) entry2 None;
          self' = self\<lparr>st_sigs_by_address := hm_insert address entry3 (st_sigs_by_address self)\<rparr>
      in case truncated of
           None \<Rightarrow> self'
         | Some s \<Rightarrow>
             self'\<lparr>st_truncated :=
               hm_insert address (case hm_get (st_truncated self) address of
                                    None \<Rightarrow> s | Some highest \<Rightarrow> max highest s) (st_truncated self)\<rparr>)"

text \<open>A canonical winner takes a signature back from the slot that held it.\<close>

definition release_key :: "slot \<Rightarrow> signature \<Rightarrow> pubkey \<Rightarrow> head_store \<Rightarrow> head_store" where
  "release_key old_slot sig address self =
     self\<lparr>st_sigs_by_address :=
       hm_modify address (filter (\<lambda>k. sk_signature k \<noteq> sig \<or> si_slot (sk_pos k) \<noteq> old_slot))
         (st_sigs_by_address self)\<rparr>"

definition release_signature :: "slot \<Rightarrow> signature \<Rightarrow> head_store \<Rightarrow> head_store" where
  "release_signature old_slot sig self =
     (let self1 = self\<lparr>st_sigs_by_slot :=
                    hm_modify old_slot (filter (\<lambda>candidate. candidate \<noteq> sig)) (st_sigs_by_slot self)\<rparr>
      in case hm_get (st_addrs_by_slot self1) old_slot of
           None \<Rightarrow> self1
         | Some addrs \<Rightarrow> fold (release_key old_slot sig) addrs self1)"

definition unique_addresses :: "stored_tx \<Rightarrow> pubkey list" where
  "unique_addresses r =
     remdups_adj (sort (tr_account_keys r @ tr_loaded_writable r @ tr_loaded_readonly r))"

definition stored_meta ::
  "convert_env \<Rightarrow> slot \<Rightarrow> tx_info \<Rightarrow> token option \<Rightarrow> stored_tx \<Rightarrow> head_tx_meta" where
  "stored_meta env s tx bank_commitment r =
     \<lparr>mt_bank_commitment = bank_commitment,
      mt_signature_str = ev_bs58 env (ti_signature tx),
      mt_pos = \<lparr>si_slot = s, si_idx = min (ti_index tx) u32_max\<rparr>,
      mt_err = (case tr_meta_err r of None \<Rightarrow> None | Some raw \<Rightarrow> ev_json env raw),
      mt_memo = ev_memo env r,
      mt_block_time = tr_block_time r\<rparr>"

definition store_transaction ::
  "signature \<Rightarrow> head_tx_meta \<Rightarrow> stored_tx \<Rightarrow> slot \<Rightarrow> slot \<Rightarrow> head_store \<Rightarrow> head_store" where
  "store_transaction sig meta r s min_slot self =
     (let addrs = unique_addresses r;
          key = \<lparr>sk_signature = sig, sk_pos = mt_pos meta\<rparr>;
          self1 = self\<lparr>st_meta := hm_insert sig meta (st_meta self),
                       st_tx := hm_insert sig r (st_tx self),
                       st_sigs_by_slot := hm_entry s [] (\<lambda>sigs. sigs @ [sig]) (st_sigs_by_slot self),
                       st_addrs_by_slot := hm_entry s [] (\<lambda>as. as @ addrs) (st_addrs_by_slot self)\<rparr>
      in fold (\<lambda>a. index_address a key min_slot) addrs self1)"

definition ingest_bank_transaction ::
  "convert_env \<Rightarrow> slot \<Rightarrow> tx_info \<Rightarrow> token option \<Rightarrow> head_store \<Rightarrow> head_store" where
  "ingest_bank_transaction env s tx bank_commitment self =
     (let current_latest = st_latest_slot self;
          min_slot = sat_sub (max current_latest s) (sat_sub (st_retain_slots self) 1)
      in if s < min_slot then self
         else case bytes_to_array 64 (ti_signature tx) of
           None \<Rightarrow> self
         | Some sig \<Rightarrow>
             if keeps_existing_projection self sig s bank_commitment then self
             else case ev_convert env s tx of
               None \<Rightarrow> self
             | Some record0 \<Rightarrow>
                 let r = record0\<lparr>tr_block_time := hm_get (st_block_time self) s\<rparr>;
                     meta = stored_meta env s tx bank_commitment r;
                     self1 = (case hm_get (st_meta self) sig of
                                None \<Rightarrow> self
                              | Some old \<Rightarrow>
                                  release_signature (si_slot (mt_pos old)) sig
                                    (self\<lparr>st_meta := hm_remove sig (st_meta self)\<rparr>));
                     self2 = store_transaction sig meta r s min_slot self1
                 in if current_latest < s
                    then let self3 = self2\<lparr>st_latest_slot := max (st_latest_slot self2) s\<rparr>
                         in if st_latest_slot self2 < s then evict_old_slots self3 else self3
                    else self2)"

end
