(* ===== verification/Head_Banks.thy ===== *)
theory Head_Banks
  imports Head_Store
begin

text \<open>
  The speculative banks of one stream subscription (\<open>head_cache/banks.rs\<close>): staging, freezing,
  commitment, discarding, and the publication of the selected bank of a slot into the store of
  \<open>Head_Store\<close>.  Every operation carries the session it belongs to and runs under the bank write
  lock, so a run is the list of its operations.  \<open>None\<close> is a panic.
\<close>

section \<open>State\<close>

type_synonym bank_key = "slot \<times> nat"

record entry_update =
  eu_slot :: slot
  eu_bank_id :: nat
  eu_index :: nat
  eu_hash :: "nat list"
  eu_executed_transaction_count :: nat
  eu_starting_transaction_index :: nat

record bank =
  bk_metadata :: "block_metadata option"
  bk_footer :: "nat list option"
  bk_transactions :: "tx_info list option"
  bk_sealed_hash :: "hash option"
  bk_entries :: "entry_update list"
  bk_commitment :: token
  bk_observed_at :: "instant option"

record bank_state =
  bs_session :: nat
  bs_highest :: slot
  bs_minimum_commitment :: nat
  bs_banks :: "(bank_key, bank) hmap"
  bs_selected :: "(slot, nat) hmap"
  bs_canonical :: "(slot, nat) hmap"
  bs_discarded :: "(bank_key, unit) hmap"

record head_cache =
  hk_banks :: bank_state
  hk_store :: head_store

definition pending_commitment_slots :: nat where
  "pending_commitment_slots = 64"

definition bank_state_default :: bank_state where
  "bank_state_default =
     \<lparr>bs_session = 0, bs_highest = 0, bs_minimum_commitment = 0, bs_banks = [],
      bs_selected = [], bs_canonical = [], bs_discarded = []\<rparr>"

definition head_cache_new :: "nat \<Rightarrow> nat \<Rightarrow> head_cache" where
  "head_cache_new retain_slots max_per_address =
     \<lparr>hk_banks = bank_state_default, hk_store = head_store_new retain_slots max_per_address\<rparr>"

text \<open>\<open>Bank::default()\<close> allocates a fresh commitment cell holding 0.\<close>

definition bank_default :: "token \<Rightarrow> bank" where
  "bank_default t =
     \<lparr>bk_metadata = None, bk_footer = None, bk_transactions = None, bk_sealed_hash = None,
      bk_entries = [], bk_commitment = t, bk_observed_at = None\<rparr>"

text \<open>\<open>state.banks.entry(key).or_default()\<close>.\<close>

definition bank_or_default :: "bank_key \<Rightarrow> head_cache \<Rightarrow> head_cache \<times> bank" where
  "bank_or_default key self =
     (case hm_get (bs_banks (hk_banks self)) key of
        Some b \<Rightarrow> (self, b)
      | None \<Rightarrow>
          let st = hk_store self;
              t = st_next_token st;
              b = bank_default t;
              bs = hk_banks self
          in (self\<lparr>hk_banks := bs\<lparr>bs_banks := hm_insert key b (bs_banks bs)\<rparr>,
                   hk_store := st\<lparr>st_tokens := (st_tokens st)(t := 0), st_next_token := Suc t\<rparr>\<rparr>, b))"

definition put_bank :: "bank_key \<Rightarrow> bank \<Rightarrow> head_cache \<Rightarrow> head_cache" where
  "put_bank key b self =
     self\<lparr>hk_banks := (hk_banks self)\<lparr>bs_banks := hm_insert key b (bs_banks (hk_banks self))\<rparr>\<rparr>"

definition on_store :: "(head_store \<Rightarrow> head_store) \<Rightarrow> head_cache \<Rightarrow> head_cache" where
  "on_store f self = self\<lparr>hk_store := f (hk_store self)\<rparr>"

definition on_banks :: "(bank_state \<Rightarrow> bank_state) \<Rightarrow> head_cache \<Rightarrow> head_cache" where
  "on_banks f self = self\<lparr>hk_banks := f (hk_banks self)\<rparr>"

section \<open>Acceptance and retention\<close>

definition bank_floor :: "head_cache \<Rightarrow> slot" where
  "bank_floor self =
     (let pending = (if 0 < bs_minimum_commitment (hk_banks self) then pending_commitment_slots else 0)
      in sat_sub (max (bs_highest (hk_banks self)) (st_latest_slot (hk_store self)))
           (wrap64 (sat_sub (st_retain_slots (hk_store self)) 1 + pending)))"

definition retain_banks :: "head_cache \<Rightarrow> head_cache" where
  "retain_banks self =
     (let floor = bank_floor self
      in on_banks (\<lambda>bs. bs\<lparr>bs_banks := hm_retain (\<lambda>key _. floor \<le> fst key) (bs_banks bs),
                           bs_selected := hm_retain (\<lambda>s _. floor \<le> s) (bs_selected bs),
                           bs_canonical := hm_retain (\<lambda>s _. floor \<le> s) (bs_canonical bs),
                           bs_discarded := hm_retain (\<lambda>key _. floor \<le> fst key) (bs_discarded bs)\<rparr>) self)"

definition accept_bank :: "nat \<Rightarrow> bank_key \<Rightarrow> head_cache \<Rightarrow> bool" where
  "accept_bank session key self \<longleftrightarrow>
     bs_session (hk_banks self) = session \<and>
     bank_floor self \<le> fst key \<and>
     hm_get (bs_discarded (hk_banks self)) key = None \<and>
     (case hm_get (bs_canonical (hk_banks self)) (fst key) of
        None \<Rightarrow> True
      | Some winner \<Rightarrow> winner = snd key)"

section \<open>Completeness of a bank\<close>

fun bad_transaction ::
  "convert_env \<Rightarrow> slot \<Rightarrow> nat \<Rightarrow> tx_info list \<Rightarrow> nat list \<Rightarrow> nat list list \<Rightarrow> bool" where
  "bad_transaction env s n [] indices signatures = False"
| "bad_transaction env s n (tx # txs) indices signatures =
     (n \<le> ti_index tx \<or>
      ti_index tx \<in> set indices \<or>
      ti_signature tx \<in> set signatures \<or>
      ev_convert env s tx = None \<or>
      bad_transaction env s n txs (ti_index tx # indices) (ti_signature tx # signatures))"

fun entries_loop :: "nat \<Rightarrow> nat \<Rightarrow> nat \<Rightarrow> entry_update list \<Rightarrow> nat option" where
  "entries_loop count i reached [] = Some reached"
| "entries_loop count i reached (e # es) =
     (if eu_index e \<noteq> i \<or> eu_starting_transaction_index e \<noteq> reached \<or> length (eu_hash e) \<noteq> 32 then None
      else case checked_add reached (eu_executed_transaction_count e) of
        None \<Rightarrow> None
      | Some e_end \<Rightarrow> if count < e_end then None else entries_loop count (Suc i) e_end es)"

definition complete_bank :: "convert_env \<Rightarrow> bank \<Rightarrow> slot \<Rightarrow> tx_info list \<Rightarrow> bool" where
  "complete_bank env b s txs =
     (case bk_metadata b of
        None \<Rightarrow> False
      | Some m \<Rightarrow>
          if bm_executed_transaction_count m \<noteq> length txs \<or> bm_entry_count m \<noteq> length (bk_entries b)
          then False
          else if bad_transaction env s (length txs) txs [] [] then False
          else entries_loop (bm_executed_transaction_count m) 0 0 (sort_key eu_index (bk_entries b)) =
                 Some (bm_executed_transaction_count m))"

section \<open>Sessions\<close>

definition remove_all_slots :: "head_store \<Rightarrow> head_store" where
  "remove_all_slots st = fold remove_slot_inner (map fst (st_commitment st)) st"

definition start_bank_session :: "commitment_level \<Rightarrow> head_cache \<Rightarrow> (head_cache \<times> nat) option" where
  "start_bank_session minimum self =
     (case checked_add (bs_session (hk_banks self)) 1 of
        None \<Rightarrow> None
      | Some session \<Rightarrow>
          let st = (remove_all_slots (hk_store self))\<lparr>st_latest_slot := 0, st_truncated := []\<rparr>
          in Some (\<lparr>hk_banks = bank_state_default\<lparr>bs_session := session,
                                                  bs_minimum_commitment := rank minimum\<rparr>,
                    hk_store = on_coverage head_coverage_connect st\<rparr>, session))"

definition end_bank_session :: "nat \<Rightarrow> head_cache \<Rightarrow> head_cache option" where
  "end_bank_session session self =
     (if bs_session (hk_banks self) \<noteq> session then Some self
      else
        let st = remove_all_slots (hk_store self)
        in case checked_add (bs_session (hk_banks self)) 1 of
             None \<Rightarrow> None
           | Some session' \<Rightarrow>
               Some \<lparr>hk_banks = (hk_banks self)\<lparr>bs_session := session', bs_banks := [], bs_selected := [],
                                                bs_canonical := [], bs_discarded := []\<rparr>,
                     hk_store = on_coverage head_coverage_disconnect (st\<lparr>st_latest_slot := 0\<rparr>)\<rparr>)"

section \<open>Publication\<close>

definition metadata_link :: "block_metadata \<Rightarrow> link" where
  "metadata_link m =
     \<lparr>lk_slot = bm_slot m, lk_hash = bm_blockhash m,
      lk_parent = bm_parent_slot m, lk_parent_hash = bm_parent_blockhash m\<rparr>"

definition ingest_all ::
  "convert_env \<Rightarrow> slot \<Rightarrow> tx_info list \<Rightarrow> token \<Rightarrow> head_store \<Rightarrow> head_store" where
  "ingest_all env s txs t st = fold (\<lambda>tx. ingest_bank_transaction env s tx (Some t)) txs st"

definition publish_bank :: "convert_env \<Rightarrow> bank_key \<Rightarrow> head_cache \<Rightarrow> head_cache" where
  "publish_bank env key self =
     (case hm_get (bs_banks (hk_banks self)) key of
        None \<Rightarrow> self
      | Some b \<Rightarrow>
          (case (bk_metadata b, bk_transactions b) of
             (Some m, Some txs) \<Rightarrow>
               let commitment = decode_commitment (st_tokens (hk_store self) (bk_commitment b));
                   current = hm_get (bs_selected (hk_banks self)) (fst key)
               in if rank commitment < bs_minimum_commitment (hk_banks self) then self
                  else if current \<noteq> None \<and> current \<noteq> Some (snd key) \<and> commitment = Processed then self
                  else if current = Some (snd key)
                  then on_store (\<lambda>st. note_slot_commitment (fst key) commitment
                         (ingest_all env (fst key) txs (bk_commitment b) st)) self
                  else
                    let st0 = (if current = None then hk_store self
                               else remove_slot_inner (fst key) (hk_store self));
                        st1 = note_slot_commitment (fst key) commitment
                                (ingest_all env (fst key) txs (bk_commitment b) (note_block_metadata m st0));
                        st2 = on_coverage (\<lambda>cov.
                                let cov1 = head_coverage_select_bank (metadata_link m) cov;
                                    cov2 = head_coverage_publish (fst key) commitment cov1
                                in (case bk_observed_at b of
                                      None \<Rightarrow> cov2
                                    | Some at \<Rightarrow> head_coverage_observe (fst key) commitment at cov2)) st1
                    in \<lparr>hk_banks = (hk_banks self)\<lparr>bs_selected :=
                          hm_insert (fst key) (snd key) (bs_selected (hk_banks self))\<rparr>,
                        hk_store = st2\<rparr>
           | _ \<Rightarrow> self))"
section \<open>Operations on one bank\<close>

definition raise_highest :: "slot \<Rightarrow> head_cache \<Rightarrow> head_cache" where
  "raise_highest s = on_banks (\<lambda>bs. bs\<lparr>bs_highest := max (bs_highest bs) s\<rparr>)"

definition stage_bank_metadata :: "nat \<Rightarrow> nat \<Rightarrow> block_metadata \<Rightarrow> head_cache \<Rightarrow> head_cache" where
  "stage_bank_metadata session bank_id m self =
     (let key = (bm_slot m, bank_id)
      in if \<not> accept_bank session key self then self
         else
           let (self1, b) = bank_or_default key (raise_highest (bm_slot m) self)
           in if (case bk_sealed_hash b of None \<Rightarrow> False | Some h \<Rightarrow> h \<noteq> bm_blockhash m) then self1
              else retain_banks
                     (put_bank key (b\<lparr>bk_metadata := Some (m\<lparr>bm_footer := bk_footer b\<rparr>)\<rparr>) self1))"

definition stage_bank_footer :: "nat \<Rightarrow> slot \<Rightarrow> nat \<Rightarrow> nat list \<Rightarrow> head_cache \<Rightarrow> head_cache" where
  "stage_bank_footer session s bank_id footer self =
     (let key = (s, bank_id)
      in if \<not> accept_bank session key self then self
         else
           let selected = (hm_get (bs_selected (hk_banks self)) s = Some bank_id);
               (self1, b) = bank_or_default key self
           in if bk_footer b \<noteq> None then self1
              else
                let b' = b\<lparr>bk_metadata := map_option (\<lambda>m. m\<lparr>bm_footer := Some footer\<rparr>) (bk_metadata b),
                           bk_footer := Some footer\<rparr>;
                    self2 = put_bank key b' self1;
                    self3 = (if selected
                             then on_store (\<lambda>st. st\<lparr>st_block_metadata :=
                                    hm_modify s (\<lambda>m. m\<lparr>bm_footer := Some footer\<rparr>) (st_block_metadata st)\<rparr>) self2
                             else self2)
                in retain_banks self3)"

definition stage_bank_entry :: "nat \<Rightarrow> entry_update \<Rightarrow> head_cache \<Rightarrow> head_cache" where
  "stage_bank_entry session e self =
     (let key = (eu_slot e, eu_bank_id e)
      in if accept_bank session key self
         then let (self1, b) = bank_or_default key self
              in if bk_sealed_hash b = None
                 then put_bank key (b\<lparr>bk_entries := bk_entries b @ [e]\<rparr>) self1
                 else self1
         else self)"

definition freeze_bank ::
  "convert_env \<Rightarrow> nat \<Rightarrow> slot \<Rightarrow> nat \<Rightarrow> hash \<Rightarrow> tx_info list \<Rightarrow> head_cache \<Rightarrow> head_cache" where
  "freeze_bank env session s bank_id h txs self =
     (let key = (s, bank_id)
      in if \<not> accept_bank session key self then self
         else
           let (self1, b) = bank_or_default key self
           in if bk_sealed_hash b \<noteq> None then self1
              else if (case bk_metadata b of None \<Rightarrow> True | Some m \<Rightarrow> bm_blockhash m \<noteq> h) then self1
              else if \<not> complete_bank env b s txs then self1
              else retain_banks (publish_bank env key
                     (put_bank key (b\<lparr>bk_sealed_hash := Some h, bk_transactions := Some txs\<rparr>) self1)))"

text \<open>The first part of \<open>commit_bank\<close>: a confirmed bank displaces every other bank of its slot.\<close>

definition displace_rivals :: "bank_key \<Rightarrow> head_cache \<Rightarrow> head_cache" where
  "displace_rivals key self =
     (let s = fst key;
          self1 = on_banks (\<lambda>bs. bs\<lparr>bs_canonical := hm_insert s (snd key) (bs_canonical bs)\<rparr>) self;
          self2 = (case hm_get (bs_selected (hk_banks self1)) s of
                     None \<Rightarrow> self1
                   | Some selected \<Rightarrow>
                       if selected \<noteq> snd key
                       then on_store (remove_slot_inner s)
                              (on_banks (\<lambda>bs. bs\<lparr>bs_selected := hm_remove s (bs_selected bs)\<rparr>) self1)
                       else self1);
          losers = filter (\<lambda>other. fst other = s \<and> other \<noteq> key) (map fst (bs_banks (hk_banks self2)))
      in on_banks (fold (\<lambda>loser bs. bs\<lparr>bs_banks := hm_remove loser (bs_banks bs),
                                       bs_discarded := hm_insert loser () (bs_discarded bs)\<rparr>) losers) self2)"

definition commit_bank ::
  "convert_env \<Rightarrow> nat \<Rightarrow> slot \<Rightarrow> nat \<Rightarrow> commitment_level \<Rightarrow> slot option \<Rightarrow> instant \<Rightarrow> head_cache \<Rightarrow>
   head_cache option" where
  "commit_bank env session s bank_id commitment parent now self =
     (let key = (s, bank_id)
      in if \<not> accept_bank session key self then Some self
         else
           let self1 = (if commitment \<noteq> Processed then displace_rivals key self else self);
               (self2, b) = bank_or_default key (raise_highest s self1);
               previous = st_tokens (hk_store self2) (bk_commitment b);
               self3 = on_store (\<lambda>st. st\<lparr>st_tokens :=
                         (st_tokens st)(bk_commitment b := max previous (rank commitment))\<rparr>) self2;
               b' = (if bk_observed_at b = None \<or> previous < rank commitment
                     then b\<lparr>bk_observed_at := Some now\<rparr> else b);
               self4 = publish_bank env key (put_bank key b' self3)
           in case hm_get (bs_banks (hk_banks self4)) key of
                None \<Rightarrow> None
              | Some b4 \<Rightarrow>
                  (case bk_observed_at b4 of
                     None \<Rightarrow> None
                   | Some at \<Rightarrow>
                       let selected = (hm_get (bs_selected (hk_banks self4)) s = Some bank_id)
                       in Some (retain_banks (on_store (on_coverage (\<lambda>cov.
                            let cov1 = head_coverage_observe s commitment at cov;
                                cov2 = (if selected
                                        then head_coverage_publish s commitment
                                               (head_coverage_validate_parent s parent cov1)
                                        else cov1)
                            in head_coverage_retain s (st_retain_slots (hk_store self4)) cov2)) self4))))"

definition discard_bank :: "nat \<Rightarrow> slot \<Rightarrow> nat \<Rightarrow> head_cache \<Rightarrow> head_cache" where
  "discard_bank session s bank_id self =
     (if bs_session (hk_banks self) \<noteq> session then self
      else
        let key = (s, bank_id);
            self1 = on_banks (\<lambda>bs. bs\<lparr>bs_banks := hm_remove key (bs_banks bs),
                                       bs_discarded := hm_insert key () (bs_discarded bs)\<rparr>) self;
            self2 = (if hm_get (bs_selected (hk_banks self1)) s = Some bank_id
                     then on_store (remove_slot s)
                            (on_banks (\<lambda>bs. bs\<lparr>bs_selected := hm_remove s (bs_selected bs)\<rparr>) self1)
                     else self1)
        in retain_banks self2)"

section \<open>Runs\<close>

datatype bank_op =
    Start commitment_level
  | Finish nat
  | Stage_metadata nat nat block_metadata
  | Stage_footer nat slot nat "nat list"
  | Stage_entry nat entry_update
  | Freeze nat slot nat hash "tx_info list"
  | Commit nat slot nat commitment_level "slot option" instant
  | Discard nat slot nat

fun bank_apply :: "convert_env \<Rightarrow> bank_op \<Rightarrow> head_cache \<Rightarrow> head_cache option" where
  "bank_apply env (Start c) self = map_option fst (start_bank_session c self)"
| "bank_apply env (Finish n) self = end_bank_session n self"
| "bank_apply env (Stage_metadata n i m) self = Some (stage_bank_metadata n i m self)"
| "bank_apply env (Stage_footer n s i f) self = Some (stage_bank_footer n s i f self)"
| "bank_apply env (Stage_entry n e) self = Some (stage_bank_entry n e self)"
| "bank_apply env (Freeze n s i h txs) self = Some (freeze_bank env n s i h txs self)"
| "bank_apply env (Commit n s i c p now) self = commit_bank env n s i c p now self"
| "bank_apply env (Discard n s i) self = Some (discard_bank n s i self)"

fun bank_run :: "convert_env \<Rightarrow> bank_op list \<Rightarrow> head_cache \<Rightarrow> head_cache option" where
  "bank_run env [] self = Some self"
| "bank_run env (x # xs) self =
     (case bank_apply env x self of None \<Rightarrow> None | Some self' \<Rightarrow> bank_run env xs self')"

end
