(* ===== verification/Head_Index.thy ===== *)
theory Head_Index
  imports Head_Banks
begin

text \<open>
  The consistency of the head store.  \<open>store_ok\<close> relates the maps of a \<open>head_store\<close> to the blocks that
  were published into it: which transaction a signature stands for, which signatures a slot owns, and
  that the chain proof still trusts a bank only while its block is held.
  \<open>index_ok\<close> states what an address list holds: keys of stored transactions that touch the address, newest first, and
  every key above the retention floor and the truncation record.  Each write of \<open>Head_Store\<close> preserves
  both.
\<close>

section \<open>What the store should hold\<close>

text \<open>The block published at a slot: the bank it came from, its metadata, transactions and commitment cell.\<close>

record content =
  ct_bank :: nat
  ct_metadata :: block_metadata
  ct_txs :: "tx_info list"
  ct_token :: token

type_synonym contents = "slot \<Rightarrow> content option"

definition hm_list :: "('k, 'v list) hmap \<Rightarrow> 'k \<Rightarrow> 'v list" where
  "hm_list m k = (case hm_get m k of None \<Rightarrow> [] | Some xs \<Rightarrow> xs)"

abbreviation meta_slot :: "head_tx_meta \<Rightarrow> slot" where
  "meta_slot meta \<equiv> si_slot (mt_pos meta)"

abbreviation key_slot :: "head_sig_key \<Rightarrow> slot" where
  "key_slot k \<equiv> si_slot (sk_pos k)"

definition same_block :: "block_metadata \<Rightarrow> block_metadata \<Rightarrow> bool" where
  "same_block m m' \<longleftrightarrow> m\<lparr>bm_footer := None\<rparr> = m'\<lparr>bm_footer := None\<rparr>"

text \<open>The record a published transaction is stored as.\<close>

definition block_record :: "convert_env \<Rightarrow> slot \<Rightarrow> content \<Rightarrow> tx_info \<Rightarrow> stored_tx option" where
  "block_record env s c tx =
     map_option (\<lambda>r. r\<lparr>tr_block_time := bm_block_time (ct_metadata c)\<rparr>) (ev_convert env s tx)"

definition tx_stored :: "convert_env \<Rightarrow> contents \<Rightarrow> head_store \<Rightarrow> signature \<Rightarrow> head_tx_meta \<Rightarrow> bool" where
  "tx_stored env B self sig meta \<longleftrightarrow>
     (\<exists>c tx r. B (meta_slot meta) = Some c \<and> tx \<in> set (ct_txs c) \<and> ti_signature tx = sig \<and>
        block_record env (meta_slot meta) c tx = Some r \<and>
        hm_get (st_tx self) sig = Some r \<and>
        meta = stored_meta env (meta_slot meta) tx (Some (ct_token c)) r)"

definition slot_ok :: "contents \<Rightarrow> head_store \<Rightarrow> slot \<Rightarrow> bool" where
  "slot_ok B self s \<longleftrightarrow>
     (case B s of
        None \<Rightarrow> hm_get (st_block_metadata self) s = None \<and> hm_get (st_block_time self) s = None
      | Some c \<Rightarrow>
          hm_get (st_block_time self) s = bm_block_time (ct_metadata c) \<and>
          (\<exists>m. hm_get (st_block_metadata self) s = Some m \<and> same_block m (ct_metadata c)))"

text \<open>The nodes of the chain proof that a walk may use, and the blocks they must stand for.\<close>

definition valid_node :: "head_coverage \<Rightarrow> slot \<Rightarrow> node \<Rightarrow> bool" where
  "valid_node cov s nd \<longleftrightarrow> bt_get (hc_nodes cov) s = Some nd \<and> \<not> nd_invalid nd \<and> nd_link nd \<noteq> None"

definition cov_ok :: "contents \<Rightarrow> head_coverage \<Rightarrow> bool" where
  "cov_ok B cov \<longleftrightarrow>
     head_ok cov \<and>
     (\<forall>s nd. valid_node cov s nd \<longrightarrow>
        (\<exists>c. B s = Some c \<and> nd_link nd = Some (metadata_link (ct_metadata c))))"

definition store_ok :: "convert_env \<Rightarrow> contents \<Rightarrow> head_store \<Rightarrow> bool" where
  "store_ok env B self \<longleftrightarrow>
     cov_ok B (st_coverage self) \<and>
     (\<forall>s. slot_ok B self s) \<and>
     (\<forall>sig meta. hm_get (st_meta self) sig = Some meta \<longrightarrow> tx_stored env B self sig meta) \<and>
     (\<forall>s sig. sig \<in> set (hm_list (st_sigs_by_slot self) s) \<longleftrightarrow>
        (\<exists>meta. hm_get (st_meta self) sig = Some meta \<and> meta_slot meta = s)) \<and>
     (\<forall>s. distinct (hm_list (st_sigs_by_slot self) s))"

definition above_truncation :: "head_store \<Rightarrow> pubkey \<Rightarrow> slot \<Rightarrow> bool" where
  "above_truncation self a s \<longleftrightarrow> (case hm_get (st_truncated self) a of None \<Rightarrow> True | Some t \<Rightarrow> t < s)"

definition index_ok :: "slot \<Rightarrow> head_store \<Rightarrow> bool" where
  "index_ok lo self \<longleftrightarrow>
     hm_ok (st_truncated self) \<and>
     (\<forall>a. sorted_wrt (\<lambda>k k'. key_order k' \<le> key_order k) (hm_list (st_sigs_by_address self) a)) \<and>
     (\<forall>a. distinct (hm_list (st_sigs_by_address self) a)) \<and>
     (\<forall>a k. k \<in> set (hm_list (st_sigs_by_address self) a) \<longrightarrow>
        a \<in> set (hm_list (st_addrs_by_slot self) (key_slot k)) \<and>
        (\<exists>meta. hm_get (st_meta self) (sk_signature k) = Some meta \<and> mt_pos meta = sk_pos k) \<and>
        (\<exists>r. hm_get (st_tx self) (sk_signature k) = Some r \<and> a \<in> set (unique_addresses r))) \<and>
     (\<forall>a sig meta r. hm_get (st_meta self) sig = Some meta \<longrightarrow> hm_get (st_tx self) sig = Some r \<longrightarrow>
        a \<in> set (unique_addresses r) \<longrightarrow> lo \<le> meta_slot meta \<longrightarrow> above_truncation self a (meta_slot meta) \<longrightarrow>
        \<lparr>sk_signature = sig, sk_pos = mt_pos meta\<rparr> \<in> set (hm_list (st_sigs_by_address self) a))"

section \<open>Views of the loops\<close>

lemma hm_list_insert: "hm_list (hm_insert k xs m) k' = (if k' = k then xs else hm_list m k')"
  by (simp add: hm_list_def hm_gets)

lemma hm_list_remove: "hm_list (hm_remove k m) k' = (if k' = k then [] else hm_list m k')"
  by (simp add: hm_list_def hm_gets)

lemma hm_list_modify:
  "f [] = [] \<Longrightarrow> hm_list (hm_modify k f m) k' = (if k' = k then f (hm_list m k) else hm_list m k')"
  by (simp add: hm_list_def hm_gets split: option.split)

lemma hm_list_entry: "hm_list (hm_entry k [] f m) k' = (if k' = k then f (hm_list m k) else hm_list m k')"
  by (simp add: hm_list_def hm_gets)

lemmas hm_lists = hm_list_insert hm_list_remove hm_list_modify hm_list_entry

lemma hm_remove_absent: "hm_get m k = None \<Longrightarrow> hm_remove k m = m"
  by (simp add: hm_get_def hm_remove_def map_of_eq_None_iff delete_id)

lemma set_remdups_adj_sort: "set (remdups_adj (sort xs)) = set xs"
  by simp

definition drop_keys :: "(head_sig_key \<Rightarrow> bool) \<Rightarrow> pubkey \<Rightarrow> (pubkey, head_sig_key list) hmap \<Rightarrow>
    (pubkey, head_sig_key list) hmap" where
  "drop_keys P a m = hm_modify a (filter (\<lambda>k. \<not> P k)) m"

lemma drop_signatures:
  obtains T M where
    "fold (drop_signature s) sigs self = self\<lparr>st_tx := T, st_meta := M\<rparr>"
    "\<And>x. hm_get M x = (case hm_get (st_meta self) x of None \<Rightarrow> None
       | Some meta \<Rightarrow> if x \<in> set sigs \<and> meta_slot meta = s then None else Some meta)"
    "\<And>x meta. hm_get M x = Some meta \<Longrightarrow> hm_get T x = hm_get (st_tx self) x"
proof (induction sigs arbitrary: self thesis)
  case Nil
  show ?case
    by (rule Nil [of "st_meta self" "st_tx self"]) (simp_all split: option.split)
next
  case (Cons sig sigs)
  show ?case
  proof (rule Cons.IH [of "drop_signature s sig self"], goal_cases)
    case (1 M T)
    show ?case
    proof (rule Cons.prems)
      show "fold (drop_signature s) (sig # sigs) self = self\<lparr>st_tx := T, st_meta := M\<rparr>"
        using 1(1) by (simp add: drop_signature_def [of s sig self] split: option.splits if_splits)
    next
      fix x
      show "hm_get M x = (case hm_get (st_meta self) x of None \<Rightarrow> None
          | Some meta \<Rightarrow> if x \<in> set (sig # sigs) \<and> meta_slot meta = s then None else Some meta)"
        using 1(2) [of x] by (auto simp: drop_signature_def hm_gets split: option.splits if_splits)
    next
      fix x meta
      assume "hm_get M x = Some meta"
      then show "hm_get T x = hm_get (st_tx self) x"
        using 1(2) [of x] 1(3) [of x meta]
        by (auto simp: drop_signature_def hm_gets split: option.splits if_splits)
    qed
  qed
qed

lemma restrict_map_UNIV [simp]: "m |` UNIV = m"
  by (simp add: restrict_map_def)

lemma drop_keys_list:
  "hm_list (drop_keys P a m) a' = (if a' = a then filter (\<lambda>k. \<not> P k) (hm_list m a) else hm_list m a')"
  by (simp add: drop_keys_def hm_lists)

lemma fold_drop_keys_list:
  "hm_list (fold (drop_keys P) as m) a = (if a \<in> set as then filter (\<lambda>k. \<not> P k) (hm_list m a) else hm_list m a)"
  by (induction as arbitrary: m) (auto simp: drop_keys_list)

lemma release_keys:
  "fold (release_key s sig) as self =
     self\<lparr>st_sigs_by_address :=
       fold (drop_keys (\<lambda>k. sk_signature k = sig \<and> key_slot k = s)) as (st_sigs_by_address self)\<rparr>"
  by (induction as arbitrary: self) (simp_all add: release_key_def drop_keys_def)

lemma drop_addresses:
  obtains K where
    "fold (drop_address s) as self = self\<lparr>st_sigs_by_address := K\<rparr>"
    "\<And>a. hm_list K a = (if a \<in> set as then filter (\<lambda>k. key_slot k \<noteq> s) (hm_list (st_sigs_by_address self) a)
        else hm_list (st_sigs_by_address self) a)"
proof (induction as arbitrary: self thesis)
  case Nil
  show ?case
    by (rule Nil [of "st_sigs_by_address self"]) simp_all
next
  case (Cons a as)
  show ?case
  proof (rule Cons.IH [of "drop_address s a self"], goal_cases)
    case (1 K)
    show ?case
    proof (rule Cons.prems)
      show "fold (drop_address s) (a # as) self = self\<lparr>st_sigs_by_address := K\<rparr>"
        using 1(1) by (simp add: drop_address_def [of s a self] Let_def split: option.splits)
    next
      fix b
      show "hm_list K b = (if b \<in> set (a # as)
          then filter (\<lambda>k. key_slot k \<noteq> s) (hm_list (st_sigs_by_address self) b)
          else hm_list (st_sigs_by_address self) b)"
        using 1(2) [of b]
        by (auto simp: drop_address_def Let_def hm_lists hm_list_def hm_gets split: option.splits if_splits)
    qed
  qed
qed

lemma remove_slot_inner_view:
  obtains cov T M A S K where
    "remove_slot_inner s self = self\<lparr>st_coverage := cov,
       st_commitment := hm_remove s (st_commitment self),
       st_block_height := hm_remove s (st_block_height self),
       st_blockhash := hm_remove s (st_blockhash self),
       st_block_time := hm_remove s (st_block_time self),
       st_block_metadata := hm_remove s (st_block_metadata self),
       st_sigs_by_slot := hm_remove s (st_sigs_by_slot self),
       st_addrs_by_slot := hm_remove s (st_addrs_by_slot self),
       st_tx := T, st_meta := M, st_sigs_by_address := K\<rparr>"
    "cov = head_coverage_retain (st_latest_slot self) (st_retain_slots self)
             (head_coverage_invalidate s (st_coverage self))"
    "\<And>x. hm_get M x = (case hm_get (st_meta self) x of None \<Rightarrow> None
       | Some meta \<Rightarrow> if x \<in> set (hm_list (st_sigs_by_slot self) s) \<and> meta_slot meta = s then None else Some meta)"
    "\<And>x meta. hm_get M x = Some meta \<Longrightarrow> hm_get T x = hm_get (st_tx self) x"
    "\<And>a. hm_list K a = (if a \<in> set (hm_list (st_addrs_by_slot self) s)
       then filter (\<lambda>k. key_slot k \<noteq> s) (hm_list (st_sigs_by_address self) a)
       else hm_list (st_sigs_by_address self) a)"
proof -
  define cov where "cov = head_coverage_retain (st_latest_slot self) (st_retain_slots self)
             (head_coverage_invalidate s (st_coverage self))"
  define self2 where "self2 = self\<lparr>st_coverage := cov,
       st_commitment := hm_remove s (st_commitment self),
       st_block_height := hm_remove s (st_block_height self),
       st_blockhash := hm_remove s (st_blockhash self),
       st_block_time := hm_remove s (st_block_time self),
       st_block_metadata := hm_remove s (st_block_metadata self)\<rparr>"
  define sigs where "sigs = hm_list (st_sigs_by_slot self) s"
  define addrs where "addrs = hm_list (st_addrs_by_slot self) s"
  obtain T M where TM:
    "fold (drop_signature s) sigs (self2\<lparr>st_sigs_by_slot := hm_remove s (st_sigs_by_slot self)\<rparr>) =
       self2\<lparr>st_sigs_by_slot := hm_remove s (st_sigs_by_slot self), st_tx := T, st_meta := M\<rparr>"
    "\<And>x. hm_get M x = (case hm_get (st_meta self) x of None \<Rightarrow> None
       | Some meta \<Rightarrow> if x \<in> set sigs \<and> meta_slot meta = s then None else Some meta)"
    "\<And>x meta. hm_get M x = Some meta \<Longrightarrow> hm_get T x = hm_get (st_tx self) x"
    by (rule drop_signatures [of s sigs "self2\<lparr>st_sigs_by_slot := hm_remove s (st_sigs_by_slot self)\<rparr>"])
      (simp add: self2_def)
  define self3 where "self3 =
    self2\<lparr>st_sigs_by_slot := hm_remove s (st_sigs_by_slot self), st_tx := T, st_meta := M\<rparr>"
  obtain K where K:
    "fold (drop_address s) (remdups_adj (sort addrs))
        (self3\<lparr>st_addrs_by_slot := hm_remove s (st_addrs_by_slot self)\<rparr>) =
       self3\<lparr>st_addrs_by_slot := hm_remove s (st_addrs_by_slot self), st_sigs_by_address := K\<rparr>"
    "\<And>a. hm_list K a = (if a \<in> set addrs then filter (\<lambda>k. key_slot k \<noteq> s) (hm_list (st_sigs_by_address self) a)
        else hm_list (st_sigs_by_address self) a)"
    by (rule drop_addresses [of s "remdups_adj (sort addrs)"
          "self3\<lparr>st_addrs_by_slot := hm_remove s (st_addrs_by_slot self)\<rparr>"])
      (simp add: self3_def self2_def)
  have sigs_step: "(case hm_get (st_sigs_by_slot self2) s of None \<Rightarrow> self2
      | Some l \<Rightarrow> fold (drop_signature s) l (self2\<lparr>st_sigs_by_slot := hm_remove s (st_sigs_by_slot self2)\<rparr>)) =
    fold (drop_signature s) sigs (self2\<lparr>st_sigs_by_slot := hm_remove s (st_sigs_by_slot self)\<rparr>)"
    by (simp add: sigs_def self2_def hm_list_def hm_remove_absent split: option.split)
  have addrs_step: "(case hm_get (st_addrs_by_slot self3) s of None \<Rightarrow> self3
      | Some l \<Rightarrow> fold (drop_address s) (remdups_adj (sort l))
          (self3\<lparr>st_addrs_by_slot := hm_remove s (st_addrs_by_slot self3)\<rparr>)) =
    fold (drop_address s) (remdups_adj (sort addrs)) (self3\<lparr>st_addrs_by_slot := hm_remove s (st_addrs_by_slot self)\<rparr>)"
    by (simp add: addrs_def self3_def self2_def hm_list_def hm_remove_absent split: option.split)
  have "remove_slot_inner s self =
     (let x = (case hm_get (st_sigs_by_slot self2) s of None \<Rightarrow> self2
        | Some l \<Rightarrow> fold (drop_signature s) l (self2\<lparr>st_sigs_by_slot := hm_remove s (st_sigs_by_slot self2)\<rparr>))
      in case hm_get (st_addrs_by_slot x) s of None \<Rightarrow> x
        | Some l \<Rightarrow> fold (drop_address s) (remdups_adj (sort l))
            (x\<lparr>st_addrs_by_slot := hm_remove s (st_addrs_by_slot x)\<rparr>))"
    by (simp add: remove_slot_inner_def Let_def on_coverage_def self2_def cov_def cong: option.case_cong)
  also have "\<dots> = self3\<lparr>st_addrs_by_slot := hm_remove s (st_addrs_by_slot self), st_sigs_by_address := K\<rparr>"
    unfolding sigs_step TM(1) self3_def [symmetric] Let_def addrs_step K(1) ..
  finally have "remove_slot_inner s self =
      self3\<lparr>st_addrs_by_slot := hm_remove s (st_addrs_by_slot self), st_sigs_by_address := K\<rparr>" .
  then show thesis
    using that [OF _ cov_def TM(2) [unfolded sigs_def] TM(3) K(2) [unfolded addrs_def]]
    by (simp add: self3_def self2_def)
qed

section \<open>Rules for the two invariants\<close>

lemma store_okI:
  assumes "\<And>s. slot_ok B self s"
    and "\<And>sig meta. hm_get (st_meta self) sig = Some meta \<Longrightarrow> tx_stored env B self sig meta"
    and "\<And>s sig. sig \<in> set (hm_list (st_sigs_by_slot self) s) \<longleftrightarrow>
        (\<exists>meta. hm_get (st_meta self) sig = Some meta \<and> meta_slot meta = s)"
    and "\<And>s. distinct (hm_list (st_sigs_by_slot self) s)"
    and "cov_ok B (st_coverage self)"
  shows "store_ok env B self"
  using assms unfolding store_ok_def by blast

lemma store_okD:
  assumes "store_ok env B self"
  shows store_covD: "cov_ok B (st_coverage self)"
    and store_slotD: "slot_ok B self s"
    and store_txD: "hm_get (st_meta self) sig = Some meta \<Longrightarrow> tx_stored env B self sig meta"
    and store_sigsD: "sig \<in> set (hm_list (st_sigs_by_slot self) s) \<longleftrightarrow>
        (\<exists>meta. hm_get (st_meta self) sig = Some meta \<and> meta_slot meta = s)"
    and store_distinctD: "distinct (hm_list (st_sigs_by_slot self) s)"
  using assms unfolding store_ok_def by blast+

lemma index_okI:
  assumes "hm_ok (st_truncated self)"
    and "\<And>a. sorted_wrt (\<lambda>k k'. key_order k' \<le> key_order k) (hm_list (st_sigs_by_address self) a)"
    and "\<And>a. distinct (hm_list (st_sigs_by_address self) a)"
    and "\<And>a k. k \<in> set (hm_list (st_sigs_by_address self) a) \<Longrightarrow>
        a \<in> set (hm_list (st_addrs_by_slot self) (key_slot k)) \<and>
        (\<exists>meta. hm_get (st_meta self) (sk_signature k) = Some meta \<and> mt_pos meta = sk_pos k) \<and>
        (\<exists>r. hm_get (st_tx self) (sk_signature k) = Some r \<and> a \<in> set (unique_addresses r))"
    and "\<And>a sig meta r. hm_get (st_meta self) sig = Some meta \<Longrightarrow> hm_get (st_tx self) sig = Some r \<Longrightarrow>
        a \<in> set (unique_addresses r) \<Longrightarrow> lo \<le> meta_slot meta \<Longrightarrow> above_truncation self a (meta_slot meta) \<Longrightarrow>
        \<lparr>sk_signature = sig, sk_pos = mt_pos meta\<rparr> \<in> set (hm_list (st_sigs_by_address self) a)"
  shows "index_ok lo self"
  using assms unfolding index_ok_def by blast

lemma index_okD:
  assumes "index_ok lo self"
  shows index_hm_okD: "hm_ok (st_truncated self)"
    and index_sortedD: "sorted_wrt (\<lambda>k k'. key_order k' \<le> key_order k) (hm_list (st_sigs_by_address self) a)"
    and index_distinctD: "distinct (hm_list (st_sigs_by_address self) a)"
    and index_addrD: "k \<in> set (hm_list (st_sigs_by_address self) a) \<Longrightarrow>
        a \<in> set (hm_list (st_addrs_by_slot self) (key_slot k))"
    and index_metaD: "k \<in> set (hm_list (st_sigs_by_address self) a) \<Longrightarrow>
        (\<exists>meta. hm_get (st_meta self) (sk_signature k) = Some meta \<and> mt_pos meta = sk_pos k)"
    and index_recordD: "k \<in> set (hm_list (st_sigs_by_address self) a) \<Longrightarrow>
        (\<exists>r. hm_get (st_tx self) (sk_signature k) = Some r \<and> a \<in> set (unique_addresses r))"
    and index_completeD: "hm_get (st_meta self) sig = Some meta \<Longrightarrow> hm_get (st_tx self) sig = Some r \<Longrightarrow>
        a \<in> set (unique_addresses r) \<Longrightarrow> lo \<le> meta_slot meta \<Longrightarrow> above_truncation self a (meta_slot meta) \<Longrightarrow>
        \<lparr>sk_signature = sig, sk_pos = mt_pos meta\<rparr> \<in> set (hm_list (st_sigs_by_address self) a)"
  using assms unfolding index_ok_def by blast+

lemma index_ok_mono: "index_ok lo self \<Longrightarrow> lo \<le> lo' \<Longrightarrow> index_ok lo' self"
  by (rule index_okI) (blast dest: index_okD intro: order_trans)+

lemma tx_stored_cong:
  assumes "tx_stored env B self sig meta"
    and "B' (meta_slot meta) = B (meta_slot meta)"
    and "hm_get (st_tx self') sig = hm_get (st_tx self) sig"
  shows "tx_stored env B' self' sig meta"
  using assms unfolding tx_stored_def by simp

lemma slot_ok_cong:
  assumes "slot_ok B self s"
    and "B' s = B s"
    and "hm_get (st_block_metadata self') s = hm_get (st_block_metadata self) s"
    and "hm_get (st_block_time self') s = hm_get (st_block_time self) s"
  shows "slot_ok B' self' s"
  using assms unfolding slot_ok_def by (cases "B s") simp_all

lemma store_ok_same:
  assumes "st_coverage self' = st_coverage self" "st_block_metadata self' = st_block_metadata self" "st_block_time self' = st_block_time self"
    "st_meta self' = st_meta self" "st_tx self' = st_tx self" "st_sigs_by_slot self' = st_sigs_by_slot self"
  shows "store_ok env B self' \<longleftrightarrow> store_ok env B self"
  unfolding store_ok_def slot_ok_def tx_stored_def assms ..

lemma index_ok_same:
  assumes "st_truncated self' = st_truncated self" "st_sigs_by_address self' = st_sigs_by_address self"
    "st_addrs_by_slot self' = st_addrs_by_slot self" "st_meta self' = st_meta self" "st_tx self' = st_tx self"
  shows "index_ok lo self' \<longleftrightarrow> index_ok lo self"
  unfolding index_ok_def above_truncation_def assms ..

lemma store_ok_updates [simp]:
  "store_ok env B (self\<lparr>st_truncated := tr\<rparr>) \<longleftrightarrow> store_ok env B self"
  "store_ok env B (self\<lparr>st_latest_slot := n\<rparr>) \<longleftrightarrow> store_ok env B self"
  "store_ok env B (self\<lparr>st_commitment := cm\<rparr>) \<longleftrightarrow> store_ok env B self"
  "store_ok env B (self\<lparr>st_tokens := ts\<rparr>) \<longleftrightarrow> store_ok env B self"
  "store_ok env B (self\<lparr>st_next_token := t\<rparr>) \<longleftrightarrow> store_ok env B self"
  "store_ok env B (self\<lparr>st_sigs_by_address := ks\<rparr>) \<longleftrightarrow> store_ok env B self"
  "store_ok env B (self\<lparr>st_addrs_by_slot := as\<rparr>) \<longleftrightarrow> store_ok env B self"
  by (rule store_ok_same; simp)+

lemma index_ok_updates [simp]:
  "index_ok lo (self\<lparr>st_coverage := cov\<rparr>) \<longleftrightarrow> index_ok lo self"
  "index_ok lo (self\<lparr>st_latest_slot := n\<rparr>) \<longleftrightarrow> index_ok lo self"
  "index_ok lo (self\<lparr>st_commitment := cm\<rparr>) \<longleftrightarrow> index_ok lo self"
  "index_ok lo (self\<lparr>st_tokens := ts\<rparr>) \<longleftrightarrow> index_ok lo self"
  "index_ok lo (self\<lparr>st_next_token := t\<rparr>) \<longleftrightarrow> index_ok lo self"
  "index_ok lo (self\<lparr>st_block_metadata := ms\<rparr>) \<longleftrightarrow> index_ok lo self"
  "index_ok lo (self\<lparr>st_block_time := ts'\<rparr>) \<longleftrightarrow> index_ok lo self"
  "index_ok lo (self\<lparr>st_blockhash := hs\<rparr>) \<longleftrightarrow> index_ok lo self"
  "index_ok lo (self\<lparr>st_block_height := bh\<rparr>) \<longleftrightarrow> index_ok lo self"
  by (rule index_ok_same; simp)+

section \<open>Valid nodes of the chain proof\<close>

text \<open>Operations other than selecting and publishing a bank only take validity away.\<close>

definition shrinks :: "head_coverage \<Rightarrow> head_coverage \<Rightarrow> bool" where
  "shrinks cov cov' \<longleftrightarrow> head_ok cov' \<and> (\<forall>s nd. valid_node cov' s nd \<longrightarrow> valid_node cov s nd)"

lemma shrinks_refl: "head_ok cov \<Longrightarrow> shrinks cov cov"
  by (simp add: shrinks_def)

lemma shrinks_trans: "shrinks a b \<Longrightarrow> shrinks b c \<Longrightarrow> shrinks a c"
  by (simp add: shrinks_def)

lemma cov_ok_shrinks:
  assumes "cov_ok B cov" "shrinks cov cov'" "\<And>s nd. valid_node cov' s nd \<Longrightarrow> B' s = B s"
  shows "cov_ok B' cov'"
  using assms unfolding cov_ok_def shrinks_def by metis

lemma head_ok_bt: "head_ok cov \<Longrightarrow> bt_ok (hc_nodes cov)"
  by (simp add: head_ok_def nodes_ok_def)

lemmas head_ok_ops = head_ok_apply [of _ "Invalidate s" for s, simplified]
  head_ok_apply [of _ "Invalidate_branch s" for s, simplified]
  head_ok_apply [of _ "Validate_parent s p" for s p, simplified]
  head_ok_apply [of _ "Observe s c now" for s c now, simplified]
  head_ok_apply [of _ "Publish s c" for s c, simplified]
  head_ok_apply [of _ "Retain s n" for s n, simplified]
  head_ok_apply [of _ "Select_bank l" for l, simplified]

lemma invalidate_loop_nodes:
  "map_of (invalidate_loop m ivd) x = Some nd' \<Longrightarrow>
   \<exists>nd. map_of m x = Some nd \<and> (nd' = nd \<or> nd_invalid nd')"
proof (induction m ivd rule: invalidate_loop.induct)
  case (2 s nd rest ivd)
  then show ?case
    by (auto split: option.splits if_splits)
qed simp

lemma shrinks_invalidate:
  assumes "head_ok cov"
  shows "shrinks cov (head_coverage_invalidate s cov)"
    and "\<not> valid_node (head_coverage_invalidate s cov) s nd"
  using assms head_ok_ops(1) [OF assms, of s]
  by (auto simp: shrinks_def valid_node_def invalidate_get head_ok_bt)

lemma shrinks_invalidate_branch:
  assumes ok: "head_ok cov"
  shows "shrinks cov (head_coverage_invalidate_branch s cov)"
    and "\<not> valid_node (head_coverage_invalidate_branch s cov) s nd"
proof -
  let ?m = "hc_nodes (head_coverage_invalidate s cov)"
  have "\<exists>nd. bt_get ?m x = Some nd \<and> (nd' = nd \<or> nd_invalid nd')"
    if "bt_get (hc_nodes (head_coverage_invalidate_branch s cov)) x = Some nd'" for x nd'
    using that
    by (auto simp: head_coverage_invalidate_branch_def Let_def bt_get_def map_add_def bt_below_def bt_from_def
        map_of_filter_key [of "\<lambda>x. x < s"] map_of_filter_key [of "\<lambda>x. s \<le> x"]
        split: option.splits if_splits dest!: invalidate_loop_nodes)
  then have sub: "valid_node (head_coverage_invalidate_branch s cov) x nd \<Longrightarrow>
      valid_node (head_coverage_invalidate s cov) x nd" for x nd
    unfolding valid_node_def by blast
  then show "\<not> valid_node (head_coverage_invalidate_branch s cov) s nd"
    using shrinks_invalidate(2) [OF ok] by blast
  show "shrinks cov (head_coverage_invalidate_branch s cov)"
    using sub shrinks_invalidate(1) [OF ok, of s] head_ok_ops(2) [OF ok] unfolding shrinks_def by blast
qed

lemma shrinks_ops:
  assumes "head_ok cov"
  shows "shrinks cov (head_coverage_retain s n cov)"
    and "shrinks cov (head_coverage_observe s c now cov)"
    and "shrinks cov (head_coverage_validate_parent s p cov)"
  using head_ok_ops [OF assms] shrinks_refl [OF assms] shrinks_invalidate_branch(1) [OF assms]
  by (auto simp: shrinks_def valid_node_def head_coverage_retain_def Let_def head_coverage_observe_def
      bt_get_def bt_from_def map_of_filter_key [of "\<lambda>x. k \<le> x" for k] head_coverage_validate_parent_def
      split: option.splits if_splits)

lemma valid_publish:
  assumes "head_ok cov" "valid_node (head_coverage_publish s c cov) x nd'"
  shows "\<exists>nd. valid_node cov x nd \<and> nd_link nd' = nd_link nd \<and>
    (nd_commitment nd' = nd_commitment nd \<or> x = s \<and> nd_commitment nd' = Some c)"
  using assms
  by (auto simp: valid_node_def head_coverage_publish_def Let_def bt.get_put head_ok_bt node_or_default_def
      node_default_def split: if_splits option.splits)

lemma valid_select:
  assumes ok: "head_ok cov" and v: "valid_node (head_coverage_select_bank l cov) x nd"
  shows "x = lk_slot l \<and> nd = node_default\<lparr>nd_link := Some l\<rparr> \<or> x \<noteq> lk_slot l \<and> valid_node cov x nd"
proof -
  obtain cov' where cov': "head_coverage_select_bank l cov =
      cov'\<lparr>hc_nodes := bt_insert (lk_slot l) (node_default\<lparr>nd_link := Some l\<rparr>) (hc_nodes cov')\<rparr>" "shrinks cov cov'"
    using shrinks_refl [OF ok] shrinks_invalidate_branch(1) [OF ok, of "lk_slot l"]
    unfolding head_coverage_select_bank_def Let_def
    by (cases "stored_link (hc_nodes cov) (lk_slot l)") (auto split: if_splits)
  then have "bt_ok (hc_nodes cov')"
    by (simp add: shrinks_def head_ok_bt)
  then show ?thesis
    using v cov' by (auto simp: valid_node_def shrinks_def bt.get_put split: if_splits)
qed

section \<open>Removing slots\<close>

lemma remove_slot_inner_frame [simp]:
  "st_latest_slot (remove_slot_inner s self) = st_latest_slot self"
  "st_retain_slots (remove_slot_inner s self) = st_retain_slots self"
  "st_max_per_address (remove_slot_inner s self) = st_max_per_address self"
  "st_truncated (remove_slot_inner s self) = st_truncated self"
  "st_tokens (remove_slot_inner s self) = st_tokens self"
  "st_next_token (remove_slot_inner s self) = st_next_token self"
  "st_commitment (remove_slot_inner s self) = hm_remove s (st_commitment self)"
  "st_coverage (remove_slot_inner s self) =
     head_coverage_retain (st_latest_slot self) (st_retain_slots self)
       (head_coverage_invalidate s (st_coverage self))"
  by (rule remove_slot_inner_view [of s self]; simp)+

lemma remove_slot_inner_store:
  assumes ok: "store_ok env B self"
  shows "store_ok env (B(s := None)) (remove_slot_inner s self)"
proof (rule remove_slot_inner_view [of s self])
  fix cov T M A S K
  assume eq: "remove_slot_inner s self = self\<lparr>st_coverage := cov,
       st_commitment := hm_remove s (st_commitment self),
       st_block_height := hm_remove s (st_block_height self),
       st_blockhash := hm_remove s (st_blockhash self),
       st_block_time := hm_remove s (st_block_time self),
       st_block_metadata := hm_remove s (st_block_metadata self),
       st_sigs_by_slot := hm_remove s (st_sigs_by_slot self),
       st_addrs_by_slot := hm_remove s (st_addrs_by_slot self),
       st_tx := T, st_meta := M, st_sigs_by_address := K\<rparr>"
    and cov: "cov = head_coverage_retain (st_latest_slot self) (st_retain_slots self)
       (head_coverage_invalidate s (st_coverage self))"
    and M: "\<And>x. hm_get M x = (case hm_get (st_meta self) x of None \<Rightarrow> None
       | Some meta \<Rightarrow> if x \<in> set (hm_list (st_sigs_by_slot self) s) \<and> meta_slot meta = s then None else Some meta)"
    and T: "\<And>x meta. hm_get M x = Some meta \<Longrightarrow> hm_get T x = hm_get (st_tx self) x"
  have M': "hm_get M x = Some meta \<longleftrightarrow> hm_get (st_meta self) x = Some meta \<and> meta_slot meta \<noteq> s" for x meta
    using store_sigsD [OF ok, of x s] by (auto simp: M split: option.splits)
  show ?thesis
    unfolding eq
  proof (rule store_okI, goal_cases)
    case (1 s')
    show ?case
    proof (cases "s' = s")
      case False
      then show ?thesis
        by (intro slot_ok_cong [OF store_slotD [OF ok]]) (simp_all add: hm_gets)
    qed (simp add: slot_ok_def hm_gets)
  next
    case (2 sig meta)
    then have "hm_get (st_meta self) sig = Some meta" "meta_slot meta \<noteq> s" "hm_get T sig = hm_get (st_tx self) sig"
      using T [of sig meta] by (simp_all add: M')
    then show ?case
      by (intro tx_stored_cong [OF store_txD [OF ok]]) simp_all
  next
    case (3 s' sig)
    then show ?case
      using store_sigsD [OF ok, of sig s'] by (auto simp: hm_lists M')
  next
    case (4 s')
    then show ?case
      using store_distinctD [OF ok, of s'] by (simp add: hm_lists)
  next
    case 5
    have hd: "head_ok (st_coverage self)"
      using store_covD [OF ok] by (simp add: cov_ok_def)
    note inval = shrinks_invalidate [OF hd, of s]
    have "shrinks (head_coverage_invalidate s (st_coverage self)) cov"
      unfolding cov by (rule shrinks_ops) (use inval(1) in \<open>simp add: shrinks_def\<close>)
    moreover from this have "\<not> valid_node cov s nd" for nd
      using inval(2) by (auto simp: shrinks_def)
    ultimately show ?case
      using inval(1) by (auto simp: shrinks_def intro!: cov_ok_shrinks [OF store_covD [OF ok]])
  qed
qed

lemma remove_slot_inner_index:
  assumes ok: "store_ok env B self" and ix: "index_ok lo self"
  shows "index_ok lo (remove_slot_inner s self)"
proof (rule remove_slot_inner_view [of s self])
  fix cov T M A S K
  assume eq: "remove_slot_inner s self = self\<lparr>st_coverage := cov,
       st_commitment := hm_remove s (st_commitment self),
       st_block_height := hm_remove s (st_block_height self),
       st_blockhash := hm_remove s (st_blockhash self),
       st_block_time := hm_remove s (st_block_time self),
       st_block_metadata := hm_remove s (st_block_metadata self),
       st_sigs_by_slot := hm_remove s (st_sigs_by_slot self),
       st_addrs_by_slot := hm_remove s (st_addrs_by_slot self),
       st_tx := T, st_meta := M, st_sigs_by_address := K\<rparr>"
    and M: "\<And>x. hm_get M x = (case hm_get (st_meta self) x of None \<Rightarrow> None
       | Some meta \<Rightarrow> if x \<in> set (hm_list (st_sigs_by_slot self) s) \<and> meta_slot meta = s then None else Some meta)"
    and T: "\<And>x meta. hm_get M x = Some meta \<Longrightarrow> hm_get T x = hm_get (st_tx self) x"
    and K: "\<And>a. hm_list K a = (if a \<in> set (hm_list (st_addrs_by_slot self) s)
       then filter (\<lambda>k. key_slot k \<noteq> s) (hm_list (st_sigs_by_address self) a)
       else hm_list (st_sigs_by_address self) a)"
  have M': "hm_get M x = Some meta \<longleftrightarrow> hm_get (st_meta self) x = Some meta \<and> meta_slot meta \<noteq> s" for x meta
    using store_sigsD [OF ok, of x s] by (auto simp: M split: option.splits)
  have K': "k \<in> set (hm_list K a) \<longleftrightarrow> k \<in> set (hm_list (st_sigs_by_address self) a) \<and> key_slot k \<noteq> s" for k a
    using index_addrD [OF ix, of k a] by (auto simp: K)
  show ?thesis
    unfolding eq
  proof (rule index_okI, goal_cases)
    case 1
    then show ?case
      using index_hm_okD [OF ix] by simp
  next
    case (2 a)
    then show ?case
      using index_sortedD [OF ix, of a] by (simp add: K sorted_wrt_filter)
  next
    case (3 a)
    then show ?case
      using index_distinctD [OF ix, of a] by (simp add: K)
  next
    case (4 a k)
    then have k: "k \<in> set (hm_list (st_sigs_by_address self) a)" "key_slot k \<noteq> s"
      by (simp_all add: K')
    obtain meta where "hm_get (st_meta self) (sk_signature k) = Some meta" "mt_pos meta = sk_pos k"
      using index_metaD [OF ix k(1)] by blast
    with k show ?case
      using index_addrD [OF ix k(1)] index_recordD [OF ix k(1)] T [of "sk_signature k" meta] by (auto simp: hm_lists M')
  next
    case (5 a sig meta r)
    then have "hm_get (st_meta self) sig = Some meta" "meta_slot meta \<noteq> s" "hm_get (st_tx self) sig = Some r"
      using T [of sig meta] by (simp_all add: M')
    with 5 show ?case
      using index_completeD [OF ix, of sig meta r a] by (simp add: K' above_truncation_def)
  qed
qed

lemma remove_slots_store:
  "store_ok env B self \<Longrightarrow> store_ok env (B |` (- set ss)) (fold remove_slot_inner ss self)"
proof (induction ss arbitrary: B self)
  case (Cons s ss)
  have "store_ok env (B(s := None) |` (- set ss)) (fold remove_slot_inner ss (remove_slot_inner s self))"
    by (rule Cons.IH) (rule remove_slot_inner_store [OF Cons.prems])
  moreover have "B(s := None) |` (- set ss) = B |` (- set (s # ss))"
    by (auto simp: fun_eq_iff restrict_map_def)
  ultimately show ?case
    by simp
qed (simp add: restrict_map_def)

lemma remove_slots_index:
  "store_ok env B self \<Longrightarrow> index_ok lo self \<Longrightarrow> index_ok lo (fold remove_slot_inner ss self)"
proof (induction ss arbitrary: B self)
  case (Cons s ss)
  then show ?case
    using Cons.IH [OF remove_slot_inner_store remove_slot_inner_index, OF Cons.prems(1) Cons.prems] by simp
qed simp

lemma remove_slots_frame [simp]:
  "st_latest_slot (fold remove_slot_inner ss self) = st_latest_slot self"
  "st_retain_slots (fold remove_slot_inner ss self) = st_retain_slots self"
  "st_max_per_address (fold remove_slot_inner ss self) = st_max_per_address self"
  "st_truncated (fold remove_slot_inner ss self) = st_truncated self"
  "st_tokens (fold remove_slot_inner ss self) = st_tokens self"
  "st_next_token (fold remove_slot_inner ss self) = st_next_token self"
  by (induction ss arbitrary: self) simp_all

lemma remove_slots_commitment:
  "hm_get (st_commitment (fold remove_slot_inner ss self)) = hm_get (st_commitment self) |` (- set ss)"
proof (induction ss arbitrary: self)
  case (Cons s ss)
  then show ?case
    by (auto simp: hm_gets restrict_map_def fun_eq_iff)
qed (simp add: restrict_map_def)

text \<open>Eviction forgets exactly the published slots below the retention floor.\<close>

definition old_slots :: "head_store \<Rightarrow> slot set" where
  "old_slots self = {s \<in> dom (hm_get (st_commitment self)). s < min_retained_slot self}"

lemma set_old_slots:
  "set (filter (\<lambda>s. s < min_retained_slot self) (map fst (st_commitment self))) = old_slots self"
  by (auto simp: old_slots_def dom_hm_get)

lemma evict_frame [simp]:
  "st_latest_slot (evict_old_slots self) = st_latest_slot self"
  "st_retain_slots (evict_old_slots self) = st_retain_slots self"
  "st_max_per_address (evict_old_slots self) = st_max_per_address self"
  "st_tokens (evict_old_slots self) = st_tokens self"
  "st_next_token (evict_old_slots self) = st_next_token self"
  by (simp_all add: evict_old_slots_def Let_def)

lemma evict_store:
  assumes "store_ok env B self"
  shows "store_ok env (B |` (- old_slots self)) (evict_old_slots self)"
proof (cases "old_slots self = {}")
  case True
  then have "filter (\<lambda>s. s < min_retained_slot self) (map fst (st_commitment self)) = []"
    using set_old_slots [of self] by simp
  then show ?thesis
    using assms True by (simp add: evict_old_slots_def)
next
  case False
  then show ?thesis
    using remove_slots_store [OF assms, of "filter (\<lambda>s. s < min_retained_slot self) (map fst (st_commitment self))"]
    unfolding set_old_slots by (auto simp: evict_old_slots_def Let_def split: if_splits)
qed

lemma evict_commitment:
  "hm_get (st_commitment (evict_old_slots self)) = hm_get (st_commitment self) |` (- old_slots self)"
proof (cases "filter (\<lambda>s. s < min_retained_slot self) (map fst (st_commitment self)) = []")
  case True
  then have "old_slots self = {}"
    using set_old_slots [of self] by simp
  with True show ?thesis
    by (simp add: evict_old_slots_def)
next
  case False
  then show ?thesis
    using remove_slots_commitment [of "filter (\<lambda>s. s < min_retained_slot self) (map fst (st_commitment self))" self]
    unfolding set_old_slots by (simp add: evict_old_slots_def Let_def)
qed

lemma evict_index:
  assumes ok: "store_ok env B self" and ix: "index_ok lo self" and lo: "min_retained_slot self \<le> lo"
  shows "index_ok lo (evict_old_slots self)"
proof -
  define old where "old = filter (\<lambda>s. s < min_retained_slot self) (map fst (st_commitment self))"
  define self' where "self' = fold remove_slot_inner old self"
  define Tr where "Tr = hm_retain (\<lambda>_ s. min_retained_slot self \<le> s) (st_truncated self')"
  have ix': "index_ok lo self'"
    unfolding self'_def by (rule remove_slots_index [OF ok ix])
  have "above_truncation (self'\<lparr>st_truncated := Tr\<rparr>) a s \<Longrightarrow> lo \<le> s \<Longrightarrow> above_truncation self' a s" for a s
    using lo index_hm_okD [OF ix']
    by (auto simp: above_truncation_def Tr_def hm.get_retain split: option.splits if_splits)
  then have "index_ok lo (self'\<lparr>st_truncated := Tr\<rparr>)"
    using ix' unfolding index_ok_def by (simp add: Tr_def hm.ok_retain)
  then show ?thesis
    using ix by (simp add: evict_old_slots_def Let_def self'_def Tr_def old_def)
qed

section \<open>Publishing metadata and commitments\<close>

lemma note_slot_commitment_frame [simp]:
  "st_retain_slots (note_slot_commitment s c self) = st_retain_slots self"
  "st_max_per_address (note_slot_commitment s c self) = st_max_per_address self"
  "st_tokens (note_slot_commitment s c self) = st_tokens self"
  "st_next_token (note_slot_commitment s c self) = st_next_token self"
  "st_latest_slot (note_slot_commitment s c self) = max (st_latest_slot self) s"
  by (simp_all add: note_slot_commitment_def Let_def)

definition merged_commitment :: "head_store \<Rightarrow> slot \<Rightarrow> commitment_level \<Rightarrow> commitment_level" where
  "merged_commitment self s c =
     (case hm_get (st_commitment self) s of
        None \<Rightarrow> c
      | Some existing \<Rightarrow> if commitment_meets c existing then c else existing)"

lemma note_slot_commitment_keeps:
  assumes ok: "store_ok env B self" and ix: "index_ok (min_retained_slot self) self"
  obtains S where
    "store_ok env (B |` (- S)) (note_slot_commitment s c self)"
    "index_ok (min_retained_slot (note_slot_commitment s c self)) (note_slot_commitment s c self)"
    "hm_get (st_commitment (note_slot_commitment s c self)) =
       ((hm_get (st_commitment self))(s \<mapsto> merged_commitment self s c)) |` (- S)"
    "s \<notin> S" "\<And>x. x \<in> S \<Longrightarrow> x < min_retained_slot (note_slot_commitment s c self)"
proof -
  define self' where "self' = self\<lparr>st_latest_slot := max (st_latest_slot self) s,
     st_commitment := hm_insert s (merged_commitment self s c) (st_commitment self)\<rparr>"
  have ok': "store_ok env B self'" and ix0: "index_ok (min_retained_slot self) self'"
    using ok ix by (simp_all add: self'_def)
  have ix': "index_ok (min_retained_slot self') self'"
    by (rule index_ok_mono [OF ix0]) (simp add: min_retained_slot_def self'_def sat_sub_def)
  have eq: "note_slot_commitment s c self = (if st_latest_slot self < s then evict_old_slots self' else self')"
    by (simp add: note_slot_commitment_def self'_def merged_commitment_def)
  show thesis
  proof (cases "st_latest_slot self < s")
    case True
    have floor: "min_retained_slot (evict_old_slots self') = min_retained_slot self'"
      by (simp add: min_retained_slot_def)
    show thesis
    proof (rule that [of "old_slots self'"])
      show "s \<notin> old_slots self'"
        using True by (simp add: old_slots_def min_retained_slot_def self'_def sat_sub_def not_less)
      show "hm_get (st_commitment (note_slot_commitment s c self)) =
          ((hm_get (st_commitment self))(s \<mapsto> merged_commitment self s c)) |` (- old_slots self')"
        using True by (simp add: eq evict_commitment) (simp add: self'_def hm_gets)
      show "x < min_retained_slot (note_slot_commitment s c self)" if "x \<in> old_slots self'" for x
        using that True by (simp add: eq floor) (simp add: old_slots_def)
    qed (use True ok' ix' in \<open>simp_all add: eq evict_store evict_index floor\<close>)
  next
    case False
    then show thesis
      using ok' ix' by (intro that [of "{}"]) (simp_all add: eq, simp add: self'_def hm_gets)
  qed
qed

lemma backfill_none:
  "hm_list (st_sigs_by_slot self) s = [] \<Longrightarrow> backfill_slot_block_time s t self = self"
  by (auto simp: backfill_slot_block_time_def hm_list_def split: option.splits)

lemma note_block_metadata_view:
  assumes "hm_list (st_sigs_by_slot self) (bm_slot m) = []"
  shows "note_block_metadata m self = self\<lparr>
       st_block_height := (case bm_block_height m of None \<Rightarrow> st_block_height self
          | Some h \<Rightarrow> hm_insert (bm_slot m) h (st_block_height self)),
       st_blockhash := hm_insert (bm_slot m) (bm_blockhash m) (st_blockhash self),
       st_block_time := (case bm_block_time m of None \<Rightarrow> st_block_time self
          | Some t \<Rightarrow> hm_insert (bm_slot m) t (st_block_time self)),
       st_block_metadata := hm_insert (bm_slot m) m (st_block_metadata self)\<rparr>"
  using assms
  by (cases "bm_block_height m"; cases "bm_block_time m")
    (simp_all add: note_block_metadata_def Let_def backfill_none)

lemma store_empty_slot:
  assumes "store_ok env B self" "B s = None"
  shows "hm_list (st_sigs_by_slot self) s = []"
proof -
  have "sig \<notin> set (hm_list (st_sigs_by_slot self) s)" for sig
    using assms(2) store_sigsD [OF assms(1), of sig s] store_txD [OF assms(1), of sig]
    by (auto simp: tx_stored_def)
  then show ?thesis
    by (metis last_in_set)
qed

lemma note_block_metadata_store:
  assumes ok: "store_ok env B self" and free: "B (bm_slot m) = None" and m: "ct_metadata c = m"
  shows "store_ok env (B(bm_slot m \<mapsto> c)) (note_block_metadata m self)"
proof -
  have empty: "hm_get (st_block_time self) (bm_slot m) = None"
    using store_slotD [OF ok, of "bm_slot m"] free by (simp add: slot_ok_def)
  show ?thesis
    unfolding note_block_metadata_view [OF store_empty_slot [OF ok free]]
  proof (rule store_okI, goal_cases)
    case (1 s)
    show ?case
    proof (cases "s = bm_slot m")
      case True
      with empty m show ?thesis
        by (simp add: slot_ok_def hm_gets same_block_def split: option.split)
    next
      case False
      then show ?thesis
        by (intro slot_ok_cong [OF store_slotD [OF ok]]) (simp_all add: hm_gets split: option.split)
    qed
  next
    case (2 sig meta)
    then have stored: "tx_stored env B self sig meta"
      using store_txD [OF ok] by simp
    then have "meta_slot meta \<noteq> bm_slot m"
      using free by (auto simp: tx_stored_def)
    then show ?case
      by (intro tx_stored_cong [OF stored]) simp_all
  next
    case (3 s sig)
    then show ?case
      using store_sigsD [OF ok] by simp
  next
    case (4 s)
    then show ?case
      using store_distinctD [OF ok] by simp
  next
    case 5
    then show ?case
      using store_covD [OF ok] free by (fastforce simp: cov_ok_def)
  qed
qed

lemma note_block_metadata_frame:
  assumes "store_ok env B self" "B (bm_slot m) = None"
  shows "index_ok lo (note_block_metadata m self) = index_ok lo self"
    and "st_latest_slot (note_block_metadata m self) = st_latest_slot self"
    and "st_retain_slots (note_block_metadata m self) = st_retain_slots self"
    and "st_max_per_address (note_block_metadata m self) = st_max_per_address self"
    and "st_tokens (note_block_metadata m self) = st_tokens self"
    and "st_next_token (note_block_metadata m self) = st_next_token self"
    and "st_commitment (note_block_metadata m self) = st_commitment self"
    and "st_coverage (note_block_metadata m self) = st_coverage self"
  by (simp_all add: note_block_metadata_view [OF store_empty_slot [OF assms]])

section \<open>Address lists\<close>

lemma expire_loop_suffix:
  "\<exists>es. xs = expire_loop m xs @ es \<and> (\<forall>k\<in>set es. key_slot k < m)"
proof (induction m xs rule: expire_loop.induct)
  case (1 m xs)
  show ?case
  proof (cases "xs \<noteq> [] \<and> key_slot (last xs) < m")
    case True
    then obtain es where es: "butlast xs = expire_loop m (butlast xs) @ es" "\<forall>k\<in>set es. key_slot k < m"
      using 1 by blast
    have "xs = butlast xs @ [last xs]"
      using True by simp
    also have "\<dots> = expire_loop m (butlast xs) @ es @ [last xs]"
      using es(1) by simp
    also have "expire_loop m (butlast xs) = expire_loop m xs"
      using True by (simp add: expire_loop.simps [of m xs])
    finally show ?thesis
      using es(2) True by (intro exI [of _ "es @ [last xs]"]) auto
  qed (auto simp: expire_loop.simps [of m xs])
qed

definition raised :: "slot option \<Rightarrow> head_sig_key list \<Rightarrow> slot option \<Rightarrow> bool" where
  "raised t ds u \<longleftrightarrow>
     (\<forall>d\<in>set ds. \<exists>v. u = Some v \<and> key_slot d \<le> v) \<and>
     (\<forall>v0. t = Some v0 \<longrightarrow> (\<exists>v. u = Some v \<and> v0 \<le> v)) \<and>
     (u = None \<longrightarrow> ds = [] \<and> t = None)"

lemma truncate_loop_suffix:
  assumes "truncate_loop cap xs t = (ys, u)"
  shows "\<exists>ds. xs = ys @ ds \<and> length ys \<le> cap \<and> raised t ds u"
  using assms
proof (induction cap xs t rule: truncate_loop.induct)
  case (1 cap xs t)
  define t' where "t' = Some (case t of None \<Rightarrow> key_slot (last xs) | Some v \<Rightarrow> max v (key_slot (last xs)))"
  show ?case
  proof (cases "cap < length xs")
    case True
    then have "truncate_loop cap (butlast xs) t' = (ys, u)"
      using "1.prems" by (simp add: truncate_loop.simps [of cap xs] Let_def t'_def)
    then obtain ds where ds: "butlast xs = ys @ ds" "length ys \<le> cap" "raised t' ds u"
      using "1.IH" [OF True refl] by (auto simp: t'_def)
    have xs: "xs = ys @ ds @ [last xs]"
      using True ds(1) by (metis append.assoc append_butlast_last_id length_greater_0_conv not_less_zero gr_zeroI)
    obtain v where v: "u = Some v" "(case t of None \<Rightarrow> key_slot (last xs) | Some v \<Rightarrow> max v (key_slot (last xs))) \<le> v"
      using ds(3) by (auto simp: raised_def t'_def)
    then have "raised t (ds @ [last xs]) u"
      using ds(3) by (auto simp: raised_def split: option.splits)
    with xs ds(2) show ?thesis
      by blast
  next
    case False
    then show ?thesis
      using "1.prems" by (simp add: truncate_loop.simps [of cap xs] raised_def)
  qed
qed

definition newest_first :: "head_sig_key list \<Rightarrow> bool" where
  "newest_first xs \<longleftrightarrow> sorted_wrt (\<lambda>k k'. key_order k' \<le> key_order k) xs"

definition insert_key :: "head_sig_key \<Rightarrow> head_sig_key list \<Rightarrow> head_sig_key list" where
  "insert_key key xs = takeWhile (\<lambda>k. key_order k > key_order key) xs @ key #
                       dropWhile (\<lambda>k. key_order k > key_order key) xs"

lemma set_insert_key: "set (insert_key key xs) = insert key (set xs)"
proof -
  have "set xs = set (takeWhile (\<lambda>k. key_order k > key_order key) xs) \<union>
                 set (dropWhile (\<lambda>k. key_order k > key_order key) xs)"
    by (metis set_append takeWhile_dropWhile_id)
  then show ?thesis
    by (simp add: insert_key_def)
qed

lemma distinct_insert_key: "distinct xs \<Longrightarrow> key \<notin> set xs \<Longrightarrow> distinct (insert_key key xs)"
proof (induction xs)
  case (Cons k xs)
  then show ?case
    using set_insert_key [of key xs] by (auto simp: insert_key_def)
qed (simp add: insert_key_def)

lemma newest_first_insert_key: "newest_first xs \<Longrightarrow> newest_first (insert_key key xs)"
proof (induction xs)
  case (Cons k xs)
  then have IH: "newest_first (insert_key key xs)"
    by (simp add: newest_first_def)
  show ?case
  proof (cases "key_order k > key_order key")
    case True
    then have "insert_key key (k # xs) = k # insert_key key xs"
      by (simp add: insert_key_def)
    with IH Cons.prems True show ?thesis
      by (auto simp: newest_first_def set_insert_key)
  next
    case False
    then have "insert_key key (k # xs) = key # k # xs"
      by (simp add: insert_key_def)
    with Cons.prems False show ?thesis
      by (auto simp: newest_first_def)
  qed
qed (simp add: insert_key_def newest_first_def)

text \<open>The effect of one \<open>index_address\<close> on the list and the truncation record of its address.\<close>

definition indexed ::
  "head_sig_key \<Rightarrow> slot \<Rightarrow> nat \<Rightarrow> head_sig_key list \<Rightarrow> slot option \<Rightarrow> head_sig_key list \<Rightarrow> slot option \<Rightarrow> bool" where
  "indexed key m cap xs t ys u \<longleftrightarrow>
     (\<exists>ds es. insert_key key xs = ys @ ds @ es \<and> length ys \<le> cap \<and> raised t ds u \<and>
        (\<forall>k\<in>set es. key_slot k < m))"

lemma index_address_view:
  obtains K Tr where
    "index_address a key m self = self\<lparr>st_sigs_by_address := K, st_truncated := Tr\<rparr>"
    "\<And>b. b \<noteq> a \<Longrightarrow> hm_list K b = hm_list (st_sigs_by_address self) b \<and> hm_get Tr b = hm_get (st_truncated self) b"
    "indexed key m (st_max_per_address self) (hm_list (st_sigs_by_address self) a) (hm_get (st_truncated self) a)
       (hm_list K a) (hm_get Tr a)"
    "hm_ok (st_truncated self) \<Longrightarrow> hm_ok Tr"
proof -
  define xs where "xs = hm_list (st_sigs_by_address self) a"
  obtain es where es: "insert_key key xs = expire_loop m (insert_key key xs) @ es" "\<forall>k\<in>set es. key_slot k < m"
    using expire_loop_suffix by blast
  obtain ys u0 where tr: "truncate_loop (st_max_per_address self) (expire_loop m (insert_key key xs)) None = (ys, u0)"
    by (cases "truncate_loop (st_max_per_address self) (expire_loop m (insert_key key xs)) None")
  obtain ds where ds: "expire_loop m (insert_key key xs) = ys @ ds" "length ys \<le> st_max_per_address self"
      "raised None ds u0"
    using truncate_loop_suffix [OF tr] by blast
  define K where "K = hm_insert a ys (st_sigs_by_address self)"
  define Tr where "Tr = (case u0 of None \<Rightarrow> st_truncated self
     | Some s \<Rightarrow> hm_insert a (case hm_get (st_truncated self) a of None \<Rightarrow> s | Some h \<Rightarrow> max h s) (st_truncated self))"
  have eq: "index_address a key m self = self\<lparr>st_sigs_by_address := K, st_truncated := Tr\<rparr>"
    using tr by (cases u0) (simp_all add: index_address_def xs_def [unfolded hm_list_def, symmetric] Let_def
        insert_key_def K_def Tr_def)
  have "raised (hm_get (st_truncated self) a) ds (hm_get Tr a)"
    using ds(3) by (cases u0; cases "hm_get (st_truncated self) a")
      (auto simp: raised_def Tr_def hm_gets intro: max.coboundedI2)
  then have "indexed key m (st_max_per_address self) xs (hm_get (st_truncated self) a) (hm_list K a) (hm_get Tr a)"
    using es ds(1,2) unfolding indexed_def K_def
    by (intro exI [of _ ds] exI [of _ es]) (simp add: hm_lists)
  moreover have "hm_list K b = hm_list (st_sigs_by_address self) b \<and> hm_get Tr b = hm_get (st_truncated self) b"
    if "b \<noteq> a" for b
    using that by (simp add: K_def Tr_def hm_lists hm_gets split: option.split)
  moreover have "hm_ok (st_truncated self) \<Longrightarrow> hm_ok Tr"
    by (simp add: Tr_def hm.ok_put split: option.split)
  ultimately show thesis
    using that [OF eq] by (simp add: xs_def)
qed

lemma index_addresses_view:
  assumes "distinct as"
  obtains K Tr where
    "fold (\<lambda>a. index_address a key m) as self = self\<lparr>st_sigs_by_address := K, st_truncated := Tr\<rparr>"
    "\<And>b. b \<notin> set as \<Longrightarrow> hm_list K b = hm_list (st_sigs_by_address self) b \<and> hm_get Tr b = hm_get (st_truncated self) b"
    "\<And>b. b \<in> set as \<Longrightarrow> indexed key m (st_max_per_address self) (hm_list (st_sigs_by_address self) b)
       (hm_get (st_truncated self) b) (hm_list K b) (hm_get Tr b)"
    "hm_ok (st_truncated self) \<Longrightarrow> hm_ok Tr"
  using assms
proof (induction as arbitrary: self thesis)
  case Nil
  show ?case
    by (rule Nil.prems(1) [of "st_truncated self" "st_sigs_by_address self"]) simp_all
next
  case (Cons a as)
  obtain K Tr where 1:
    "index_address a key m self = self\<lparr>st_sigs_by_address := K, st_truncated := Tr\<rparr>"
    "\<And>b. b \<noteq> a \<Longrightarrow> hm_list K b = hm_list (st_sigs_by_address self) b \<and> hm_get Tr b = hm_get (st_truncated self) b"
    "indexed key m (st_max_per_address self) (hm_list (st_sigs_by_address self) a) (hm_get (st_truncated self) a)
       (hm_list K a) (hm_get Tr a)"
    "hm_ok (st_truncated self) \<Longrightarrow> hm_ok Tr"
    by (rule index_address_view [of a key m self]) blast
  define self1 where "self1 = self\<lparr>st_sigs_by_address := K, st_truncated := Tr\<rparr>"
  have sel: "st_sigs_by_address self1 = K" "st_truncated self1 = Tr" "st_max_per_address self1 = st_max_per_address self"
    by (simp_all add: self1_def)
  show ?case
  proof (rule Cons.IH [of self1])
    show "distinct as"
      using Cons.prems(2) by simp
  next
    fix K' :: "(pubkey, head_sig_key list) hmap" and Tr' :: "(pubkey, slot) hmap"
    assume 2: "fold (\<lambda>a. index_address a key m) as self1 = self1\<lparr>st_sigs_by_address := K', st_truncated := Tr'\<rparr>"
      "\<And>b. b \<notin> set as \<Longrightarrow> hm_list K' b = hm_list (st_sigs_by_address self1) b \<and> hm_get Tr' b = hm_get (st_truncated self1) b"
      "\<And>b. b \<in> set as \<Longrightarrow> indexed key m (st_max_per_address self1) (hm_list (st_sigs_by_address self1) b)
         (hm_get (st_truncated self1) b) (hm_list K' b) (hm_get Tr' b)"
      "hm_ok (st_truncated self1) \<Longrightarrow> hm_ok Tr'"
    show ?case
    proof (rule Cons.prems(1))
      show "fold (\<lambda>a. index_address a key m) (a # as) self = self\<lparr>st_sigs_by_address := K', st_truncated := Tr'\<rparr>"
        using 2(1) by (simp add: 1(1) self1_def)
      show "hm_list K' b = hm_list (st_sigs_by_address self) b \<and> hm_get Tr' b = hm_get (st_truncated self) b"
        if "b \<notin> set (a # as)" for b
        using that 1(2) [of b] 2(2) [of b] by (simp add: sel)
      show "indexed key m (st_max_per_address self) (hm_list (st_sigs_by_address self) b)
          (hm_get (st_truncated self) b) (hm_list K' b) (hm_get Tr' b)" if "b \<in> set (a # as)" for b
      proof (cases "b = a")
        case True
        then show ?thesis
          using 1(3) 2(2) [of a] Cons.prems(2) by (simp add: sel)
      next
        case False
        then show ?thesis
          using that 1(2) [of b] 2(3) [of b] by (simp add: sel)
      qed
      show "hm_ok (st_truncated self) \<Longrightarrow> hm_ok Tr'"
        using 1(4) 2(4) by (simp add: sel)
    qed
  qed
qed

section \<open>Moving a signature between slots\<close>

lemma release_signature_view:
  "release_signature s sig self = self\<lparr>
     st_sigs_by_slot := hm_modify s (filter (\<lambda>x. x \<noteq> sig)) (st_sigs_by_slot self),
     st_sigs_by_address := fold (drop_keys (\<lambda>k. sk_signature k = sig \<and> key_slot k = s))
       (hm_list (st_addrs_by_slot self) s) (st_sigs_by_address self)\<rparr>"
  by (simp add: release_signature_def Let_def release_keys hm_list_def split: option.split)

lemma release_store:
  assumes ok: "store_ok env B self" and old: "hm_get (st_meta self) sig = Some meta"
  shows "store_ok env B (release_signature (meta_slot meta) sig (self\<lparr>st_meta := hm_remove sig (st_meta self)\<rparr>))"
  unfolding release_signature_view
proof (rule store_okI, goal_cases)
  case (1 s)
  show ?case
    by (rule slot_ok_cong [OF store_slotD [OF ok]]) simp_all
next
  case (2 sig' meta')
  then have "hm_get (st_meta self) sig' = Some meta'" "sig' \<noteq> sig"
    by (simp_all add: hm_gets split: if_splits)
  then show ?case
    by (intro tx_stored_cong [OF store_txD [OF ok]]) simp_all
next
  case (3 s sig')
  then show ?case
    using store_sigsD [OF ok, of sig' s] old by (auto simp: hm_lists hm_gets)
next
  case (4 s)
  then show ?case
    using store_distinctD [OF ok] by (simp add: hm_lists)
next
  case 5
  then show ?case
    using store_covD [OF ok] by simp
qed

lemma release_index:
  assumes ix: "index_ok lo self" and old: "hm_get (st_meta self) sig = Some meta"
  shows "index_ok lo (release_signature (meta_slot meta) sig (self\<lparr>st_meta := hm_remove sig (st_meta self)\<rparr>))"
proof -
  define K where "K = fold (drop_keys (\<lambda>k. sk_signature k = sig \<and> key_slot k = meta_slot meta))
       (hm_list (st_addrs_by_slot self) (meta_slot meta)) (st_sigs_by_address self)"
  have K: "k \<in> set (hm_list K a) \<longleftrightarrow> k \<in> set (hm_list (st_sigs_by_address self) a) \<and> sk_signature k \<noteq> sig" for k a
    using index_addrD [OF ix, of k a] index_metaD [OF ix, of k a] old
    by (auto simp: K_def fold_drop_keys_list)
  have Ks: "sorted_wrt (\<lambda>k k'. key_order k' \<le> key_order k) (hm_list K a)" "distinct (hm_list K a)" for a
    using index_sortedD [OF ix, of a] index_distinctD [OF ix, of a]
    by (simp_all add: K_def fold_drop_keys_list sorted_wrt_filter)
  show ?thesis
    unfolding release_signature_view
  proof (rule index_okI, goal_cases)
    case 1
    then show ?case
      using index_hm_okD [OF ix] by simp
  next
    case (2 a)
    then show ?case
      using Ks(1) [of a] by (simp add: K_def)
  next
    case (3 a)
    then show ?case
      using Ks(2) [of a] by (simp add: K_def)
  next
    case (4 a k)
    then have "k \<in> set (hm_list (st_sigs_by_address self) a)" "sk_signature k \<noteq> sig"
      using K [of k a] by (simp_all add: K_def)
    then show ?case
      using index_addrD [OF ix, of k a] index_metaD [OF ix, of k a] index_recordD [OF ix, of k a]
      by (auto simp: hm_gets)
  next
    case (5 a sig' meta' r)
    then have "hm_get (st_meta self) sig' = Some meta'" "sig' \<noteq> sig"
      by (simp_all add: hm_gets split: if_splits)
    then have "\<lparr>sk_signature = sig', sk_pos = mt_pos meta'\<rparr> \<in> set (hm_list K a)"
      using 5 index_completeD [OF ix, of sig' meta' r a] by (simp add: K above_truncation_def)
    then show ?case
      by (simp add: K_def)
  qed
qed

section \<open>Storing a transaction\<close>

lemma distinct_remdups_adj_sorted: "sorted xs \<Longrightarrow> distinct (remdups_adj xs)"
  for xs :: "'a::linorder list"
  by (induction xs rule: remdups_adj.induct) auto

lemma distinct_unique_addresses: "distinct (unique_addresses r)"
  by (simp add: unique_addresses_def distinct_remdups_adj_sorted)

lemma store_transaction_view:
  obtains K Tr where
    "store_transaction sig meta r s m self = self\<lparr>st_meta := hm_insert sig meta (st_meta self),
       st_tx := hm_insert sig r (st_tx self),
       st_sigs_by_slot := hm_entry s [] (\<lambda>sigs. sigs @ [sig]) (st_sigs_by_slot self),
       st_addrs_by_slot := hm_entry s [] (\<lambda>as. as @ unique_addresses r) (st_addrs_by_slot self),
       st_sigs_by_address := K, st_truncated := Tr\<rparr>"
    "\<And>b. b \<notin> set (unique_addresses r) \<Longrightarrow>
       hm_list K b = hm_list (st_sigs_by_address self) b \<and> hm_get Tr b = hm_get (st_truncated self) b"
    "\<And>b. b \<in> set (unique_addresses r) \<Longrightarrow>
       indexed \<lparr>sk_signature = sig, sk_pos = mt_pos meta\<rparr> m (st_max_per_address self)
         (hm_list (st_sigs_by_address self) b) (hm_get (st_truncated self) b) (hm_list K b) (hm_get Tr b)"
    "hm_ok (st_truncated self) \<Longrightarrow> hm_ok Tr"
  by (rule index_addresses_view [OF distinct_unique_addresses [of r],
        of "\<lparr>sk_signature = sig, sk_pos = mt_pos meta\<rparr>" m
           "self\<lparr>st_meta := hm_insert sig meta (st_meta self), st_tx := hm_insert sig r (st_tx self),
              st_sigs_by_slot := hm_entry s [] (\<lambda>sigs. sigs @ [sig]) (st_sigs_by_slot self),
              st_addrs_by_slot := hm_entry s [] (\<lambda>as. as @ unique_addresses r) (st_addrs_by_slot self)\<rparr>"])
    (simp add: store_transaction_def)

lemma store_transaction_store:
  assumes ok: "store_ok env B self" and fresh: "hm_get (st_meta self) sig = None"
    and c: "B s = Some c" "tx \<in> set (ct_txs c)" "ti_signature tx = sig" "block_record env s c tx = Some r"
    and meta: "meta = stored_meta env s tx (Some (ct_token c)) r"
  shows "store_ok env B (store_transaction sig meta r s m self)"
proof (rule store_transaction_view [of sig meta r s m self])
  fix K Tr
  assume eq: "store_transaction sig meta r s m self = self\<lparr>st_meta := hm_insert sig meta (st_meta self),
       st_tx := hm_insert sig r (st_tx self),
       st_sigs_by_slot := hm_entry s [] (\<lambda>sigs. sigs @ [sig]) (st_sigs_by_slot self),
       st_addrs_by_slot := hm_entry s [] (\<lambda>as. as @ unique_addresses r) (st_addrs_by_slot self),
       st_sigs_by_address := K, st_truncated := Tr\<rparr>"
  have slot: "meta_slot meta = s"
    by (simp add: meta stored_meta_def)
  show ?thesis
    unfolding eq
  proof (rule store_okI, goal_cases)
    case (1 s')
    show ?case
      by (rule slot_ok_cong [OF store_slotD [OF ok]]) simp_all
  next
    case (2 sig' meta')
    show ?case
    proof (cases "sig' = sig")
      case True
      with 2 have "meta' = meta"
        by (simp add: hm_gets)
      then show ?thesis
        unfolding tx_stored_def using c slot meta True
        by (intro exI [of _ c] exI [of _ tx] exI [of _ r]) (simp add: hm_gets)
    next
      case False
      with 2 show ?thesis
        by (intro tx_stored_cong [OF store_txD [OF ok]]) (simp_all add: hm_gets)
    qed
  next
    case (3 s' sig')
    then show ?case
      using store_sigsD [OF ok, of sig' s'] slot fresh by (auto simp: hm_lists hm_gets)
  next
    case (4 s')
    then show ?case
      using store_distinctD [OF ok, of s'] store_sigsD [OF ok, of sig s'] fresh by (auto simp: hm_lists)
  next
    case 5
    then show ?case
      using store_covD [OF ok] by simp
  qed
qed

lemma store_transaction_index:
  assumes ix: "index_ok m self" and fresh: "hm_get (st_meta self) sig = None" and slot: "meta_slot meta = s"
  shows "index_ok m (store_transaction sig meta r s m self)"
proof (rule store_transaction_view [of sig meta r s m self])
  fix K Tr
  define key where "key = \<lparr>sk_signature = sig, sk_pos = mt_pos meta\<rparr>"
  assume eq: "store_transaction sig meta r s m self = self\<lparr>st_meta := hm_insert sig meta (st_meta self),
       st_tx := hm_insert sig r (st_tx self),
       st_sigs_by_slot := hm_entry s [] (\<lambda>sigs. sigs @ [sig]) (st_sigs_by_slot self),
       st_addrs_by_slot := hm_entry s [] (\<lambda>as. as @ unique_addresses r) (st_addrs_by_slot self),
       st_sigs_by_address := K, st_truncated := Tr\<rparr>"
    and out: "\<And>b. b \<notin> set (unique_addresses r) \<Longrightarrow>
       hm_list K b = hm_list (st_sigs_by_address self) b \<and> hm_get Tr b = hm_get (st_truncated self) b"
    and in_r: "\<And>b. b \<in> set (unique_addresses r) \<Longrightarrow>
       indexed \<lparr>sk_signature = sig, sk_pos = mt_pos meta\<rparr> m (st_max_per_address self)
         (hm_list (st_sigs_by_address self) b) (hm_get (st_truncated self) b) (hm_list K b) (hm_get Tr b)"
    and Tr: "hm_ok (st_truncated self) \<Longrightarrow> hm_ok Tr"
  have new: "key \<notin> set (hm_list (st_sigs_by_address self) a)" for a
    using index_metaD [OF ix, of key a] fresh by (auto simp: key_def)
  have prefix: "\<exists>zs. insert_key key (hm_list (st_sigs_by_address self) a) = hm_list K a @ zs \<and>
      (\<forall>k\<in>set zs. key_slot k < m \<or> (\<exists>v. hm_get Tr a = Some v \<and> key_slot k \<le> v)) \<and>
      (\<forall>v0. hm_get (st_truncated self) a = Some v0 \<longrightarrow> (\<exists>v. hm_get Tr a = Some v \<and> v0 \<le> v))"
    if a: "a \<in> set (unique_addresses r)" for a
  proof -
    obtain ds es where "insert_key key (hm_list (st_sigs_by_address self) a) = hm_list K a @ ds @ es"
      "raised (hm_get (st_truncated self) a) ds (hm_get Tr a)" "\<forall>k\<in>set es. key_slot k < m"
      using in_r [OF a] unfolding indexed_def key_def by blast
    then show ?thesis
      unfolding raised_def by (intro exI [of _ "ds @ es"]) auto
  qed
  have kept: "k \<in> set (hm_list K a)"
    if a: "a \<in> set (unique_addresses r)"
      and k: "k \<in> insert key (set (hm_list (st_sigs_by_address self) a))" "m \<le> key_slot k"
      "case hm_get Tr a of None \<Rightarrow> True | Some v \<Rightarrow> v < key_slot k" for a k
  proof -
    obtain zs where zs: "insert_key key (hm_list (st_sigs_by_address self) a) = hm_list K a @ zs"
      "\<forall>k\<in>set zs. key_slot k < m \<or> (\<exists>v. hm_get Tr a = Some v \<and> key_slot k \<le> v)"
      using prefix [OF a] by blast
    have "k \<in> set (insert_key key (hm_list (st_sigs_by_address self) a))"
      using k(1) by (simp add: set_insert_key)
    then show ?thesis
      using zs k(2,3) by (auto split: option.splits)
  qed
  show ?thesis
    unfolding eq
  proof (rule index_okI, goal_cases)
    case 1
    then show ?case
      using index_hm_okD [OF ix] Tr by simp
  next
    case (2 a)
    show ?case
    proof (cases "a \<in> set (unique_addresses r)")
      case True
      obtain zs where "insert_key key (hm_list (st_sigs_by_address self) a) = hm_list K a @ zs"
        using prefix [OF True] by blast
      then show ?thesis
        using newest_first_insert_key [of "hm_list (st_sigs_by_address self) a" key] index_sortedD [OF ix, of a]
        by (simp add: newest_first_def sorted_wrt_append)
    qed (simp add: out index_sortedD [OF ix])
  next
    case (3 a)
    show ?case
    proof (cases "a \<in> set (unique_addresses r)")
      case True
      obtain zs where "insert_key key (hm_list (st_sigs_by_address self) a) = hm_list K a @ zs"
        using prefix [OF True] by blast
      then show ?thesis
        using distinct_insert_key [OF index_distinctD [OF ix, of a] new [of a]] by simp
    qed (simp add: out index_distinctD [OF ix])
  next
    case (4 a k)
    have "k = key \<and> a \<in> set (unique_addresses r) \<or> k \<in> set (hm_list (st_sigs_by_address self) a)"
    proof (cases "a \<in> set (unique_addresses r)")
      case True
      obtain zs where "insert_key key (hm_list (st_sigs_by_address self) a) = hm_list K a @ zs"
        using prefix [OF True] by blast
      then have "k \<in> set (insert_key key (hm_list (st_sigs_by_address self) a))"
        using 4 by simp
      with True show ?thesis
        by (auto simp: set_insert_key)
    qed (use 4 out in simp)
    then show ?case
      using index_addrD [OF ix, of k a] index_metaD [OF ix, of k a] index_recordD [OF ix, of k a] slot fresh
      by (auto simp: hm_lists hm_gets key_def)
  next
    case (5 a sig' meta' r')
    define k where "k = \<lparr>sk_signature = sig', sk_pos = mt_pos meta'\<rparr>"
    have above: "case hm_get Tr a of None \<Rightarrow> True | Some v \<Rightarrow> v < key_slot k"
      using 5(5) by (simp add: above_truncation_def k_def split: option.splits)
    show ?case
    proof (cases "a \<in> set (unique_addresses r)")
      case True
      have "k \<in> insert key (set (hm_list (st_sigs_by_address self) a))"
      proof (cases "sig' = sig")
        case False
        have "above_truncation self a (meta_slot meta')"
          using prefix [OF True] above by (auto simp: above_truncation_def k_def split: option.splits)
        then show ?thesis
          using False 5 index_completeD [OF ix, of sig' meta' r' a] by (simp add: hm_gets k_def)
      qed (use 5 in \<open>simp add: k_def key_def hm_gets\<close>)
      then have "k \<in> set (hm_list K a)"
        using kept [OF True _ _ above] 5(4) by (simp add: k_def)
      then show ?thesis
        by (simp add: k_def)
    next
      case False
      then have "sig' \<noteq> sig"
        using 5(2,3) by (auto simp: hm_gets)
      then show ?thesis
        using False 5 out [OF False] index_completeD [OF ix, of sig' meta' r' a]
        by (simp add: hm_gets above_truncation_def)
    qed
  qed
qed

lemma store_transaction_frame [simp]:
  "st_latest_slot (store_transaction sig meta r s m self) = st_latest_slot self"
  "st_retain_slots (store_transaction sig meta r s m self) = st_retain_slots self"
  "st_max_per_address (store_transaction sig meta r s m self) = st_max_per_address self"
  "st_tokens (store_transaction sig meta r s m self) = st_tokens self"
  "st_next_token (store_transaction sig meta r s m self) = st_next_token self"
  "st_commitment (store_transaction sig meta r s m self) = st_commitment self"
  "st_coverage (store_transaction sig meta r s m self) = st_coverage self"
  by (rule store_transaction_view [of sig meta r s m self]; simp)+

section \<open>Ingesting\<close>

text \<open>The store after the signature was taken from the slot that held it, if any did.\<close>

definition released :: "signature \<Rightarrow> head_store \<Rightarrow> head_store" where
  "released sig self =
     (case hm_get (st_meta self) sig of
        None \<Rightarrow> self
      | Some old \<Rightarrow>
          release_signature (meta_slot old) sig (self\<lparr>st_meta := hm_remove sig (st_meta self)\<rparr>))"

lemma released_frame [simp]:
  "st_latest_slot (released sig self) = st_latest_slot self"
  "st_retain_slots (released sig self) = st_retain_slots self"
  "st_max_per_address (released sig self) = st_max_per_address self"
  "st_tokens (released sig self) = st_tokens self"
  "st_next_token (released sig self) = st_next_token self"
  "st_commitment (released sig self) = st_commitment self"
  "st_coverage (released sig self) = st_coverage self"
  by (simp_all add: released_def release_signature_view split: option.split)

lemma released_ok:
  assumes "store_ok env B self" "index_ok lo self"
  shows "store_ok env B (released sig self)" "index_ok lo (released sig self)"
    and "hm_get (st_meta (released sig self)) sig = None"
  using assms release_store [OF assms(1), of sig] release_index [OF assms(2), of sig]
  by (auto simp: released_def release_signature_view hm_gets split: option.split)

lemma ingest_cases:
  fixes self s
  defines "m \<equiv> sat_sub (max (st_latest_slot self) s) (sat_sub (st_retain_slots self) 1)"
  obtains
    (skip) "ingest_bank_transaction env s tx t self = self"
  | (store) r0 r self2 where
      "ev_convert env s tx = Some r0" "r = r0\<lparr>tr_block_time := hm_get (st_block_time self) s\<rparr>"
      "self2 = store_transaction (ti_signature tx) (stored_meta env s tx t r) r s m (released (ti_signature tx) self)"
      "ingest_bank_transaction env s tx t self =
         (if st_latest_slot self < s then evict_old_slots (self2\<lparr>st_latest_slot := s\<rparr>) else self2)"
proof (cases "s < m \<or> bytes_to_array 64 (ti_signature tx) = None \<or>
    keeps_existing_projection self (ti_signature tx) s t \<or> ev_convert env s tx = None")
  case True
  then show thesis
    by (intro skip) (auto simp: ingest_bank_transaction_def m_def Let_def bytes_to_array_def split: if_splits)
next
  case False
  then obtain r0 where r0: "ev_convert env s tx = Some r0"
    by blast
  have sig: "bytes_to_array 64 (ti_signature tx) = Some (ti_signature tx)"
    using False by (auto simp: bytes_to_array_def split: if_splits)
  show thesis
  proof (rule store [OF r0 refl refl])
    show "ingest_bank_transaction env s tx t self =
       (if st_latest_slot self < s
        then evict_old_slots ((store_transaction (ti_signature tx)
               (stored_meta env s tx t (r0\<lparr>tr_block_time := hm_get (st_block_time self) s\<rparr>))
               (r0\<lparr>tr_block_time := hm_get (st_block_time self) s\<rparr>) s m
               (released (ti_signature tx) self))\<lparr>st_latest_slot := s\<rparr>)
        else store_transaction (ti_signature tx)
               (stored_meta env s tx t (r0\<lparr>tr_block_time := hm_get (st_block_time self) s\<rparr>))
               (r0\<lparr>tr_block_time := hm_get (st_block_time self) s\<rparr>) s m
               (released (ti_signature tx) self))"
      using False r0 sig
      unfolding ingest_bank_transaction_def Let_def m_def [symmetric] released_def [symmetric]
      by (simp add: max_absorb2 less_imp_le)
  qed
qed

lemma ingest_frame [simp]:
  "st_retain_slots (ingest_bank_transaction env s tx t self) = st_retain_slots self"
  "st_max_per_address (ingest_bank_transaction env s tx t self) = st_max_per_address self"
  "st_tokens (ingest_bank_transaction env s tx t self) = st_tokens self"
  "st_next_token (ingest_bank_transaction env s tx t self) = st_next_token self"
  by (rule ingest_cases [of env s tx t self]; simp)+

lemma ingest_latest:
  "st_latest_slot self \<le> st_latest_slot (ingest_bank_transaction env s tx t self)"
  "st_latest_slot (ingest_bank_transaction env s tx t self) \<le> max (st_latest_slot self) s"
  by (rule ingest_cases [of env s tx t self]; simp)+

lemma ingest_keeps:
  assumes ok: "store_ok env B self" and ix: "index_ok (min_retained_slot self) self"
    and c: "B s = Some c" "tx \<in> set (ct_txs c)" "t = Some (ct_token c)"
  obtains S where
    "store_ok env (B |` (- S)) (ingest_bank_transaction env s tx t self)"
    "index_ok (min_retained_slot (ingest_bank_transaction env s tx t self)) (ingest_bank_transaction env s tx t self)"
    "hm_get (st_commitment (ingest_bank_transaction env s tx t self)) = hm_get (st_commitment self) |` (- S)"
    "s \<notin> S" "\<And>x. x \<in> S \<Longrightarrow> x < min_retained_slot (ingest_bank_transaction env s tx t self)"
proof (rule ingest_cases [of env s tx t self])
  assume "ingest_bank_transaction env s tx t self = self"
  then show thesis
    using ok ix by (intro that [of "{}"]) simp_all
next
  fix r0 r self2
  define m where "m = sat_sub (max (st_latest_slot self) s) (sat_sub (st_retain_slots self) 1)"
  assume r: "ev_convert env s tx = Some r0" "r = r0\<lparr>tr_block_time := hm_get (st_block_time self) s\<rparr>"
    and self2: "self2 = store_transaction (ti_signature tx) (stored_meta env s tx t r) r s
       (sat_sub (max (st_latest_slot self) s) (sat_sub (st_retain_slots self) 1)) (released (ti_signature tx) self)"
    and eq: "ingest_bank_transaction env s tx t self =
         (if st_latest_slot self < s then evict_old_slots (self2\<lparr>st_latest_slot := s\<rparr>) else self2)"
  have "index_ok m self"
    by (rule index_ok_mono [OF ix]) (auto simp: m_def min_retained_slot_def sat_sub_def)
  note rel = released_ok [OF ok this, of "ti_signature tx"]
  have "hm_get (st_block_time self) s = bm_block_time (ct_metadata c)"
    using store_slotD [OF ok, of s] c(1) by (simp add: slot_ok_def)
  then have "block_record env s c tx = Some r"
    using r by (simp add: block_record_def)
  then have ok2: "store_ok env B self2"
    unfolding self2 c(3) by (intro store_transaction_store [OF rel(1,3) c(1,2)]) simp_all
  have ix2: "index_ok m self2"
    unfolding self2 m_def [symmetric] by (rule store_transaction_index [OF rel(2,3)]) (simp add: stored_meta_def)
  have fr: "st_latest_slot self2 = st_latest_slot self" "st_retain_slots self2 = st_retain_slots self"
    "st_commitment self2 = st_commitment self"
    by (simp_all add: self2)
  show thesis
  proof (cases "st_latest_slot self < s")
    case True
    define self3 where "self3 = self2\<lparr>st_latest_slot := s\<rparr>"
    have floor: "min_retained_slot self3 = m" "min_retained_slot (evict_old_slots self3) = m"
      using True by (simp_all add: self3_def min_retained_slot_def m_def fr)
    have ok3: "store_ok env B self3" and ix3: "index_ok m self3"
      using ok2 ix2 by (simp_all add: self3_def)
    show thesis
    proof (rule that [of "old_slots self3"])
      show "s \<notin> old_slots self3"
        using True by (simp add: old_slots_def floor) (simp add: m_def sat_sub_def max_def not_less)
    next
      show "hm_get (st_commitment (ingest_bank_transaction env s tx t self)) =
          hm_get (st_commitment self) |` (- old_slots self3)"
        using True by (simp add: eq self3_def [symmetric] evict_commitment) (simp add: self3_def fr)
    next
      show "x < min_retained_slot (ingest_bank_transaction env s tx t self)" if "x \<in> old_slots self3" for x
        using that True by (simp add: eq self3_def [symmetric] floor) (simp add: old_slots_def floor)
    qed (use True in \<open>simp_all add: eq self3_def [symmetric] floor evict_store [OF ok3] evict_index [OF ok3 ix3]\<close>)
  next
    case False
    then have "min_retained_slot self2 = m"
      by (simp add: min_retained_slot_def m_def fr max_def)
    with False show thesis
      using ok2 ix2 by (intro that [of "{}"]) (simp_all add: eq fr)
  qed
qed

section \<open>Store writes never revive a bank\<close>

lemma shrinks_remove_slot:
  assumes "head_ok (st_coverage self)"
  shows "shrinks (st_coverage self) (st_coverage (remove_slot_inner s self))"
proof -
  note inval = shrinks_invalidate(1) [OF assms, of s]
  have "head_ok (head_coverage_invalidate s (st_coverage self))"
    using inval by (simp add: shrinks_def)
  from shrinks_trans [OF inval shrinks_ops(1) [OF this]] show ?thesis
    by simp
qed

lemma shrinks_remove_slots:
  "head_ok (st_coverage self) \<Longrightarrow> shrinks (st_coverage self) (st_coverage (fold remove_slot_inner ss self))"
proof (induction ss arbitrary: self)
  case (Cons s ss)
  have "shrinks (st_coverage self) (st_coverage (remove_slot_inner s self))"
    by (rule shrinks_remove_slot [OF Cons.prems])
  moreover from this have "shrinks (st_coverage (remove_slot_inner s self))
      (st_coverage (fold remove_slot_inner ss (remove_slot_inner s self)))"
    by (intro Cons.IH) (simp add: shrinks_def)
  ultimately show ?case
    by (auto intro: shrinks_trans)
qed (simp add: shrinks_refl)

lemma shrinks_evict: "head_ok (st_coverage self) \<Longrightarrow> shrinks (st_coverage self) (st_coverage (evict_old_slots self))"
  by (simp add: evict_old_slots_def Let_def shrinks_refl shrinks_remove_slots)

lemma shrinks_note_slot_commitment:
  assumes "head_ok (st_coverage self)"
  shows "shrinks (st_coverage self) (st_coverage (note_slot_commitment s c self))"
proof -
  define self' where "self' = self\<lparr>st_latest_slot := max (st_latest_slot self) s,
     st_commitment := hm_insert s (merged_commitment self s c) (st_commitment self)\<rparr>"
  have "note_slot_commitment s c self = (if st_latest_slot self < s then evict_old_slots self' else self')"
    by (simp add: note_slot_commitment_def self'_def merged_commitment_def)
  then show ?thesis
    using assms shrinks_evict [of self'] by (auto simp: self'_def shrinks_refl)
qed

lemma shrinks_ingest:
  assumes "head_ok (st_coverage self)"
  shows "shrinks (st_coverage self) (st_coverage (ingest_bank_transaction env s tx t self))"
proof (rule ingest_cases [of env s tx t self])
  fix r0 r self2
  assume "self2 = store_transaction (ti_signature tx) (stored_meta env s tx t r) r s
       (sat_sub (max (st_latest_slot self) s) (sat_sub (st_retain_slots self) 1)) (released (ti_signature tx) self)"
    and eq: "ingest_bank_transaction env s tx t self =
         (if st_latest_slot self < s then evict_old_slots (self2\<lparr>st_latest_slot := s\<rparr>) else self2)"
  then have "st_coverage self2 = st_coverage self"
    by simp
  then show ?thesis
    using assms shrinks_evict [of "self2\<lparr>st_latest_slot := s\<rparr>"] by (simp add: eq shrinks_refl)
qed (simp add: shrinks_refl assms)

end
