(* ===== verification/Head_Serving.thy ===== *)
theory Head_Serving
  imports Head_Index
begin

text \<open>
  What the head cache serves after any run of bank operations.  \<open>cache_inv\<close> ties a state to the history
  of its run: every published block is a bank that was staged and frozen in the current session, every
  commitment shown was reported for that bank, and the store of \<open>Head_Index\<close> is consistent.  Each
  operation preserves it; the properties read the answers of the cache off it.
\<close>

section \<open>The history of a run\<close>

definition staged :: "bank_op list \<Rightarrow> nat \<Rightarrow> bank_key \<Rightarrow> block_metadata \<Rightarrow> bool" where
  "staged H n key m \<longleftrightarrow> (\<exists>m0. Stage_metadata n (snd key) m0 \<in> set H \<and> bm_slot m0 = fst key \<and> same_block m m0)"

definition committed :: "bank_op list \<Rightarrow> nat \<Rightarrow> bank_key \<Rightarrow> nat \<Rightarrow> bool" where
  "committed H n key r \<longleftrightarrow>
     r = 0 \<or> (\<exists>c parent now. Commit n (fst key) (snd key) c parent now \<in> set H \<and> rank c = r)"

definition good_txs :: "convert_env \<Rightarrow> slot \<Rightarrow> tx_info list \<Rightarrow> bool" where
  "good_txs env s txs \<longleftrightarrow>
     distinct (map ti_index txs) \<and> distinct (map ti_signature txs) \<and>
     (\<forall>tx\<in>set txs. ti_index tx < length txs \<and> ev_convert env s tx \<noteq> None)"

definition sealed_ok :: "convert_env \<Rightarrow> bank_op list \<Rightarrow> nat \<Rightarrow> bank_key \<Rightarrow> hash \<Rightarrow> tx_info list \<Rightarrow> bool" where
  "sealed_ok env H n key h txs \<longleftrightarrow>
     Freeze n (fst key) (snd key) h txs \<in> set H \<and> good_txs env (fst key) txs \<and>
     (\<exists>m. staged H n key m \<and> bm_blockhash m = h \<and> bm_executed_transaction_count m = length txs)"

definition bank_ok :: "convert_env \<Rightarrow> bank_op list \<Rightarrow> nat \<Rightarrow> bank_key \<Rightarrow> bank \<Rightarrow> bool" where
  "bank_ok env H n key b \<longleftrightarrow>
     (\<forall>m. bk_metadata b = Some m \<longrightarrow> bm_slot m = fst key \<and> staged H n key m) \<and>
     (bk_transactions b = None \<longleftrightarrow> bk_sealed_hash b = None) \<and>
     (\<forall>h txs. bk_sealed_hash b = Some h \<longrightarrow> bk_transactions b = Some txs \<longrightarrow>
        (\<exists>m. bk_metadata b = Some m \<and> bm_blockhash m = h) \<and> sealed_ok env H n key h txs)"

definition content_ok :: "convert_env \<Rightarrow> bank_op list \<Rightarrow> nat \<Rightarrow> slot \<Rightarrow> content \<Rightarrow> bool" where
  "content_ok env H n s c \<longleftrightarrow>
     bm_slot (ct_metadata c) = s \<and> staged H n (s, ct_bank c) (ct_metadata c) \<and>
     sealed_ok env H n (s, ct_bank c) (bm_blockhash (ct_metadata c)) (ct_txs c)"

section \<open>The invariant of a run\<close>

text \<open>Commitment cells belong to one bank each, and hold what was reported for it.\<close>

definition tokens_ok ::
  "bank_op list \<Rightarrow> contents \<Rightarrow> bank_state \<Rightarrow> head_store \<Rightarrow> (token \<Rightarrow> bank_key) \<Rightarrow> bool" where
  "tokens_ok H B bs st own \<longleftrightarrow>
     (\<forall>key b. hm_get (bs_banks bs) key = Some b \<longrightarrow>
        bk_commitment b < st_next_token st \<and> own (bk_commitment b) = key \<and>
        committed H (bs_session bs) key (st_tokens st (bk_commitment b))) \<and>
     (\<forall>s c. B s = Some c \<longrightarrow>
        ct_token c < st_next_token st \<and> own (ct_token c) = (s, ct_bank c) \<and>
        committed H (bs_session bs) (s, ct_bank c) (st_tokens st (ct_token c)))"

definition selected_ok :: "contents \<Rightarrow> bank_state \<Rightarrow> head_store \<Rightarrow> bool" where
  "selected_ok B bs st \<longleftrightarrow>
     (\<forall>s i. hm_get (bs_selected bs) s = Some i \<longrightarrow>
        (\<exists>b txs. hm_get (bs_banks bs) (s, i) = Some b \<and> bk_transactions b = Some txs \<and>
           (B s = None \<longrightarrow> s < min_retained_slot st) \<and>
           (\<forall>c. B s = Some c \<longrightarrow> ct_bank c = i \<and> ct_txs c = txs \<and> ct_token c = bk_commitment b)))"

definition published_ok :: "bank_op list \<Rightarrow> contents \<Rightarrow> bank_state \<Rightarrow> head_store \<Rightarrow> bool" where
  "published_ok H B bs st \<longleftrightarrow>
     (\<forall>s c cm. B s = Some c \<longrightarrow> hm_get (st_commitment st) s = Some cm \<longrightarrow>
        committed H (bs_session bs) (s, ct_bank c) (rank cm)) \<and>
     (\<forall>s c w. B s = Some c \<longrightarrow> hm_get (bs_canonical bs) s = Some w \<longrightarrow> ct_bank c = w)"

definition banks_ok :: "convert_env \<Rightarrow> bank_op list \<Rightarrow> contents \<Rightarrow> bank_state \<Rightarrow> bool" where
  "banks_ok env H B bs \<longleftrightarrow>
     (\<forall>key b. hm_get (bs_banks bs) key = Some b \<longrightarrow> bank_ok env H (bs_session bs) key b) \<and>
     (\<forall>s c. B s = Some c \<longrightarrow> content_ok env H (bs_session bs) s c)"

text \<open>Every slot with a commitment that a bank could still claim has a selected bank.\<close>

definition claimed_ok :: "head_cache \<Rightarrow> bool" where
  "claimed_ok self \<longleftrightarrow>
     (\<forall>s. hm_get (st_commitment (hk_store self)) s \<noteq> None \<longrightarrow> bank_floor self \<le> s \<longrightarrow>
        hm_get (bs_selected (hk_banks self)) s \<noteq> None)"

definition cache_inv :: "convert_env \<Rightarrow> bank_op list \<Rightarrow> contents \<Rightarrow> head_cache \<Rightarrow> bool" where
  "cache_inv env H B self \<longleftrightarrow>
     store_ok env B (hk_store self) \<and>
     index_ok (min_retained_slot (hk_store self)) (hk_store self) \<and>
     dom B \<subseteq> dom (hm_get (st_commitment (hk_store self))) \<and>
     claimed_ok self \<and>
     banks_ok env H B (hk_banks self) \<and>
     selected_ok B (hk_banks self) (hk_store self) \<and>
     (\<exists>own. tokens_ok H B (hk_banks self) (hk_store self) own) \<and>
     published_ok H B (hk_banks self) (hk_store self)"

lemma cache_invI:
  assumes "store_ok env B (hk_store self)"
    and "index_ok (min_retained_slot (hk_store self)) (hk_store self)"
    and "dom B \<subseteq> dom (hm_get (st_commitment (hk_store self)))"
    and "claimed_ok self"
    and "banks_ok env H B (hk_banks self)"
    and "selected_ok B (hk_banks self) (hk_store self)"
    and "tokens_ok H B (hk_banks self) (hk_store self) own"
    and "published_ok H B (hk_banks self) (hk_store self)"
  shows "cache_inv env H B self"
  using assms unfolding cache_inv_def by blast

lemma cache_invD:
  assumes "cache_inv env H B self"
  shows "store_ok env B (hk_store self)"
    and "index_ok (min_retained_slot (hk_store self)) (hk_store self)"
    and "dom B \<subseteq> dom (hm_get (st_commitment (hk_store self)))"
    and "claimed_ok self"
    and "banks_ok env H B (hk_banks self)"
    and "selected_ok B (hk_banks self) (hk_store self)"
    and "\<exists>own. tokens_ok H B (hk_banks self) (hk_store self) own"
    and "published_ok H B (hk_banks self) (hk_store self)"
  using assms unfolding cache_inv_def by blast+

lemma selected_okE:
  assumes "selected_ok B bs st" "hm_get (bs_selected bs) s = Some i"
  obtains b txs where "hm_get (bs_banks bs) (s, i) = Some b" "bk_transactions b = Some txs"
    "B s = None \<Longrightarrow> s < min_retained_slot st"
    "\<And>c. B s = Some c \<Longrightarrow> ct_bank c = i \<and> ct_txs c = txs \<and> ct_token c = bk_commitment b"
  using assms unfolding selected_ok_def by blast

lemma cache_inv_commitment:
  assumes "cache_inv env H B self" "B s = Some c"
  shows "\<exists>cm. hm_get (st_commitment (hk_store self)) s = Some cm"
  using assms(2) cache_invD(3) [OF assms(1)] by blast

lemma claimed_okD:
  "claimed_ok self \<Longrightarrow> hm_get (st_commitment (hk_store self)) s = Some cm \<Longrightarrow> bank_floor self \<le> s \<Longrightarrow>
   \<exists>i. hm_get (bs_selected (hk_banks self)) s = Some i"
  unfolding claimed_ok_def by blast

section \<open>Growing histories\<close>

lemma staged_mono: "staged H n key m \<Longrightarrow> set H \<subseteq> set H' \<Longrightarrow> staged H' n key m"
  unfolding staged_def by blast

lemma committed_mono: "committed H n key r \<Longrightarrow> set H \<subseteq> set H' \<Longrightarrow> committed H' n key r"
  unfolding committed_def by blast

lemma sealed_ok_mono: "sealed_ok env H n key h txs \<Longrightarrow> set H \<subseteq> set H' \<Longrightarrow> sealed_ok env H' n key h txs"
  unfolding sealed_ok_def by (blast intro: staged_mono)

lemma bank_ok_mono: "bank_ok env H n key b \<Longrightarrow> set H \<subseteq> set H' \<Longrightarrow> bank_ok env H' n key b"
  unfolding bank_ok_def by (blast intro: staged_mono sealed_ok_mono)

lemma content_ok_mono: "content_ok env H n s c \<Longrightarrow> set H \<subseteq> set H' \<Longrightarrow> content_ok env H' n s c"
  unfolding content_ok_def by (blast intro: staged_mono sealed_ok_mono)

lemma cache_inv_mono:
  assumes "cache_inv env H B self" "set H \<subseteq> set H'"
  shows "cache_inv env H' B self"
proof -
  have "banks_ok env H' B (hk_banks self)"
    using cache_invD(5) [OF assms(1)] assms(2)
    unfolding banks_ok_def by (blast intro: bank_ok_mono content_ok_mono)
  moreover have "\<exists>own. tokens_ok H' B (hk_banks self) (hk_store self) own"
    using cache_invD(7) [OF assms(1)] assms(2) unfolding tokens_ok_def by (meson committed_mono)
  moreover have "published_ok H' B (hk_banks self) (hk_store self)"
    using cache_invD(8) [OF assms(1)] assms(2) unfolding published_ok_def by (meson committed_mono)
  ultimately show ?thesis
    using cache_invD [OF assms(1)] unfolding cache_inv_def by blast
qed

lemma cache_inv_snoc: "cache_inv env H B self \<Longrightarrow> cache_inv env (H @ [x]) B self"
  by (rule cache_inv_mono) auto

section \<open>Bookkeeping steps\<close>

lemma on_coverage_frame [simp]:
  "st_retain_slots (on_coverage f st) = st_retain_slots st"
  "st_max_per_address (on_coverage f st) = st_max_per_address st"
  "st_latest_slot (on_coverage f st) = st_latest_slot st"
  "st_commitment (on_coverage f st) = st_commitment st"
  "st_tokens (on_coverage f st) = st_tokens st"
  "st_next_token (on_coverage f st) = st_next_token st"
  "st_truncated (on_coverage f st) = st_truncated st"
  "st_coverage (on_coverage f st) = f (st_coverage st)"
  "min_retained_slot (on_coverage f st) = min_retained_slot st"
  "index_ok lo (on_coverage f st) = index_ok lo st"
  by (simp_all add: on_coverage_def min_retained_slot_def)

lemma store_ok_on_coverage:
  "store_ok env B st \<Longrightarrow> cov_ok B (f (st_coverage st)) \<Longrightarrow> store_ok env B (on_coverage f st)"
  unfolding on_coverage_def store_ok_def
  by (auto simp: slot_ok_def [abs_def] tx_stored_def cong: option.case_cong)

lemma cache_inv_on_coverage:
  "cache_inv env H B self \<Longrightarrow> cov_ok B (f (st_coverage (hk_store self))) \<Longrightarrow>
   cache_inv env H B (on_store (on_coverage f) self)"
  by (simp add: cache_inv_def on_store_def claimed_ok_def bank_floor_def selected_ok_def tokens_ok_def
      published_ok_def store_ok_on_coverage)

lemma cache_inv_covD: "cache_inv env H B self \<Longrightarrow> cov_ok B (st_coverage (hk_store self))"
  using store_covD [OF cache_invD(1)] .

lemma cov_ok_head: "cov_ok B cov \<Longrightarrow> head_ok cov"
  by (simp add: cov_ok_def)

lemma cov_ok_empty: "cov_ok B (head_coverage_connect cov)" "cov_ok B (head_coverage_disconnect cov)"
  "cov_ok B head_coverage_default"
  by (simp_all add: cov_ok_def valid_node_def head_ok_def nodes_ok_def head_coverage_connect_def
      head_coverage_disconnect_def head_coverage_default_def bt_get_def stored_link_def tips_ok_def tip_le_def)

lemma cov_ok_ops:
  assumes "cov_ok B cov"
  shows "cov_ok B (head_coverage_retain s n cov)" "cov_ok B (head_coverage_observe s cm now cov)"
    and "cov_ok B (head_coverage_validate_parent s p cov)" "cov_ok B (head_coverage_invalidate_branch s cov)"
  by (rule cov_ok_shrinks [OF assms], rule shrinks_ops shrinks_invalidate_branch, rule cov_ok_head [OF assms], rule refl)+

lemma cov_ok_publish: "cov_ok B cov \<Longrightarrow> cov_ok B (head_coverage_publish s cm cov)"
  using head_ok_ops(5) [of cov s cm] valid_publish [of cov s cm] unfolding cov_ok_def by metis

lemma cov_ok_select:
  assumes "cov_ok B cov" "B (lk_slot l) = Some c" "metadata_link (ct_metadata c) = l"
  shows "cov_ok B (head_coverage_select_bank l cov)"
  using assms head_ok_ops(7) [of cov l] valid_select [of cov l] unfolding cov_ok_def by fastforce

lemma bank_floor_mono:
  assumes "bs_minimum_commitment (hk_banks self') = bs_minimum_commitment (hk_banks self)"
    and "st_retain_slots (hk_store self') = st_retain_slots (hk_store self)"
    and "bs_highest (hk_banks self) \<le> bs_highest (hk_banks self')"
    and "st_latest_slot (hk_store self) \<le> st_latest_slot (hk_store self')"
  shows "bank_floor self \<le> bank_floor self'"
proof -
  have "max (bs_highest (hk_banks self)) (st_latest_slot (hk_store self)) \<le>
        max (bs_highest (hk_banks self')) (st_latest_slot (hk_store self'))"
    using assms(3,4) by linarith
  then show ?thesis
    using assms(1,2) by (simp add: bank_floor_def Let_def sat_sub_def diff_le_mono)
qed

lemma claimed_ok_mono:
  assumes "claimed_ok self" "bank_floor self \<le> bank_floor self'"
    and "dom (hm_get (st_commitment (hk_store self'))) \<subseteq> dom (hm_get (st_commitment (hk_store self)))"
    and "dom (hm_get (bs_selected (hk_banks self))) \<subseteq> dom (hm_get (bs_selected (hk_banks self')))"
  shows "claimed_ok self'"
  unfolding claimed_ok_def
proof (intro allI impI)
  fix s
  assume s: "hm_get (st_commitment (hk_store self')) s \<noteq> None" and low: "bank_floor self' \<le> s"
  then have "hm_get (st_commitment (hk_store self)) s \<noteq> None" "bank_floor self \<le> s"
    using assms(2,3) by (auto intro: order_trans)
  then have "s \<in> dom (hm_get (bs_selected (hk_banks self)))"
    using assms(1) unfolding claimed_ok_def by blast
  then show "hm_get (bs_selected (hk_banks self')) s \<noteq> None"
    using assms(4) by auto
qed

lemma raise_highest_inv:
  assumes inv: "cache_inv env H B self"
  shows "cache_inv env H B (raise_highest s self)"
proof -
  have "claimed_ok (raise_highest s self)"
    by (intro claimed_ok_mono [OF cache_invD(4) [OF inv]] bank_floor_mono)
      (simp_all add: raise_highest_def on_banks_def)
  with inv show ?thesis
    by (simp add: cache_inv_def raise_highest_def on_banks_def banks_ok_def selected_ok_def tokens_ok_def published_ok_def)
qed

lemma retain_banks_inv:
  assumes inv: "cache_inv env H B self"
  shows "cache_inv env H B (retain_banks self)"
proof -
  define bs where "bs = hk_banks (retain_banks self)"
  define f where "f = bank_floor self"
  have bs: "hk_store (retain_banks self) = hk_store self" "bs_session bs = bs_session (hk_banks self)"
    "bs_highest bs = bs_highest (hk_banks self)" "bs_minimum_commitment bs = bs_minimum_commitment (hk_banks self)"
    by (simp_all add: bs_def retain_banks_def Let_def on_banks_def)
  have banks: "hm_get (bs_banks bs) key = (if f \<le> fst key then hm_get (bs_banks (hk_banks self)) key else None)" for key
    by (simp add: bs_def f_def retain_banks_def Let_def on_banks_def hm_gets)
  have selected: "hm_get (bs_selected bs) s = (if f \<le> s then hm_get (bs_selected (hk_banks self)) s else None)" for s
    by (simp add: bs_def f_def retain_banks_def Let_def on_banks_def hm_gets)
  have canonical: "hm_get (bs_canonical bs) s = (if f \<le> s then hm_get (bs_canonical (hk_banks self)) s else None)" for s
    by (simp add: bs_def f_def retain_banks_def Let_def on_banks_def hm_gets)
  have floor: "bank_floor (retain_banks self) = f"
    using bs by (simp add: bank_floor_def bs_def [symmetric] f_def)
  obtain own where own: "tokens_ok H B (hk_banks self) (hk_store self) own"
    using cache_invD(7) [OF inv] by blast
  show ?thesis
  proof (rule cache_invI)
    show "claimed_ok (retain_banks self)"
      using cache_invD(4) [OF inv] by (simp add: claimed_ok_def bs floor bs_def [symmetric] selected f_def)
    show "banks_ok env H B (hk_banks (retain_banks self))"
      using cache_invD(5) [OF inv] by (auto simp: banks_ok_def bs bs_def [symmetric] banks split: if_splits)
    show "selected_ok B (hk_banks (retain_banks self)) (hk_store (retain_banks self))"
      using cache_invD(6) [OF inv] by (simp add: selected_ok_def bs bs_def [symmetric] banks selected)
    show "tokens_ok H B (hk_banks (retain_banks self)) (hk_store (retain_banks self)) own"
      using own by (simp add: tokens_ok_def bs bs_def [symmetric] banks)
    show "published_ok H B (hk_banks (retain_banks self)) (hk_store (retain_banks self))"
      using cache_invD(8) [OF inv] by (simp add: published_ok_def bs bs_def [symmetric] canonical)
  qed (use cache_invD [OF inv] in \<open>simp_all add: bs\<close>)
qed

text \<open>Creating a bank takes a commitment cell nobody uses.\<close>

lemma bank_or_default_fresh:
  "hm_get (bs_banks (hk_banks self)) key = None \<Longrightarrow> bank_or_default key self =
     (self\<lparr>hk_banks := (hk_banks self)\<lparr>bs_banks := hm_insert key (bank_default (st_next_token (hk_store self)))
          (bs_banks (hk_banks self))\<rparr>,
        hk_store := (hk_store self)\<lparr>st_tokens := (st_tokens (hk_store self))(st_next_token (hk_store self) := 0),
          st_next_token := Suc (st_next_token (hk_store self))\<rparr>\<rparr>,
      bank_default (st_next_token (hk_store self)))"
  by (simp add: bank_or_default_def Let_def)

lemma bank_default_ok: "bank_ok env H n key (bank_default t)"
  by (simp add: bank_ok_def bank_default_def)

lemma bank_or_default_frame:
  assumes "bank_or_default key self = (self', b)"
  shows "hm_get (bs_banks (hk_banks self')) key = Some b"
    and "bs_session (hk_banks self') = bs_session (hk_banks self)"
    and "bs_highest (hk_banks self') = bs_highest (hk_banks self)"
    and "bs_minimum_commitment (hk_banks self') = bs_minimum_commitment (hk_banks self)"
    and "bs_selected (hk_banks self') = bs_selected (hk_banks self)"
    and "bs_canonical (hk_banks self') = bs_canonical (hk_banks self)"
    and "bs_discarded (hk_banks self') = bs_discarded (hk_banks self)"
    and "bank_floor self' = bank_floor self"
    and "st_coverage (hk_store self') = st_coverage (hk_store self)"
    and "st_retain_slots (hk_store self') = st_retain_slots (hk_store self)"
  using assms
  by (cases "hm_get (bs_banks (hk_banks self)) key";
      auto simp: bank_or_default_def Let_def hm_gets bank_floor_def)+

lemma bank_or_default_inv:
  assumes inv: "cache_inv env H B self" and eq: "bank_or_default key self = (self', b)"
  shows "cache_inv env H B self'"
proof (cases "hm_get (bs_banks (hk_banks self)) key")
  case (Some b')
  then show ?thesis
    using inv eq by (simp add: bank_or_default_def)
next
  case None
  define t where "t = st_next_token (hk_store self)"
  have self': "self' = self\<lparr>hk_banks := (hk_banks self)\<lparr>bs_banks := hm_insert key (bank_default t) (bs_banks (hk_banks self))\<rparr>,
        hk_store := (hk_store self)\<lparr>st_tokens := (st_tokens (hk_store self))(t := 0), st_next_token := Suc t\<rparr>\<rparr>"
    using eq [unfolded bank_or_default_fresh [OF None], folded t_def] by (elim Pair_inject) (rule sym)
  obtain own where own: "tokens_ok H B (hk_banks self) (hk_store self) own"
    using cache_invD(7) [OF inv] by blast
  have min: "min_retained_slot (hk_store self') = min_retained_slot (hk_store self)"
    by (simp add: self' min_retained_slot_def)
  have "\<exists>own'. tokens_ok H B (hk_banks self') (hk_store self') own'"
  proof (intro exI [of _ "own(t := key)"])
    show "tokens_ok H B (hk_banks self') (hk_store self') (own(t := key))"
      using own unfolding tokens_ok_def t_def [symmetric]
      by (auto simp: self' hm_gets bank_default_def committed_def less_Suc_eq split: if_splits)
  qed
  moreover have "selected_ok B (hk_banks self') (hk_store self')"
    unfolding selected_ok_def
  proof (intro allI impI)
    fix s i
    assume "hm_get (bs_selected (hk_banks self')) s = Some i"
    then have "hm_get (bs_selected (hk_banks self)) s = Some i"
      by (simp add: self')
    then obtain b txs where "hm_get (bs_banks (hk_banks self)) (s, i) = Some b" "bk_transactions b = Some txs"
      "B s = None \<Longrightarrow> s < min_retained_slot (hk_store self)"
      "\<And>c. B s = Some c \<Longrightarrow> ct_bank c = i \<and> ct_txs c = txs \<and> ct_token c = bk_commitment b"
      using selected_okE [OF cache_invD(6) [OF inv]] by blast
    with None show "\<exists>b txs. hm_get (bs_banks (hk_banks self')) (s, i) = Some b \<and> bk_transactions b = Some txs \<and>
        (B s = None \<longrightarrow> s < min_retained_slot (hk_store self')) \<and> (\<forall>c. B s = Some c \<longrightarrow> ct_bank c = i \<and> ct_txs c = txs \<and> ct_token c = bk_commitment b)"
      by (intro exI [of _ b] exI [of _ txs]) (auto simp: self' hm_gets min_retained_slot_def)
  qed
  moreover have "banks_ok env H B (hk_banks self')"
    using cache_invD(5) [OF inv] unfolding banks_ok_def
    by (auto simp: self' hm_gets bank_default_ok)
  moreover have "claimed_ok self'" "published_ok H B (hk_banks self') (hk_store self')"
    using cache_invD(4,8) [OF inv] by (simp_all add: self' claimed_ok_def published_ok_def bank_floor_def)
  ultimately show ?thesis
    using cache_invD(1,2,3) [OF inv] min unfolding cache_inv_def by (simp add: self')
qed

lemma put_bank_inv:
  assumes inv: "cache_inv env H B self" and b: "hm_get (bs_banks (hk_banks self)) key = Some b"
    and ok: "bank_ok env H (bs_session (hk_banks self)) key b'"
    and tok: "bk_commitment b' = bk_commitment b"
    and txs: "\<And>txs. bk_transactions b = Some txs \<Longrightarrow> bk_transactions b' = Some txs"
  shows "cache_inv env H B (put_bank key b' self)"
proof -
  obtain own where own: "tokens_ok H B (hk_banks self) (hk_store self) own"
    using cache_invD(7) [OF inv] by blast
  show ?thesis
  proof (rule cache_invI)
    show "selected_ok B (hk_banks (put_bank key b' self)) (hk_store (put_bank key b' self))"
      unfolding selected_ok_def
    proof (intro allI impI)
      fix s i
      assume "hm_get (bs_selected (hk_banks (put_bank key b' self))) s = Some i"
      then have "hm_get (bs_selected (hk_banks self)) s = Some i"
        by (simp add: put_bank_def)
      then obtain b0 txs0 where b0: "hm_get (bs_banks (hk_banks self)) (s, i) = Some b0" "bk_transactions b0 = Some txs0"
        "B s = None \<Longrightarrow> s < min_retained_slot (hk_store self)"
        "\<And>c. B s = Some c \<Longrightarrow> ct_bank c = i \<and> ct_txs c = txs0 \<and> ct_token c = bk_commitment b0"
        using selected_okE [OF cache_invD(6) [OF inv]] by blast
      show "\<exists>b txs. hm_get (bs_banks (hk_banks (put_bank key b' self))) (s, i) = Some b \<and> bk_transactions b = Some txs \<and>
          (B s = None \<longrightarrow> s < min_retained_slot (hk_store (put_bank key b' self))) \<and> (\<forall>c. B s = Some c \<longrightarrow> ct_bank c = i \<and> ct_txs c = txs \<and> ct_token c = bk_commitment b)"
      proof (cases "(s, i) = key")
        case True
        then show ?thesis
          using b0 b tok txs [of txs0] by (intro exI [of _ b'] exI [of _ txs0]) (auto simp: put_bank_def hm_gets)
      next
        case False
        then show ?thesis
          using b0 by (intro exI [of _ b0] exI [of _ txs0]) (auto simp: put_bank_def hm_gets)
      qed
    qed
    show "tokens_ok H B (hk_banks (put_bank key b' self)) (hk_store (put_bank key b' self)) own"
      using own b tok unfolding tokens_ok_def by (auto simp: put_bank_def hm_gets)
    show "banks_ok env H B (hk_banks (put_bank key b' self))"
      using cache_invD(5) [OF inv] ok unfolding banks_ok_def by (auto simp: put_bank_def hm_gets)
    show "claimed_ok (put_bank key b' self)"
      using cache_invD(4) [OF inv] by (simp add: put_bank_def claimed_ok_def bank_floor_def)
    show "published_ok H B (hk_banks (put_bank key b' self)) (hk_store (put_bank key b' self))"
      using cache_invD(8) [OF inv] by (simp add: put_bank_def published_ok_def)
  qed (use cache_invD [OF inv] in \<open>simp_all add: put_bank_def\<close>)
qed

section \<open>Evolution of the store under a fixed set of banks\<close>

lemma ingest_all_frame [simp]:
  "st_retain_slots (ingest_all env s txs t st) = st_retain_slots st"
  "st_max_per_address (ingest_all env s txs t st) = st_max_per_address st"
  "st_tokens (ingest_all env s txs t st) = st_tokens st"
  "st_next_token (ingest_all env s txs t st) = st_next_token st"
  by (induction txs arbitrary: st) (simp_all add: ingest_all_def)

lemma ingest_all_latest: "st_latest_slot st \<le> st_latest_slot (ingest_all env s txs t st)"
proof (induction txs arbitrary: st)
  case (Cons tx txs)
  have "st_latest_slot st \<le> st_latest_slot (ingest_bank_transaction env s tx (Some t) st)"
    by (rule ingest_latest)
  also have "\<dots> \<le> st_latest_slot (ingest_all env s txs t (ingest_bank_transaction env s tx (Some t) st))"
    by (rule Cons.IH)
  finally show ?case
    by (simp add: ingest_all_def)
qed (simp add: ingest_all_def)

lemma min_retained_mono:
  "st_retain_slots st' = st_retain_slots st \<Longrightarrow> st_latest_slot st \<le> st_latest_slot st' \<Longrightarrow>
   min_retained_slot st \<le> min_retained_slot st'"
  by (simp add: min_retained_slot_def sat_sub_def diff_le_mono)

lemma ingest_all_keeps:
  assumes "store_ok env B st" "index_ok (min_retained_slot st) st"
    and "B s = Some c" "set txs \<subseteq> set (ct_txs c)" "t = ct_token c"
  obtains S where
    "store_ok env (B |` (- S)) (ingest_all env s txs t st)"
    "index_ok (min_retained_slot (ingest_all env s txs t st)) (ingest_all env s txs t st)"
    "hm_get (st_commitment (ingest_all env s txs t st)) = hm_get (st_commitment st) |` (- S)"
    "s \<notin> S" "\<And>x. x \<in> S \<Longrightarrow> x < min_retained_slot (ingest_all env s txs t st)"
  using assms
proof (induction txs arbitrary: B st thesis)
  case Nil
  show ?case
    by (rule Nil.prems(1) [of "{}"]) (use Nil.prems in \<open>simp_all add: ingest_all_def\<close>)
next
  case (Cons tx txs)
  define st1 where "st1 = ingest_bank_transaction env s tx (Some t) st"
  have all: "ingest_all env s (tx # txs) t st = ingest_all env s txs t st1"
    by (simp add: ingest_all_def st1_def)
  obtain S1 where S1: "store_ok env (B |` (- S1)) st1" "index_ok (min_retained_slot st1) st1"
    "hm_get (st_commitment st1) = hm_get (st_commitment st) |` (- S1)" "s \<notin> S1"
    "\<And>x. x \<in> S1 \<Longrightarrow> x < min_retained_slot st1"
    using Cons.prems(4-6)
    by (auto intro: ingest_keeps [OF Cons.prems(2,3), of s c tx "Some t"] simp: st1_def)
  obtain S2 where S2: "store_ok env (B |` (- S1) |` (- S2)) (ingest_all env s txs t st1)"
    "index_ok (min_retained_slot (ingest_all env s txs t st1)) (ingest_all env s txs t st1)"
    "hm_get (st_commitment (ingest_all env s txs t st1)) = hm_get (st_commitment st1) |` (- S2)"
    "s \<notin> S2" "\<And>x. x \<in> S2 \<Longrightarrow> x < min_retained_slot (ingest_all env s txs t st1)"
    by (rule Cons.IH [OF _ S1(1,2)]) (use Cons.prems(4-6) S1(4) in \<open>auto simp: restrict_map_def\<close>)
  have mono: "min_retained_slot st1 \<le> min_retained_slot (ingest_all env s txs t st1)"
    by (rule min_retained_mono) (simp_all add: ingest_all_latest)
  have eq: "f |` (- S1) |` (- S2) = f |` (- (S1 \<union> S2))" for f :: "slot \<Rightarrow> 'x option"
    by (auto simp: restrict_map_def fun_eq_iff)
  show ?case
  proof (rule Cons.prems(1) [of "S1 \<union> S2"])
    show "x < min_retained_slot (ingest_all env s (tx # txs) t st)" if "x \<in> S1 \<union> S2" for x
      using that S1(5) S2(5) mono unfolding all by force
  qed (use S1 S2 in \<open>simp_all add: all eq\<close>)
qed

lemma evolve_inv:
  assumes inv: "cache_inv env H B self"
    and ok: "store_ok env B' st" "index_ok (min_retained_slot st) st"
    and sub: "\<And>x. B' x = B x \<or> B' x = None \<and> x < min_retained_slot st"
    and fr: "st_tokens st = st_tokens (hk_store self)" "st_next_token st = st_next_token (hk_store self)"
      "st_retain_slots st = st_retain_slots (hk_store self)" "st_latest_slot (hk_store self) \<le> st_latest_slot st"
    and cm: "\<And>x cm. hm_get (st_commitment st) x = Some cm \<Longrightarrow>
      hm_get (st_commitment (hk_store self)) x = Some cm \<or>
      hm_get (bs_selected (hk_banks self)) x \<noteq> None \<and>
      (\<forall>c. B x = Some c \<longrightarrow> committed H (bs_session (hk_banks self)) (x, ct_bank c) (rank cm))"
    and dom: "dom B' \<subseteq> dom (hm_get (st_commitment st))"
  shows "cache_inv env H B' (self\<lparr>hk_store := st\<rparr>)"
proof -
  have sub': "B' x = Some c \<Longrightarrow> B x = Some c" for x c
    using sub [of x] by auto
  have floor: "bank_floor self \<le> bank_floor (self\<lparr>hk_store := st\<rparr>)"
    by (rule bank_floor_mono) (simp_all add: fr)
  have min: "min_retained_slot (hk_store self) \<le> min_retained_slot st"
    using fr by (intro min_retained_mono) simp_all
  obtain own where own: "tokens_ok H B (hk_banks self) (hk_store self) own"
    using cache_invD(7) [OF inv] by blast
  show ?thesis
  proof (rule cache_invI)
    show "claimed_ok (self\<lparr>hk_store := st\<rparr>)"
      unfolding claimed_ok_def
    proof (intro allI impI)
      fix x
      assume x: "hm_get (st_commitment (hk_store (self\<lparr>hk_store := st\<rparr>))) x \<noteq> None"
        and "bank_floor (self\<lparr>hk_store := st\<rparr>) \<le> x"
      then have "bank_floor self \<le> x"
        using floor by simp
      then show "hm_get (bs_selected (hk_banks (self\<lparr>hk_store := st\<rparr>))) x \<noteq> None"
        using x cm [of x] cache_invD(4) [OF inv] unfolding claimed_ok_def by fastforce
    qed
    show "banks_ok env H B' (hk_banks (self\<lparr>hk_store := st\<rparr>))"
      using cache_invD(5) [OF inv] sub' unfolding banks_ok_def by simp
    show "tokens_ok H B' (hk_banks (self\<lparr>hk_store := st\<rparr>)) (hk_store (self\<lparr>hk_store := st\<rparr>)) own"
      using own unfolding tokens_ok_def by (auto simp: fr dest!: sub')
    show "published_ok H B' (hk_banks (self\<lparr>hk_store := st\<rparr>)) (hk_store (self\<lparr>hk_store := st\<rparr>))"
      using cache_invD(8) [OF inv] unfolding published_ok_def by (auto dest!: sub' dest: cm)
    show "selected_ok B' (hk_banks (self\<lparr>hk_store := st\<rparr>)) (hk_store (self\<lparr>hk_store := st\<rparr>))"
      unfolding selected_ok_def
    proof (intro allI impI)
      fix x i
      assume "hm_get (bs_selected (hk_banks (self\<lparr>hk_store := st\<rparr>))) x = Some i"
      then obtain b txs where "hm_get (bs_banks (hk_banks self)) (x, i) = Some b" "bk_transactions b = Some txs"
        "B x = None \<Longrightarrow> x < min_retained_slot (hk_store self)"
        "\<And>c. B x = Some c \<Longrightarrow> ct_bank c = i \<and> ct_txs c = txs \<and> ct_token c = bk_commitment b"
        using selected_okE [OF cache_invD(6) [OF inv], of x i] by auto
      then show "\<exists>b txs. hm_get (bs_banks (hk_banks (self\<lparr>hk_store := st\<rparr>))) (x, i) = Some b \<and>
          bk_transactions b = Some txs \<and>
          (B' x = None \<longrightarrow> x < min_retained_slot (hk_store (self\<lparr>hk_store := st\<rparr>))) \<and>
          (\<forall>c. B' x = Some c \<longrightarrow> ct_bank c = i \<and> ct_txs c = txs \<and> ct_token c = bk_commitment b)"
        using sub [of x] min by (intro exI [of _ b] exI [of _ txs]) (auto dest: sub')
    qed
  qed (use ok dom in simp_all)
qed

section \<open>Publication\<close>

lemma committed_rank: "committed H n key r \<Longrightarrow> rank (decode_commitment r) = r"
proof -
  have "rank c \<le> 2" for c
    by (cases c) simp_all
  moreover assume "committed H n key r"
  ultimately have "r \<le> 2"
    unfolding committed_def by force
  then show ?thesis
    by (auto simp: decode_commitment_def)
qed

lemma ingest_all_skip: "s < min_retained_slot st \<Longrightarrow> ingest_all env s txs t st = st"
proof (induction txs)
  case (Cons tx txs)
  have "s < sat_sub (max (st_latest_slot st) s) (sat_sub (st_retain_slots st) 1)"
    using Cons.prems by (auto simp: min_retained_slot_def sat_sub_def max_def)
  then show ?case
    using Cons by (simp add: ingest_all_def ingest_bank_transaction_def Let_def)
qed (simp add: ingest_all_def)

lemma republish_inv:
  assumes inv: "cache_inv env H B self"
    and sel: "hm_get (bs_selected (hk_banks self)) s = Some i"
    and b: "hm_get (bs_banks (hk_banks self)) (s, i) = Some b" "bk_transactions b = Some txs"
    and cm: "cm = decode_commitment (st_tokens (hk_store self) (bk_commitment b))"
  shows "\<exists>B'. cache_inv env H B'
    (on_store (\<lambda>st. note_slot_commitment s cm (ingest_all env s txs (bk_commitment b) st)) self)"
proof -
  define st1 where "st1 = ingest_all env s txs (bk_commitment b) (hk_store self)"
  define st2 where "st2 = note_slot_commitment s cm st1"
  have sel': "B s = None \<Longrightarrow> s < min_retained_slot (hk_store self)"
    "\<And>c. B s = Some c \<Longrightarrow> ct_bank c = i \<and> ct_txs c = txs \<and> ct_token c = bk_commitment b"
    using selected_okE [OF cache_invD(6) [OF inv] sel] b by auto
  have "\<exists>S. store_ok env (B |` (- S)) st1 \<and> index_ok (min_retained_slot st1) st1 \<and>
      hm_get (st_commitment st1) = hm_get (st_commitment (hk_store self)) |` (- S) \<and> s \<notin> S \<and>
      (\<forall>x\<in>S. x < min_retained_slot st1)"
  proof (cases "B s")
    case None
    then have "st1 = hk_store self"
      unfolding st1_def by (intro ingest_all_skip sel'(1))
    then show ?thesis
      using cache_invD(1,2) [OF inv] by (intro exI [of _ "{}"]) simp
  next
    case (Some c)
    then have "set txs \<subseteq> set (ct_txs c)" "bk_commitment b = ct_token c"
      using sel'(2) by auto
    then show ?thesis
      unfolding st1_def by (metis ingest_all_keeps [OF cache_invD(1,2) [OF inv] Some])
  qed
  then obtain S1 where S1: "store_ok env (B |` (- S1)) st1" "index_ok (min_retained_slot st1) st1"
      "hm_get (st_commitment st1) = hm_get (st_commitment (hk_store self)) |` (- S1)" "s \<notin> S1"
      "\<forall>x\<in>S1. x < min_retained_slot st1"
    by blast
  obtain S2 where S2: "store_ok env (B |` (- S1) |` (- S2)) st2" "index_ok (min_retained_slot st2) st2"
      "hm_get (st_commitment st2) = ((hm_get (st_commitment st1))(s \<mapsto> merged_commitment st1 s cm)) |` (- S2)"
      "s \<notin> S2" "\<And>x. x \<in> S2 \<Longrightarrow> x < min_retained_slot st2"
    unfolding st2_def by (rule note_slot_commitment_keeps [OF S1(1,2), of s cm]) blast
  have latest: "st_latest_slot (hk_store self) \<le> st_latest_slot st1" "st_latest_slot st1 \<le> st_latest_slot st2"
    by (simp_all add: st1_def st2_def ingest_all_latest)
  have min: "min_retained_slot st1 \<le> min_retained_slot st2"
    using latest(2) by (intro min_retained_mono) (simp_all add: st2_def)
  have merged: "committed H (bs_session (hk_banks self)) (s, ct_bank c) (rank (merged_commitment st1 s cm))"
    if c: "B s = Some c" for c
  proof -
    obtain own where own: "tokens_ok H B (hk_banks self) (hk_store self) own"
      using cache_invD(7) [OF inv] by blast
    then have "committed H (bs_session (hk_banks self)) (s, i) (st_tokens (hk_store self) (bk_commitment b))"
      using b(1) unfolding tokens_ok_def by blast
    then have "committed H (bs_session (hk_banks self)) (s, ct_bank c) (rank cm)"
      using committed_rank sel'(2) [OF c] by (simp add: cm)
    moreover have "committed H (bs_session (hk_banks self)) (s, ct_bank c) (rank e)"
      if "hm_get (st_commitment st1) s = Some e" for e
      using that c S1(3,4) cache_invD(8) [OF inv] by (auto simp: published_ok_def restrict_map_def)
    ultimately show ?thesis
      by (auto simp: merged_commitment_def split: option.split)
  qed
  have "cache_inv env H (B |` (- S1) |` (- S2)) (self\<lparr>hk_store := st2\<rparr>)"
  proof (rule evolve_inv [OF inv S2(1,2)])
    show "(B |` (- S1) |` (- S2)) x = B x \<or> (B |` (- S1) |` (- S2)) x = None \<and> x < min_retained_slot st2" for x
      using S1(5) S2(5) [of x] min by (auto simp: restrict_map_def)
    show "st_latest_slot (hk_store self) \<le> st_latest_slot st2"
      using latest by linarith
    show "hm_get (st_commitment (hk_store self)) x = Some e \<or>
        hm_get (bs_selected (hk_banks self)) x \<noteq> None \<and>
        (\<forall>c. B x = Some c \<longrightarrow> committed H (bs_session (hk_banks self)) (x, ct_bank c) (rank e))"
      if "hm_get (st_commitment st2) x = Some e" for x e
      using that merged sel by (auto simp: S2(3) S1(3) restrict_map_def split: if_splits)
    show "dom (B |` (- S1) |` (- S2)) \<subseteq> dom (hm_get (st_commitment st2))"
      by (auto simp: S2(3) S1(3) restrict_map_def split: if_splits dest: cache_inv_commitment [OF inv])
  qed (simp_all add: st1_def st2_def)
  then show ?thesis
    by (auto simp: on_store_def st2_def st1_def)
qed

text \<open>Taking the selected bank of a slot back out of the store.\<close>

lemma unselect_inv:
  assumes inv: "cache_inv env H B self"
    and bs: "bs = (hk_banks self)\<lparr>bs_selected := hm_remove s (bs_selected (hk_banks self))\<rparr>"
    and st: "store_ok env (B(s := None)) st" "index_ok (min_retained_slot st) st"
      "hm_get (st_commitment st) = (hm_get (st_commitment (hk_store self)))(s := None)"
      "st_tokens st = st_tokens (hk_store self)" "st_next_token st = st_next_token (hk_store self)"
      "st_retain_slots st = st_retain_slots (hk_store self)" "st_latest_slot st = st_latest_slot (hk_store self)"
  shows "cache_inv env H (B(s := None)) \<lparr>hk_banks = bs, hk_store = st\<rparr>"
proof -
  obtain own where own: "tokens_ok H B (hk_banks self) (hk_store self) own"
    using cache_invD(7) [OF inv] by blast
  have min: "min_retained_slot st = min_retained_slot (hk_store self)"
    and floor: "bank_floor \<lparr>hk_banks = bs, hk_store = st\<rparr> = bank_floor self"
    by (simp_all add: min_retained_slot_def bank_floor_def st bs)
  show ?thesis
  proof (rule cache_invI)
    show "claimed_ok \<lparr>hk_banks = bs, hk_store = st\<rparr>"
      unfolding claimed_ok_def floor using claimed_okD [OF cache_invD(4) [OF inv]]
      by (auto simp: st bs hm_gets)
    show "dom (B(s := None)) \<subseteq> dom (hm_get (st_commitment (hk_store \<lparr>hk_banks = bs, hk_store = st\<rparr>)))"
      using cache_invD(3) [OF inv] by (auto simp: st)
    show "banks_ok env H (B(s := None)) (hk_banks \<lparr>hk_banks = bs, hk_store = st\<rparr>)"
      using cache_invD(5) [OF inv] by (simp add: banks_ok_def bs)
    show "tokens_ok H (B(s := None)) (hk_banks \<lparr>hk_banks = bs, hk_store = st\<rparr>)
        (hk_store \<lparr>hk_banks = bs, hk_store = st\<rparr>) own"
      using own by (simp add: tokens_ok_def bs st)
    show "published_ok H (B(s := None)) (hk_banks \<lparr>hk_banks = bs, hk_store = st\<rparr>)
        (hk_store \<lparr>hk_banks = bs, hk_store = st\<rparr>)"
      using cache_invD(8) [OF inv] by (simp add: published_ok_def bs st)
    show "selected_ok (B(s := None)) (hk_banks \<lparr>hk_banks = bs, hk_store = st\<rparr>)
        (hk_store \<lparr>hk_banks = bs, hk_store = st\<rparr>)"
      using cache_invD(6) [OF inv] by (simp add: selected_ok_def bs hm_gets min)
  qed (use st in simp_all)
qed

lemma selected_ok_extend:
  assumes old: "selected_ok B bs0 st0"
    and bs: "bs = bs0\<lparr>bs_selected := X\<rparr>" "hm_get X = (hm_get (bs_selected bs0))(s \<mapsto> i)"
    and b: "hm_get (bs_banks bs0) (s, i) = Some b" "bk_transactions b = Some txs"
    and c: "B' s = Some c" "ct_bank c = i" "ct_txs c = txs" "ct_token c = bk_commitment b"
    and keep: "\<And>x. x \<noteq> s \<Longrightarrow> B' x = B x \<or> B' x = None \<and> x < min_retained_slot st"
    and min: "min_retained_slot st0 \<le> min_retained_slot st"
  shows "selected_ok B' (hk_banks \<lparr>hk_banks = bs, hk_store = st\<rparr>) (hk_store \<lparr>hk_banks = bs, hk_store = st\<rparr>)"
  unfolding selected_ok_def
proof (intro allI impI)
  fix x j
  assume x: "hm_get (bs_selected (hk_banks \<lparr>hk_banks = bs, hk_store = st\<rparr>)) x = Some j"
  show "\<exists>b txs. hm_get (bs_banks (hk_banks \<lparr>hk_banks = bs, hk_store = st\<rparr>)) (x, j) = Some b \<and>
      bk_transactions b = Some txs \<and>
      (B' x = None \<longrightarrow> x < min_retained_slot (hk_store \<lparr>hk_banks = bs, hk_store = st\<rparr>)) \<and>
      (\<forall>c. B' x = Some c \<longrightarrow> ct_bank c = j \<and> ct_txs c = txs \<and> ct_token c = bk_commitment b)"
  proof (cases "x = s")
    case True
    then show ?thesis
      using x b c by (intro exI [of _ b] exI [of _ txs]) (simp add: bs)
  next
    case False
    then have "hm_get (bs_selected bs0) x = Some j"
      using x by (simp add: bs)
    then obtain b0 txs0 where "hm_get (bs_banks bs0) (x, j) = Some b0" "bk_transactions b0 = Some txs0"
      "B x = None \<Longrightarrow> x < min_retained_slot st0"
      "\<And>c. B x = Some c \<Longrightarrow> ct_bank c = j \<and> ct_txs c = txs0 \<and> ct_token c = bk_commitment b0"
      using selected_okE [OF old] by blast
    then show ?thesis
      using keep [OF False] min False by (intro exI [of _ b0] exI [of _ txs0]) (auto simp: bs(1))
  qed
qed

text \<open>The store after publishing a block at a slot nobody holds.\<close>

lemma publish_store:
  assumes ok: "store_ok env B st0" "index_ok (min_retained_slot st0) st0"
    and free: "B s = None" "hm_get (st_commitment st0) s = None"
    and c: "bm_slot (ct_metadata c) = s"
    and st: "st = note_slot_commitment s cm
      (ingest_all env s (ct_txs c) (ct_token c) (note_block_metadata (ct_metadata c) st0))"
  obtains B' where "store_ok env B' st" "index_ok (min_retained_slot st) st" "B' s = Some c"
    "\<And>x. x \<noteq> s \<Longrightarrow> B' x = B x \<or> B' x = None \<and> x < min_retained_slot st"
    "\<And>x. x \<noteq> s \<Longrightarrow> B' x \<noteq> None \<Longrightarrow> hm_get (st_commitment st) x = hm_get (st_commitment st0) x"
    "\<And>x e. hm_get (st_commitment st) x = Some e \<Longrightarrow>
       x = s \<and> e = cm \<or> x \<noteq> s \<and> hm_get (st_commitment st0) x = Some e"
    "hm_get (st_commitment st) s = Some cm"
proof -
  define m where "m = ct_metadata c"
  define st1 where "st1 = note_block_metadata m st0"
  define B1 where "B1 = B(s \<mapsto> c)"
  have slot: "bm_slot m = s"
    using c by (simp add: m_def)
  note fr1 = note_block_metadata_frame [OF ok(1), of m, unfolded slot, OF free(1)]
  have ok1: "store_ok env B1 st1"
    using note_block_metadata_store [OF ok(1), of m c, unfolded slot, OF free(1) m_def [symmetric]]
    by (simp add: B1_def st1_def)
  have ix1: "index_ok (min_retained_slot st1) st1"
    using ok(2) by (simp add: st1_def fr1 min_retained_slot_def)
  define st2 where "st2 = ingest_all env s (ct_txs c) (ct_token c) st1"
  have "B1 s = Some c"
    by (simp add: B1_def)
  then obtain S1 where S1: "store_ok env (B1 |` (- S1)) st2" "index_ok (min_retained_slot st2) st2"
      "hm_get (st_commitment st2) = hm_get (st_commitment st1) |` (- S1)" "s \<notin> S1"
      "\<And>x. x \<in> S1 \<Longrightarrow> x < min_retained_slot st2"
    unfolding st2_def by (rule ingest_all_keeps [OF ok1 ix1 _ subset_refl refl]) blast
  have st': "st = note_slot_commitment s cm st2"
    by (simp add: st st2_def st1_def m_def)
  obtain S2 where S2: "store_ok env (B1 |` (- S1) |` (- S2)) st" "index_ok (min_retained_slot st) st"
      "hm_get (st_commitment st) = ((hm_get (st_commitment st2))(s \<mapsto> merged_commitment st2 s cm)) |` (- S2)"
      "s \<notin> S2" "\<And>x. x \<in> S2 \<Longrightarrow> x < min_retained_slot st"
    unfolding st' by (rule note_slot_commitment_keeps [OF S1(1,2), of s cm]) blast
  have min: "min_retained_slot st2 \<le> min_retained_slot st"
    by (rule min_retained_mono) (simp_all add: st')
  have merged: "merged_commitment st2 s cm = cm"
    using free(2) by (simp add: merged_commitment_def S1(3) st1_def fr1 restrict_map_def)
  have cmt: "hm_get (st_commitment st) x =
      (if x = s then Some cm else if x \<in> S1 \<union> S2 then None else hm_get (st_commitment st0) x)" for x
    using S1(4) S2(4) by (simp add: S2(3) S1(3) merged st1_def fr1 restrict_map_def)
  have B': "(B1 |` (- S1) |` (- S2)) x = (if x \<in> S1 \<union> S2 then None else (B(s \<mapsto> c)) x)" for x
    by (simp add: B1_def restrict_map_def)
  show thesis
  proof (rule that [OF S2(1,2)])
    show "(B1 |` (- S1) |` (- S2)) s = Some c"
      using S1(4) S2(4) unfolding B' by simp
    show "(B1 |` (- S1) |` (- S2)) x = B x \<or> (B1 |` (- S1) |` (- S2)) x = None \<and> x < min_retained_slot st"
      if "x \<noteq> s" for x
      using that S1(5) [of x] S2(5) [of x] min unfolding B' by auto
    show "hm_get (st_commitment st) x = hm_get (st_commitment st0) x"
      if "x \<noteq> s" "(B1 |` (- S1) |` (- S2)) x \<noteq> None" for x
      using that unfolding B' cmt by (simp split: if_splits)
    show "x = s \<and> e = cm \<or> x \<noteq> s \<and> hm_get (st_commitment st0) x = Some e"
      if "hm_get (st_commitment st) x = Some e" for x e
      using that unfolding cmt by (simp split: if_splits)
    show "hm_get (st_commitment st) s = Some cm"
      by (simp add: cmt)
  qed
qed

lemma publish_store_frame:
  assumes "store_ok env B st0" "B (bm_slot m) = None"
    and "st = note_slot_commitment (bm_slot m) cm (ingest_all env (bm_slot m) txs t (note_block_metadata m st0))"
  shows "st_tokens st = st_tokens st0" "st_next_token st = st_next_token st0"
    and "st_retain_slots st = st_retain_slots st0" "st_latest_slot st0 \<le> st_latest_slot st"
  using ingest_all_latest [of "note_block_metadata m st0" env "bm_slot m" txs t] assms(3)
  by (simp_all add: note_block_metadata_frame [OF assms(1,2)])

lemma content_of_bank:
  assumes "bank_ok env H n (s, i) b" "bk_metadata b = Some m" "bk_transactions b = Some txs"
  shows "content_ok env H n s \<lparr>ct_bank = i, ct_metadata = m, ct_txs = txs, ct_token = t\<rparr>"
  using assms unfolding bank_ok_def content_ok_def by (cases "bk_sealed_hash b") auto

lemma select_inv:
  assumes inv: "cache_inv env H B self"
    and sel: "hm_get (bs_selected (hk_banks self)) s = None" and low: "bank_floor self \<le> s"
    and b: "hm_get (bs_banks (hk_banks self)) (s, i) = Some b" "bk_metadata b = Some m" "bk_transactions b = Some txs"
    and canon: "\<And>w. hm_get (bs_canonical (hk_banks self)) s = Some w \<Longrightarrow> w = i"
    and cm: "cm = decode_commitment (st_tokens (hk_store self) (bk_commitment b))"
    and bs: "bs = (hk_banks self)\<lparr>bs_selected := X\<rparr>" "hm_get X = (hm_get (bs_selected (hk_banks self)))(s \<mapsto> i)"
    and st: "st = note_slot_commitment s cm
      (ingest_all env s txs (bk_commitment b) (note_block_metadata m (hk_store self)))"
  shows "\<exists>B' c. cache_inv env H B' \<lparr>hk_banks = bs, hk_store = st\<rparr> \<and> B' s = Some c \<and> ct_metadata c = m \<and>
    bm_slot m = s"
proof -
  let ?n = "bs_session (hk_banks self)" and ?self = "\<lparr>hk_banks = bs, hk_store = st\<rparr>"
  define c where "c = \<lparr>ct_bank = i, ct_metadata = m, ct_txs = txs, ct_token = bk_commitment b\<rparr>"
  have none: "hm_get (st_commitment (hk_store self)) s = None"
    using claimed_okD [OF cache_invD(4) [OF inv] _ low] sel by (cases "hm_get (st_commitment (hk_store self)) s") auto
  then have free: "B s = None"
    using cache_inv_commitment [OF inv, of s] by (cases "B s") auto
  have bok: "bank_ok env H ?n (s, i) b"
    using cache_invD(5) [OF inv] b(1) unfolding banks_ok_def by blast
  then have slot: "bm_slot m = s"
    using b(2) by (simp add: bank_ok_def)
  obtain own where own: "tokens_ok H B (hk_banks self) (hk_store self) own"
    using cache_invD(7) [OF inv] by blast
  note fr = publish_store_frame [OF cache_invD(1) [OF inv], of m st, unfolded slot, OF free st]
  have "bm_slot (ct_metadata c) = s" "st = note_slot_commitment s cm
      (ingest_all env s (ct_txs c) (ct_token c) (note_block_metadata (ct_metadata c) (hk_store self)))"
    by (simp_all add: c_def slot st)
  then obtain B' where B': "store_ok env B' st" "index_ok (min_retained_slot st) st" "B' s = Some c"
    "\<And>x. x \<noteq> s \<Longrightarrow> B' x = B x \<or> B' x = None \<and> x < min_retained_slot st"
    "\<And>x. x \<noteq> s \<Longrightarrow> B' x \<noteq> None \<Longrightarrow> hm_get (st_commitment st) x = hm_get (st_commitment (hk_store self)) x"
    "\<And>x e. hm_get (st_commitment st) x = Some e \<Longrightarrow>
       x = s \<and> e = cm \<or> x \<noteq> s \<and> hm_get (st_commitment (hk_store self)) x = Some e"
    "hm_get (st_commitment st) s = Some cm"
    using publish_store [OF cache_invD(1,2) [OF inv] free none] by blast
  have com: "committed H ?n (s, i) (rank cm)"
    using own b(1) committed_rank unfolding tokens_ok_def cm by metis
  have B'D: "x = s \<and> d = c \<or> x \<noteq> s \<and> B x = Some d" if "B' x = Some d" for x d
    using that B'(3) B'(4) [of x] by (cases "x = s") auto
  have "cache_inv env H B' ?self"
  proof (rule cache_invI)
    have "bank_floor self \<le> bank_floor ?self"
      using fr by (intro bank_floor_mono) (simp_all add: bs)
    then show "claimed_ok ?self"
      unfolding claimed_ok_def using claimed_okD [OF cache_invD(4) [OF inv]] by (auto simp: bs dest!: B'(6))
    have "x \<in> dom (hm_get (st_commitment st))" if "B' x = Some d" for x d
      using B'D [OF that] B'(5) [of x] B'(7) that cache_inv_commitment [OF inv, of x d] by auto
    then show "dom B' \<subseteq> dom (hm_get (st_commitment (hk_store ?self)))"
      by auto
    show "banks_ok env H B' (hk_banks ?self)"
      using cache_invD(5) [OF inv] content_of_bank [OF bok b(2,3)] unfolding banks_ok_def
      by (auto simp: bs(1) c_def dest!: B'D)
    show "tokens_ok H B' (hk_banks ?self) (hk_store ?self) own"
      using own b(1) unfolding tokens_ok_def by (auto simp: bs(1) fr(1,2) c_def dest!: B'D)
    show "published_ok H B' (hk_banks ?self) (hk_store ?self)"
      using cache_invD(8) [OF inv] com canon unfolding published_ok_def
      by (auto simp: bs(1) c_def dest!: B'D B'(6))
    show "selected_ok B' (hk_banks ?self) (hk_store ?self)"
      by (rule selected_ok_extend [where B = B and B' = B' and c = c, OF cache_invD(6) [OF inv] bs b(1,3) B'(3)])
        (use B'(4) min_retained_mono [OF fr(3,4)] in \<open>auto simp: c_def intro: less_le_trans\<close>)
  qed (use B'(1,2) in simp_all)
  with B'(3) slot show ?thesis
    by (intro exI [of _ B'] exI [of _ c]) (simp add: c_def)
qed

lemma remove_selected_inv:
  assumes inv: "cache_inv env H B self"
  shows "cache_inv env H (B(s := None))
    \<lparr>hk_banks = (hk_banks self)\<lparr>bs_selected := hm_remove s (bs_selected (hk_banks self))\<rparr>,
     hk_store = remove_slot_inner s (hk_store self)\<rparr>"
proof (rule unselect_inv [OF inv refl])
  show "index_ok (min_retained_slot (remove_slot_inner s (hk_store self))) (remove_slot_inner s (hk_store self))"
    using remove_slot_inner_index [OF cache_invD(1,2) [OF inv]] by (simp add: min_retained_slot_def)
qed (simp_all add: remove_slot_inner_store [OF cache_invD(1) [OF inv]] hm_gets)

lemma publish_bank_inv:
  assumes inv: "cache_inv env H B self" and low: "bank_floor self \<le> s"
    and canon: "\<And>w. hm_get (bs_canonical (hk_banks self)) s = Some w \<Longrightarrow> w = i"
  shows "\<exists>B'. cache_inv env H B' (publish_bank env (s, i) self)"
proof (cases "hm_get (bs_banks (hk_banks self)) (s, i)")
  case None
  then show ?thesis
    using inv by (auto simp: publish_bank_def)
next
  case (Some b)
  show ?thesis
  proof (cases "bk_metadata b = None \<or> bk_transactions b = None")
    case True
    then show ?thesis
      using inv Some by (auto simp: publish_bank_def split: option.split)
  next
    case False
    then obtain m txs where b: "bk_metadata b = Some m" "bk_transactions b = Some txs"
      by auto
    define cm where "cm = decode_commitment (st_tokens (hk_store self) (bk_commitment b))"
    define cur where "cur = hm_get (bs_selected (hk_banks self)) s"
    define f where "f = (\<lambda>cov. let cov1 = head_coverage_select_bank (metadata_link m) cov;
        cov2 = head_coverage_publish s cm cov1
      in (case bk_observed_at b of None \<Rightarrow> cov2 | Some at \<Rightarrow> head_coverage_observe s cm at cov2))"
    define st0 where "st0 = (if cur = None then hk_store self else remove_slot_inner s (hk_store self))"
    define st1 where "st1 = note_slot_commitment s cm
      (ingest_all env s txs (bk_commitment b) (note_block_metadata m st0))"
    define bs where "bs = (hk_banks self)\<lparr>bs_selected := hm_insert s i (bs_selected (hk_banks self))\<rparr>"
    have eq: "publish_bank env (s, i) self =
       (if rank cm < bs_minimum_commitment (hk_banks self) then self
        else if cur \<noteq> None \<and> cur \<noteq> Some i \<and> cm = Processed then self
        else if cur = Some i
        then on_store (\<lambda>st. note_slot_commitment s cm (ingest_all env s txs (bk_commitment b) st)) self
        else on_store (on_coverage f) \<lparr>hk_banks = bs, hk_store = st1\<rparr>)"
      by (simp add: publish_bank_def Some b Let_def cm_def [symmetric] cur_def [symmetric] f_def st0_def st1_def
          bs_def on_store_def cong: option.case_cong)
    have "\<exists>B' c. cache_inv env H B' \<lparr>hk_banks = bs, hk_store = st1\<rparr> \<and> B' s = Some c \<and> ct_metadata c = m \<and>
      bm_slot m = s"
    proof (cases cur)
      case None
      then show ?thesis
        using select_inv [OF inv _ low Some b canon cm_def _ _ refl, of bs "hm_insert s i (bs_selected (hk_banks self))"]
        by (simp add: cur_def bs_def st0_def st1_def hm_gets)
    next
      case c: (Some j)
      define self0 where "self0 = \<lparr>hk_banks = (hk_banks self)\<lparr>bs_selected := hm_remove s (bs_selected (hk_banks self))\<rparr>,
        hk_store = remove_slot_inner s (hk_store self)\<rparr>"
      have inv0: "cache_inv env H (B(s := None)) self0"
        unfolding self0_def by (rule remove_selected_inv [OF inv])
      have st0: "st0 = hk_store self0"
        by (simp add: st0_def c self0_def)
      have "bank_floor self0 \<le> s"
        using low by (simp add: bank_floor_def self0_def)
      then show ?thesis
        unfolding st1_def st0
        by (intro select_inv [OF inv0, where X = "hm_insert s i (bs_selected (hk_banks self))" and b = b and i = i])
          (simp_all add: self0_def hm_gets Some b cm_def bs_def canon)
    qed
    then obtain B' c where B': "cache_inv env H B' \<lparr>hk_banks = bs, hk_store = st1\<rparr>" "B' s = Some c"
      "metadata_link (ct_metadata c) = metadata_link m" "lk_slot (metadata_link m) = s"
      by (auto simp: metadata_link_def)
    have "cov_ok B' (f (st_coverage st1))"
      using cov_ok_ops(2) cov_ok_publish [OF cov_ok_select [OF cache_inv_covD [OF B'(1)]]] B'(2-)
      by (simp add: f_def Let_def split: option.split)
    then have "cache_inv env H B' (on_store (on_coverage f) \<lparr>hk_banks = bs, hk_store = st1\<rparr>)"
      by (intro cache_inv_on_coverage B'(1)) simp
    then show ?thesis
      using inv republish_inv [OF inv _ Some b(2) cm_def] by (auto simp: eq cur_def [symmetric])
  qed
qed

lemma publish_bank_frame [simp]:
  "bs_banks (hk_banks (publish_bank env key self)) = bs_banks (hk_banks self)"
  "bs_session (hk_banks (publish_bank env key self)) = bs_session (hk_banks self)"
  "bs_highest (hk_banks (publish_bank env key self)) = bs_highest (hk_banks self)"
  "bs_canonical (hk_banks (publish_bank env key self)) = bs_canonical (hk_banks self)"
  "bs_discarded (hk_banks (publish_bank env key self)) = bs_discarded (hk_banks self)"
  by (simp_all add: publish_bank_def Let_def on_store_def split: option.split)

section \<open>Staging and freezing\<close>

lemma accept_bankD:
  assumes "accept_bank n (s, i) self"
  shows "bs_session (hk_banks self) = n" "bank_floor self \<le> s"
    and "\<And>w. hm_get (bs_canonical (hk_banks self)) s = Some w \<Longrightarrow> w = i"
  using assms by (auto simp: accept_bank_def split: option.splits)

lemma bank_of_inv:
  assumes "cache_inv env H B self" "hm_get (bs_banks (hk_banks self)) key = Some b"
  shows "bank_ok env H (bs_session (hk_banks self)) key b"
  using cache_invD(5) [OF assms(1)] assms(2) unfolding banks_ok_def by blast

lemma raise_highest_frame [simp]:
  "bs_session (hk_banks (raise_highest s self)) = bs_session (hk_banks self)"
  "bs_banks (hk_banks (raise_highest s self)) = bs_banks (hk_banks self)"
  "bs_canonical (hk_banks (raise_highest s self)) = bs_canonical (hk_banks self)"
  "bs_selected (hk_banks (raise_highest s self)) = bs_selected (hk_banks self)"
  "hk_store (raise_highest s self) = hk_store self"
  by (simp_all add: raise_highest_def on_banks_def)

lemma stage_metadata_inv:
  assumes "cache_inv env H B self"
  shows "cache_inv env (H @ [Stage_metadata n i m]) B (stage_bank_metadata n i m self)"
proof (cases "accept_bank n (bm_slot m, i) self")
  case False
  then show ?thesis
    using cache_inv_snoc [OF assms] by (simp add: stage_bank_metadata_def)
next
  case True
  let ?H = "H @ [Stage_metadata n i m]" and ?key = "(bm_slot m, i)"
  obtain self1 b where ent: "bank_or_default ?key (raise_highest (bm_slot m) self) = (self1, b)"
    by fastforce
  note fr = bank_or_default_frame [OF ent]
  have inv: "cache_inv env ?H B self1"
    by (rule bank_or_default_inv [OF raise_highest_inv [OF cache_inv_snoc [OF assms]] ent])
  have n: "bs_session (hk_banks self1) = n"
    using accept_bankD(1) [OF True] fr(2) by simp
  let ?m = "m\<lparr>bm_footer := bk_footer b\<rparr>"
  have "staged ?H n ?key ?m"
    unfolding staged_def by (intro exI [of _ m]) (simp add: same_block_def)
  then have "bank_ok env ?H n ?key (b\<lparr>bk_metadata := Some ?m\<rparr>)"
    if "\<not> (case bk_sealed_hash b of None \<Rightarrow> False | Some h \<Rightarrow> h \<noteq> bm_blockhash m)"
    using that bank_of_inv [OF inv fr(1)] n by (auto simp: bank_ok_def split: option.splits)
  then show ?thesis
    using True inv put_bank_inv [OF inv fr(1)] n
    by (auto simp: stage_bank_metadata_def Let_def ent intro!: retain_banks_inv)
qed

lemma store_ok_footer:
  assumes "store_ok env B st"
  shows "store_ok env B (st\<lparr>st_block_metadata := hm_modify s (\<lambda>m. m\<lparr>bm_footer := f\<rparr>) (st_block_metadata st)\<rparr>)"
proof (rule store_okI, goal_cases)
  case (1 x)
  have "slot_ok B st x"
    by (rule store_slotD [OF assms])
  then show ?case
    by (cases "B x") (auto simp: slot_ok_def hm_gets same_block_def)
next
  case (2 sig meta)
  then show ?case
    by (intro tx_stored_cong [OF store_txD [OF assms]]) simp_all
next
  case (3 x sig)
  then show ?case
    using store_sigsD [OF assms] by simp
next
  case (4 x)
  then show ?case
    using store_distinctD [OF assms] by simp
next
  case 5
  then show ?case
    using store_covD [OF assms] by simp
qed

lemma footer_inv:
  assumes inv: "cache_inv env H B self"
  shows "cache_inv env H B (on_store (\<lambda>st. st\<lparr>st_block_metadata :=
    hm_modify s (\<lambda>m. m\<lparr>bm_footer := f\<rparr>) (st_block_metadata st)\<rparr>) self)"
  using evolve_inv [OF inv store_ok_footer [OF cache_invD(1) [OF inv], of s f]] cache_invD(2,3) [OF inv]
  by (simp add: on_store_def min_retained_slot_def)

lemma stage_footer_inv:
  assumes inv: "cache_inv env H B self"
  shows "cache_inv env H B (stage_bank_footer n s i f self)"
proof (cases "accept_bank n (s, i) self")
  case True
  obtain self1 b where ent: "bank_or_default (s, i) self = (self1, b)"
    by fastforce
  note fr = bank_or_default_frame [OF ent] and inv1 = bank_or_default_inv [OF inv ent]
  define b' where "b' = b\<lparr>bk_metadata := map_option (\<lambda>m. m\<lparr>bm_footer := Some f\<rparr>) (bk_metadata b), bk_footer := Some f\<rparr>"
  have "bank_ok env H (bs_session (hk_banks self1)) (s, i) b'"
    using bank_of_inv [OF inv1 fr(1)] unfolding bank_ok_def b'_def
    by (auto simp: staged_def same_block_def)
  then have "cache_inv env H B (put_bank (s, i) b' self1)"
    by (rule put_bank_inv [OF inv1 fr(1)]) (simp_all add: b'_def)
  with True inv1 show ?thesis
    by (auto simp: stage_bank_footer_def Let_def ent b'_def intro!: retain_banks_inv footer_inv)
qed (simp add: stage_bank_footer_def inv)

lemma stage_entry_inv:
  assumes inv: "cache_inv env H B self"
  shows "cache_inv env H B (stage_bank_entry n e self)"
proof (cases "accept_bank n (eu_slot e, eu_bank_id e) self")
  case True
  obtain self1 b where ent: "bank_or_default (eu_slot e, eu_bank_id e) self = (self1, b)"
    by fastforce
  note fr = bank_or_default_frame [OF ent] and inv1 = bank_or_default_inv [OF inv ent]
  have "bank_ok env H (bs_session (hk_banks self1)) (eu_slot e, eu_bank_id e) (b\<lparr>bk_entries := bk_entries b @ [e]\<rparr>)"
    using bank_of_inv [OF inv1 fr(1)] by (simp add: bank_ok_def)
  then have "cache_inv env H B (put_bank (eu_slot e, eu_bank_id e) (b\<lparr>bk_entries := bk_entries b @ [e]\<rparr>) self1)"
    by (rule put_bank_inv [OF inv1 fr(1)]) simp_all
  with True inv1 show ?thesis
    by (simp add: stage_bank_entry_def Let_def ent)
qed (simp add: stage_bank_entry_def inv)

lemma bad_transaction_iff:
  "\<not> bad_transaction env s n txs is sigs \<longleftrightarrow>
     distinct (map ti_index txs) \<and> distinct (map ti_signature txs) \<and>
     set (map ti_index txs) \<inter> set is = {} \<and> set (map ti_signature txs) \<inter> set sigs = {} \<and>
     (\<forall>tx\<in>set txs. ti_index tx < n \<and> ev_convert env s tx \<noteq> None)"
  by (induction env s n txs "is" sigs rule: bad_transaction.induct) auto

lemma complete_bankD:
  assumes "complete_bank env b s txs"
  obtains m where "bk_metadata b = Some m" "bm_executed_transaction_count m = length txs" "good_txs env s txs"
  using assms bad_transaction_iff [of env s "length txs" txs "[]" "[]"]
  by (auto simp: complete_bank_def good_txs_def split: option.splits if_splits)

lemma freeze_inv:
  assumes "cache_inv env H B self"
  shows "\<exists>B'. cache_inv env (H @ [Freeze n s i h txs]) B' (freeze_bank env n s i h txs self)"
proof (cases "accept_bank n (s, i) self")
  case False
  then show ?thesis
    using cache_inv_snoc [OF assms] by (auto simp: freeze_bank_def)
next
  case True
  let ?H = "H @ [Freeze n s i h txs]"
  obtain self1 b where ent: "bank_or_default (s, i) self = (self1, b)"
    by fastforce
  note fr = bank_or_default_frame [OF ent]
  have inv: "cache_inv env ?H B self1"
    by (rule bank_or_default_inv [OF cache_inv_snoc [OF assms] ent])
  define b' where "b' = b\<lparr>bk_sealed_hash := Some h, bk_transactions := Some txs\<rparr>"
  define go where "go \<longleftrightarrow> bk_sealed_hash b = None \<and> \<not> (case bk_metadata b of None \<Rightarrow> True | Some m \<Rightarrow> bm_blockhash m \<noteq> h) \<and>
    complete_bank env b s txs"
  have eq: "freeze_bank env n s i h txs self =
      (if go then retain_banks (publish_bank env (s, i) (put_bank (s, i) b' self1)) else self1)"
    using True by (auto simp: freeze_bank_def Let_def ent go_def b'_def)
  show ?thesis
  proof (cases go)
    case go: True
    then obtain m where m: "bk_metadata b = Some m" "bm_blockhash m = h" "bm_executed_transaction_count m = length txs"
        "good_txs env s txs"
      by (auto simp: go_def elim!: complete_bankD split: option.splits)
    have old: "bank_ok env ?H (bs_session (hk_banks self1)) (s, i) b"
      by (rule bank_of_inv [OF inv fr(1)])
    moreover have "bs_session (hk_banks self1) = n"
      using accept_bankD(1) [OF True] fr(2) by simp
    ultimately have "bank_ok env ?H (bs_session (hk_banks self1)) (s, i) b'"
      using m by (auto simp: bank_ok_def b'_def sealed_ok_def)
    moreover have "bk_transactions b = None"
      using old go by (simp add: bank_ok_def go_def)
    ultimately have put: "cache_inv env ?H B (put_bank (s, i) b' self1)"
      by (intro put_bank_inv [OF inv fr(1)]) (simp_all add: b'_def)
    have "\<exists>B'. cache_inv env ?H B' (publish_bank env (s, i) (put_bank (s, i) b' self1))"
      by (rule publish_bank_inv [OF put])
        (use accept_bankD [OF True] fr in \<open>simp_all add: put_bank_def bank_floor_def\<close>)
    then show ?thesis
      using go by (auto simp: eq intro: retain_banks_inv)
  qed (use inv in \<open>auto simp: eq\<close>)
qed

section \<open>Commitment\<close>

lemma drop_banks_inv:
  assumes inv: "cache_inv env H B self"
    and same: "bs_session bs = bs_session (hk_banks self)" "bs_highest bs = bs_highest (hk_banks self)"
      "bs_minimum_commitment bs = bs_minimum_commitment (hk_banks self)"
      "bs_selected bs = bs_selected (hk_banks self)" "bs_canonical bs = bs_canonical (hk_banks self)"
    and banks: "\<And>key. hm_get (bs_banks bs) key = (if P key then None else hm_get (bs_banks (hk_banks self)) key)"
    and P: "\<And>s i. P (s, i) \<Longrightarrow> hm_get (bs_selected (hk_banks self)) s \<noteq> Some i"
  shows "cache_inv env H B (self\<lparr>hk_banks := bs\<rparr>)"
proof -
  obtain own where own: "tokens_ok H B (hk_banks self) (hk_store self) own"
    using cache_invD(7) [OF inv] by blast
  show ?thesis
  proof (rule cache_invI)
    show "claimed_ok (self\<lparr>hk_banks := bs\<rparr>)"
      using cache_invD(4) [OF inv] by (simp add: claimed_ok_def bank_floor_def same)
    show "banks_ok env H B (hk_banks (self\<lparr>hk_banks := bs\<rparr>))"
      using cache_invD(5) [OF inv] by (auto simp: banks_ok_def same banks split: if_splits)
    show "tokens_ok H B (hk_banks (self\<lparr>hk_banks := bs\<rparr>)) (hk_store (self\<lparr>hk_banks := bs\<rparr>)) own"
      using own by (auto simp: tokens_ok_def same banks split: if_splits)
    show "published_ok H B (hk_banks (self\<lparr>hk_banks := bs\<rparr>)) (hk_store (self\<lparr>hk_banks := bs\<rparr>))"
      using cache_invD(8) [OF inv] by (simp add: published_ok_def same)
    show "selected_ok B (hk_banks (self\<lparr>hk_banks := bs\<rparr>)) (hk_store (self\<lparr>hk_banks := bs\<rparr>))"
      using cache_invD(6) [OF inv] P by (fastforce simp: selected_ok_def same banks)
  qed (use cache_invD [OF inv] in simp_all)
qed

lemma canonical_inv:
  assumes inv: "cache_inv env H B self" and B: "\<And>c. B s = Some c \<Longrightarrow> ct_bank c = i"
  shows "cache_inv env H B (on_banks (\<lambda>bs. bs\<lparr>bs_canonical := hm_insert s i (bs_canonical bs)\<rparr>) self)"
proof -
  have "published_ok H B ((hk_banks self)\<lparr>bs_canonical := hm_insert s i (bs_canonical (hk_banks self))\<rparr>) (hk_store self)"
    using cache_invD(8) [OF inv] B by (auto simp: published_ok_def hm_gets)
  with inv show ?thesis
    by (simp add: cache_inv_def on_banks_def claimed_ok_def bank_floor_def banks_ok_def selected_ok_def tokens_ok_def)
qed

definition drop_loser :: "bank_key \<Rightarrow> bank_state \<Rightarrow> bank_state" where
  "drop_loser loser bs = bs\<lparr>bs_banks := hm_remove loser (bs_banks bs),
     bs_discarded := hm_insert loser () (bs_discarded bs)\<rparr>"

lemma drop_losers:
  "bs_session (fold drop_loser ks bs) = bs_session bs"
  "bs_highest (fold drop_loser ks bs) = bs_highest bs"
  "bs_minimum_commitment (fold drop_loser ks bs) = bs_minimum_commitment bs"
  "bs_selected (fold drop_loser ks bs) = bs_selected bs"
  "bs_canonical (fold drop_loser ks bs) = bs_canonical bs"
  "hm_get (bs_banks (fold drop_loser ks bs)) key = (if key \<in> set ks then None else hm_get (bs_banks bs) key)"
  by (induction ks arbitrary: bs) (auto simp: drop_loser_def hm_gets)

lemma displace_rivals_eq:
  fixes self s i
  defines "self1 \<equiv> on_banks (\<lambda>bs. bs\<lparr>bs_canonical := hm_insert s i (bs_canonical bs)\<rparr>)
     (if hm_get (bs_selected (hk_banks self)) s \<in> {None, Some i} then self
      else \<lparr>hk_banks = (hk_banks self)\<lparr>bs_selected := hm_remove s (bs_selected (hk_banks self))\<rparr>,
            hk_store = remove_slot_inner s (hk_store self)\<rparr>)"
  shows "displace_rivals (s, i) self = self1\<lparr>hk_banks := fold drop_loser
     (filter (\<lambda>other. fst other = s \<and> other \<noteq> (s, i)) (map fst (bs_banks (hk_banks self)))) (hk_banks self1)\<rparr>"
proof (cases self)
  case (fields bs st)
  then show ?thesis
    by (cases bs) (simp add: displace_rivals_def Let_def self1_def on_banks_def on_store_def
        drop_loser_def [abs_def] split: option.split)
qed

lemma displace_rivals_inv:
  assumes inv: "cache_inv env H B self" and low: "bank_floor self \<le> s"
  shows "\<exists>B'. cache_inv env H B' (displace_rivals (s, i) self)"
proof -
  define self0 where "self0 = (if hm_get (bs_selected (hk_banks self)) s \<in> {None, Some i} then self
      else \<lparr>hk_banks = (hk_banks self)\<lparr>bs_selected := hm_remove s (bs_selected (hk_banks self))\<rparr>,
            hk_store = remove_slot_inner s (hk_store self)\<rparr>)"
  define B0 where "B0 = (if hm_get (bs_selected (hk_banks self)) s \<in> {None, Some i} then B else B(s := None))"
  have inv0: "cache_inv env H B0 self0"
    using inv remove_selected_inv [OF inv, of s] by (simp add: self0_def B0_def)
  have own: "ct_bank c = i" if "B0 s = Some c" for c
  proof (cases "hm_get (bs_selected (hk_banks self)) s")
    case None
    with that show ?thesis
      using claimed_okD [OF cache_invD(4) [OF inv] _ low] cache_inv_commitment [OF inv, of s c]
      by (auto simp: B0_def)
  next
    case (Some j)
    then show ?thesis
      using that selected_okE [OF cache_invD(6) [OF inv] Some] by (auto simp: B0_def split: if_splits)
  qed
  define self1 where "self1 = on_banks (\<lambda>bs. bs\<lparr>bs_canonical := hm_insert s i (bs_canonical bs)\<rparr>) self0"
  have inv1: "cache_inv env H B0 self1"
    unfolding self1_def by (rule canonical_inv [OF inv0 own])
  let ?ks = "filter (\<lambda>other. fst other = s \<and> other \<noteq> (s, i)) (map fst (bs_banks (hk_banks self)))"
  have "hm_get (bs_selected (hk_banks self1)) s \<in> {None, Some i}"
    by (auto simp: self1_def self0_def on_banks_def hm_gets)
  then have "cache_inv env H B0 (self1\<lparr>hk_banks := fold drop_loser ?ks (hk_banks self1)\<rparr>)"
    by (intro drop_banks_inv [OF inv1, where P = "\<lambda>key. key \<in> set ?ks"]) (auto simp: drop_losers)
  then show ?thesis
    unfolding displace_rivals_eq self1_def self0_def by blast
qed

lemma displace_rivals_frame:
  "bs_session (hk_banks (displace_rivals (s, i) self)) = bs_session (hk_banks self)"
  "bank_floor (displace_rivals (s, i) self) = bank_floor self"
  "hm_get (bs_canonical (hk_banks (displace_rivals (s, i) self))) s = Some i"
  by (simp_all add: displace_rivals_eq drop_losers on_banks_def bank_floor_def hm_gets)

lemma raise_token_inv:
  assumes inv: "cache_inv env H B self" and b: "hm_get (bs_banks (hk_banks self)) key = Some b"
    and r: "committed H (bs_session (hk_banks self)) key r"
  shows "cache_inv env H B (on_store (\<lambda>st. st\<lparr>st_tokens := (st_tokens st)
    (bk_commitment b := max (st_tokens (hk_store self) (bk_commitment b)) r)\<rparr>) self)"
proof -
  obtain own where own: "tokens_ok H B (hk_banks self) (hk_store self) own"
    using cache_invD(7) [OF inv] by blast
  then have key: "own (bk_commitment b) = key"
      "committed H (bs_session (hk_banks self)) key (st_tokens (hk_store self) (bk_commitment b))"
    using b unfolding tokens_ok_def by blast+
  have new: "committed H (bs_session (hk_banks self)) key (max (st_tokens (hk_store self) (bk_commitment b)) r)"
    using key(2) r by (simp add: max_def)
  have "tokens_ok H B (hk_banks self) ((hk_store self)\<lparr>st_tokens := (st_tokens (hk_store self))
      (bk_commitment b := max (st_tokens (hk_store self) (bk_commitment b)) r)\<rparr>) own"
    using own key(1) new unfolding tokens_ok_def by (simp del: split_paired_All) metis
  with inv show ?thesis
    unfolding cache_inv_def by (auto simp: on_store_def min_retained_slot_def claimed_ok_def bank_floor_def selected_ok_def published_ok_def)
qed

lemma bank_floor_raise: "bank_floor self \<le> s \<Longrightarrow> bank_floor (raise_highest s self) \<le> s"
  by (auto simp: bank_floor_def raise_highest_def on_banks_def sat_sub_def Let_def max_def)

lemma commit_inv:
  assumes "cache_inv env H B self"
  shows "\<exists>self' B'. commit_bank env n s i c parent now self = Some self' \<and>
    cache_inv env (H @ [Commit n s i c parent now]) B' self'"
proof (cases "accept_bank n (s, i) self")
  case False
  then show ?thesis
    using cache_inv_snoc [OF assms] by (auto simp: commit_bank_def)
next
  case True
  let ?H = "H @ [Commit n s i c parent now]" and ?key = "(s, i)"
  note acc = accept_bankD [OF True]
  define self1 where "self1 = (if c \<noteq> Processed then displace_rivals ?key self else self)"
  have "\<exists>B1. cache_inv env ?H B1 self1"
    using cache_inv_snoc [OF assms] displace_rivals_inv [OF cache_inv_snoc [OF assms] acc(2)]
    unfolding self1_def by (cases "c = Processed") auto
  then obtain B1 where inv1: "cache_inv env ?H B1 self1" ..
  have fr1: "bs_session (hk_banks self1) = n" "bank_floor self1 \<le> s"
    "\<And>w. hm_get (bs_canonical (hk_banks self1)) s = Some w \<Longrightarrow> w = i"
    using acc by (auto simp: self1_def displace_rivals_frame split: if_splits)
  obtain self2 b where ent: "bank_or_default ?key (raise_highest s self1) = (self2, b)"
    by fastforce
  note fr2 = bank_or_default_frame [OF ent]
  have inv2: "cache_inv env ?H B1 self2"
    by (rule bank_or_default_inv [OF raise_highest_inv [OF inv1] ent])
  define previous where "previous = st_tokens (hk_store self2) (bk_commitment b)"
  define self3 where "self3 = on_store (\<lambda>st. st\<lparr>st_tokens :=
      (st_tokens st)(bk_commitment b := max previous (rank c))\<rparr>) self2"
  have "committed ?H (bs_session (hk_banks self2)) ?key (rank c)"
    using fr1(1) fr2(2) unfolding committed_def by auto
  then have inv3: "cache_inv env ?H B1 self3"
    unfolding self3_def previous_def by (rule raise_token_inv [OF inv2 fr2(1)])
  have fr3: "hk_banks self3 = hk_banks self2" "bank_floor self3 = bank_floor self2"
    by (simp_all add: self3_def on_store_def bank_floor_def)
  define b' where "b' = (if bk_observed_at b = None \<or> previous < rank c then b\<lparr>bk_observed_at := Some now\<rparr> else b)"
  have "bank_ok env ?H (bs_session (hk_banks self3)) ?key b'"
    using bank_of_inv [OF inv2 fr2(1)] by (simp add: fr3 b'_def bank_ok_def)
  moreover have "hm_get (bs_banks (hk_banks self3)) ?key = Some b"
    by (simp add: fr3 fr2(1))
  ultimately have put: "cache_inv env ?H B1 (put_bank ?key b' self3)"
    by (intro put_bank_inv [OF inv3, where b = b]) (simp_all add: b'_def)
  define self4 where "self4 = publish_bank env ?key (put_bank ?key b' self3)"
  have "\<exists>B4. cache_inv env ?H B4 self4"
    unfolding self4_def
    by (rule publish_bank_inv [OF put])
      (use fr1 fr2 fr3 bank_floor_raise [OF fr1(2)] in \<open>simp_all add: put_bank_def bank_floor_def\<close>)
  then obtain B4 where inv4: "cache_inv env ?H B4 self4" ..
  have "hm_get (bs_banks (hk_banks self4)) ?key = Some b'"
    by (simp add: self4_def put_bank_def hm_gets)
  moreover have "bk_observed_at b' \<noteq> None"
    by (simp add: b'_def)
  ultimately show ?thesis
    using cache_inv_covD [OF inv4] inv4 True
    unfolding commit_bank_def Let_def self1_def [symmetric] ent prod.case previous_def [symmetric]
      self3_def [symmetric] b'_def [symmetric] self4_def [symmetric]
    by (auto intro!: exI [of _ B4] retain_banks_inv cache_inv_on_coverage cov_ok_ops cov_ok_publish)
qed

section \<open>Discarding and sessions\<close>

lemma discard_inv:
  assumes inv: "cache_inv env H B self"
  shows "\<exists>B'. cache_inv env H B' (discard_bank n s i self)"
proof (cases "bs_session (hk_banks self) = n")
  case True
  let ?drop = "drop_loser (s, i)"
  define self0 where "self0 = (if hm_get (bs_selected (hk_banks self)) s = Some i
    then \<lparr>hk_banks = (hk_banks self)\<lparr>bs_selected := hm_remove s (bs_selected (hk_banks self))\<rparr>,
          hk_store = remove_slot_inner s (on_coverage (head_coverage_invalidate_branch s) (hk_store self))\<rparr>
    else self)"
  have inv': "cache_inv env H B (on_store (on_coverage (head_coverage_invalidate_branch s)) self)"
    by (intro cache_inv_on_coverage inv cov_ok_ops cache_inv_covD [OF inv])
  obtain B0 where inv0: "cache_inv env H B0 self0"
    using inv remove_selected_inv [OF inv', of s]
    unfolding self0_def by (cases "hm_get (bs_selected (hk_banks self)) s = Some i") (auto simp: on_store_def)
  have "hm_get (bs_selected (hk_banks self0)) s \<noteq> Some i"
    by (simp add: self0_def hm_gets)
  then have "cache_inv env H B0 (self0\<lparr>hk_banks := ?drop (hk_banks self0)\<rparr>)"
    by (intro drop_banks_inv [OF inv0, where P = "\<lambda>key. key = (s, i)"]) (auto simp: drop_loser_def hm_gets)
  moreover have "discard_bank n s i self = retain_banks (self0\<lparr>hk_banks := ?drop (hk_banks self0)\<rparr>)"
    using True by (cases self; cases "hk_banks self")
      (auto simp: discard_bank_def Let_def on_banks_def on_store_def drop_loser_def self0_def remove_slot_def)
  ultimately show ?thesis
    by (auto intro: retain_banks_inv)
qed (use inv in \<open>auto simp: discard_bank_def\<close>)

lemma remove_all_slots_ok:
  assumes "cache_inv env H B self"
  shows "store_ok env (\<lambda>_. None) (remove_all_slots (hk_store self))"
    and "index_ok (min_retained_slot (hk_store self)) (remove_all_slots (hk_store self))"
    and "hm_get (st_commitment (remove_all_slots (hk_store self))) = (\<lambda>_. None)"
proof -
  let ?ss = "map fst (st_commitment (hk_store self))"
  have dom: "set ?ss = dom (hm_get (st_commitment (hk_store self)))"
    by (simp add: dom_hm_get)
  have "B |` (- set ?ss) = (\<lambda>_. None)"
    using cache_invD(3) [OF assms] unfolding dom by (auto simp: restrict_map_def fun_eq_iff)
  then show "store_ok env (\<lambda>_. None) (remove_all_slots (hk_store self))"
    using remove_slots_store [OF cache_invD(1) [OF assms], of ?ss] by (simp add: remove_all_slots_def)
  show "index_ok (min_retained_slot (hk_store self)) (remove_all_slots (hk_store self))"
    using remove_slots_index [OF cache_invD(1,2) [OF assms]] by (simp add: remove_all_slots_def)
  have "hm_get (st_commitment (hk_store self)) |` (- set ?ss) = (\<lambda>_. None)"
    unfolding dom by (auto simp: restrict_map_def fun_eq_iff)
  then show "hm_get (st_commitment (remove_all_slots (hk_store self))) = (\<lambda>_. None)"
    by (simp add: remove_all_slots_def remove_slots_commitment)
qed

lemma index_ok_empty:
  assumes "store_ok env (\<lambda>_. None) st" "index_ok lo st" "hm_ok tr"
  shows "index_ok lo' (st\<lparr>st_truncated := tr\<rparr>)"
proof -
  have none: "hm_get (st_meta st) sig = None" for sig
    using store_txD [OF assms(1), of sig] by (cases "hm_get (st_meta st) sig") (auto simp: tx_stored_def)
  then have "set (hm_list (st_sigs_by_address st) a) = {}" for a
    using index_metaD [OF assms(2), of _ a] by fastforce
  with none assms(3) show ?thesis
    by (intro index_okI) simp_all
qed

lemma cache_inv_empty:
  assumes "store_ok env (\<lambda>_. None) st" "index_ok (min_retained_slot st) st"
    and "hm_get (st_commitment st) = (\<lambda>_. None)"
    and "bs_banks bs = []" "bs_selected bs = []" "bs_canonical bs = []"
  shows "cache_inv env H (\<lambda>_. None) \<lparr>hk_banks = bs, hk_store = st\<rparr>"
  using assms by (simp add: cache_inv_def claimed_ok_def banks_ok_def selected_ok_def tokens_ok_def published_ok_def)

lemma start_inv:
  assumes inv: "cache_inv env H B self" and start: "start_bank_session c self = Some (self', n)"
  shows "cache_inv env H (\<lambda>_. None) self'"
proof -
  define st where "st = (remove_all_slots (hk_store self))\<lparr>st_latest_slot := 0, st_truncated := []\<rparr>"
  have self': "self' = on_store (on_coverage head_coverage_connect)
      \<lparr>hk_banks = bank_state_default\<lparr>bs_session := n, bs_minimum_commitment := rank c\<rparr>, hk_store = st\<rparr>"
    using start by (auto simp: start_bank_session_def st_def on_store_def Let_def split: option.splits)
  note all = remove_all_slots_ok [OF inv]
  have "index_ok (min_retained_slot st) (remove_all_slots (hk_store self)\<lparr>st_truncated := []\<rparr>)"
    by (rule index_ok_empty [OF all(1,2)]) simp
  then have "index_ok (min_retained_slot st) st"
    by (subst index_ok_same [where self = "remove_all_slots (hk_store self)\<lparr>st_truncated := []\<rparr>"])
      (simp_all add: st_def)
  then show ?thesis
    unfolding self'
    by (intro cache_inv_on_coverage cache_inv_empty cov_ok_empty) (use all in \<open>simp_all add: st_def bank_state_default_def\<close>)
qed

lemma finish_inv:
  assumes inv: "cache_inv env H B self" and fin: "end_bank_session n self = Some self'"
  shows "\<exists>B'. cache_inv env H B' self'"
proof (cases "bs_session (hk_banks self) = n")
  case False
  then show ?thesis
    using inv fin by (auto simp: end_bank_session_def)
next
  case True
  define st where "st = (remove_all_slots (hk_store self))\<lparr>st_latest_slot := 0\<rparr>"
  obtain n' where self': "self' = on_store (on_coverage head_coverage_disconnect)
      \<lparr>hk_banks = (hk_banks self)\<lparr>bs_session := n', bs_banks := [], bs_selected := [],
          bs_canonical := [], bs_discarded := []\<rparr>, hk_store = st\<rparr>"
    using fin True by (auto simp: end_bank_session_def st_def on_store_def Let_def split: option.splits)
  note all = remove_all_slots_ok [OF inv]
  have "index_ok (min_retained_slot st) (remove_all_slots (hk_store self)
      \<lparr>st_truncated := st_truncated (remove_all_slots (hk_store self))\<rparr>)"
    by (rule index_ok_empty [OF all(1,2) index_hm_okD [OF all(2)]])
  then have "index_ok (min_retained_slot st) st"
    by (simp add: st_def)
  then have "cache_inv env H (\<lambda>_. None) self'"
    unfolding self'
    by (intro cache_inv_on_coverage cache_inv_empty cov_ok_empty) (use all in \<open>simp_all add: st_def\<close>)
  then show ?thesis
    by blast
qed

section \<open>Runs\<close>

lemma apply_inv:
  assumes inv: "cache_inv env H B self" and step: "bank_apply env x self = Some self'"
  shows "\<exists>B'. cache_inv env (H @ [x]) B' self'"
proof -
  note inv' = cache_inv_snoc [OF inv, of x]
  show ?thesis
  proof (cases x)
    case (Start c)
    then obtain n where "start_bank_session c self = Some (self', n)"
      using step by auto
    then show ?thesis
      using start_inv [OF inv'] by blast
  next
    case (Finish n)
    then show ?thesis
      using step finish_inv [OF inv', of n self'] by simp
  next
    case (Stage_metadata n i m)
    then show ?thesis
      using step stage_metadata_inv [OF inv, of n i m] by auto
  next
    case (Stage_footer n s i f)
    then show ?thesis
      using step stage_footer_inv [OF inv', of n s i f] by auto
  next
    case (Stage_entry n e)
    then show ?thesis
      using step stage_entry_inv [OF inv', of n e] by auto
  next
    case (Freeze n s i h txs)
    then show ?thesis
      using step freeze_inv [OF inv, of n s i h txs] by simp
  next
    case (Commit n s i c p now)
    then show ?thesis
      using step commit_inv [OF inv, of n s i c p now] by auto
  next
    case (Discard n s i)
    then show ?thesis
      using step discard_inv [OF inv', of n s i] by simp
  qed
qed

lemma run_inv:
  "cache_inv env H B self \<Longrightarrow> bank_run env ops self = Some self' \<Longrightarrow> \<exists>B'. cache_inv env (H @ ops) B' self'"
proof (induction ops arbitrary: H B self)
  case (Cons x ops)
  obtain self1 where self1: "bank_apply env x self = Some self1" "bank_run env ops self1 = Some self'"
    using Cons.prems(2) by (auto split: option.splits)
  obtain B1 where "cache_inv env (H @ [x]) B1 self1"
    using apply_inv [OF Cons.prems(1) self1(1)] by blast
  from Cons.IH [OF this self1(2)] show ?case
    by simp
qed auto

lemma new_inv: "cache_inv env [] (\<lambda>_. None) (head_cache_new r k)"
  unfolding head_cache_new_def
proof (rule cache_inv_empty)
  show "store_ok env (\<lambda>_. None) (head_store_new r k)"
    by (rule store_okI) (simp_all add: head_store_new_def slot_ok_def hm_list_def cov_ok_empty)
  show "index_ok (min_retained_slot (head_store_new r k)) (head_store_new r k)"
    by (rule index_okI) (simp_all add: head_store_new_def hm_list_def)
qed (simp_all add: head_store_new_def bank_state_default_def fun_eq_iff)

lemma reachable_inv:
  "bank_run env ops (head_cache_new r k) = Some self \<Longrightarrow> \<exists>B. cache_inv env ops B self"
  using run_inv [OF new_inv, of env ops r k self] by simp

end
