(* ===== verification/Head_Proof.thy ===== *)
theory Head_Proof
  imports Head_Serving
begin

text \<open>
  The chain proof against the block store.  \<open>proof_inv\<close> states that a bank the proof trusts at a
  commitment level is shown by the store at that level or a higher one, and that a selected bank has
  reached the commitment its session asks for.  Every bank operation keeps it, so the slots the proof
  vouches for are slots the store can serve.
\<close>

section \<open>The invariant\<close>

definition proof_ok :: "head_store \<Rightarrow> bool" where
  "proof_ok st \<longleftrightarrow>
     head_ok (st_coverage st) \<and>
     (\<forall>s nd cm. valid_node (st_coverage st) s nd \<longrightarrow> nd_commitment nd = Some cm \<longrightarrow>
        (\<exists>e. hm_get (st_commitment st) s = Some e \<and> rank cm \<le> rank e))"

definition selected_min :: "bank_state \<Rightarrow> head_store \<Rightarrow> bool" where
  "selected_min bs st \<longleftrightarrow>
     (\<forall>key b. hm_get (bs_banks bs) key = Some b \<longrightarrow> bk_commitment b < st_next_token st) \<and>
     (\<forall>s i. hm_get (bs_selected bs) s = Some i \<longrightarrow>
        (\<exists>b. hm_get (bs_banks bs) (s, i) = Some b \<and> bk_metadata b \<noteq> None \<and> bk_transactions b \<noteq> None \<and>
           bs_minimum_commitment bs \<le> st_tokens st (bk_commitment b)))"

definition tokens_small :: "head_store \<Rightarrow> bool" where
  "tokens_small st \<longleftrightarrow> (\<forall>t. st_tokens st t \<le> 2)"

definition proof_inv :: "head_cache \<Rightarrow> bool" where
  "proof_inv self \<longleftrightarrow>
     proof_ok (hk_store self) \<and> tokens_small (hk_store self) \<and> selected_min (hk_banks self) (hk_store self)"

lemma selected_minE:
  assumes "selected_min bs st" "hm_get (bs_selected bs) s = Some i"
  obtains b where "hm_get (bs_banks bs) (s, i) = Some b" "bk_metadata b \<noteq> None" "bk_transactions b \<noteq> None"
    "bs_minimum_commitment bs \<le> st_tokens st (bk_commitment b)"
  using assms unfolding selected_min_def by blast

lemma rank_decode: "r \<le> 2 \<Longrightarrow> rank (decode_commitment r) = r"
  by (auto simp: decode_commitment_def)

section \<open>Store writes\<close>

lemma proof_ok_head: "proof_ok st \<Longrightarrow> head_ok (st_coverage st)"
  by (simp add: proof_ok_def)

lemma proof_ok_shrinks:
  assumes "proof_ok st" "shrinks (st_coverage st) (st_coverage st')"
    and "\<And>s nd e. valid_node (st_coverage st') s nd \<Longrightarrow> hm_get (st_commitment st) s = Some e \<Longrightarrow>
      \<exists>e'. hm_get (st_commitment st') s = Some e' \<and> rank e \<le> rank e'"
  shows "proof_ok st'"
  using assms unfolding proof_ok_def shrinks_def by (meson order_trans)

lemma proof_ok_same:
  "proof_ok st \<Longrightarrow> st_coverage st' = st_coverage st \<Longrightarrow> st_commitment st' = st_commitment st \<Longrightarrow> proof_ok st'"
  by (simp add: proof_ok_def)

lemma remove_slot_inner_coverage:
  "st_coverage (remove_slot_inner s st) = head_coverage_retain (st_latest_slot st) (st_retain_slots st)
     (head_coverage_invalidate s (st_coverage st))"
  by simp

lemma proof_ok_remove_slot:
  assumes "proof_ok st"
  shows "proof_ok (remove_slot_inner s st)"
proof (rule proof_ok_shrinks [OF assms shrinks_remove_slot [OF proof_ok_head [OF assms]]])
  fix x nd e
  assume v: "valid_node (st_coverage (remove_slot_inner s st)) x nd" and e: "hm_get (st_commitment st) x = Some e"
  have hd: "head_ok (head_coverage_invalidate s (st_coverage st))"
    using shrinks_invalidate(1) [OF proof_ok_head [OF assms]] by (simp add: shrinks_def)
  have "x \<noteq> s"
    using v shrinks_invalidate(2) [OF proof_ok_head [OF assms], of s] shrinks_ops(1) [OF hd]
    unfolding shrinks_def remove_slot_inner_coverage by blast
  with e show "\<exists>e'. hm_get (st_commitment (remove_slot_inner s st)) x = Some e' \<and> rank e \<le> rank e'"
    by (simp add: hm_gets)
qed

lemma proof_ok_remove_slots: "proof_ok st \<Longrightarrow> proof_ok (fold remove_slot_inner ss st)"
  by (induction ss arbitrary: st) (simp_all add: proof_ok_remove_slot)

lemma proof_ok_evict: "proof_ok st \<Longrightarrow> proof_ok (evict_old_slots st)"
  using proof_ok_same [OF proof_ok_remove_slots]
  by (simp add: evict_old_slots_def Let_def)

lemma proof_ok_note_commitment:
  assumes "proof_ok st"
  shows "proof_ok (note_slot_commitment s c st)"
proof -
  define st' where "st' = st\<lparr>st_latest_slot := max (st_latest_slot st) s,
     st_commitment := hm_insert s (merged_commitment st s c) (st_commitment st)\<rparr>"
  have "proof_ok st'"
  proof (rule proof_ok_shrinks [OF assms])
    show "shrinks (st_coverage st) (st_coverage st')"
      by (simp add: st'_def shrinks_refl proof_ok_head [OF assms])
    show "\<exists>e'. hm_get (st_commitment st') x = Some e' \<and> rank e \<le> rank e'"
      if "hm_get (st_commitment st) x = Some e" for x e
      using that by (auto simp: st'_def hm_gets merged_commitment_def commitment_meets_def)
  qed
  moreover have "note_slot_commitment s c st = (if st_latest_slot st < s then evict_old_slots st' else st')"
    by (simp add: note_slot_commitment_def st'_def merged_commitment_def)
  ultimately show ?thesis
    by (simp add: proof_ok_evict)
qed

lemma rank_merged: "rank c \<le> rank (merged_commitment st s c)"
  by (simp add: merged_commitment_def commitment_meets_def split: option.split)

lemma note_commitment_reached:
  "\<exists>e. hm_get (st_commitment (note_slot_commitment s c st)) s = Some e \<and> rank c \<le> rank e"
  using rank_merged [of c st s]
  by (auto simp: note_slot_commitment_def Let_def evict_old_slots_def remove_slots_commitment min_retained_slot_def
      merged_commitment_def sat_sub_def hm_gets)

lemma proof_ok_ingest:
  assumes "proof_ok st"
  shows "proof_ok (ingest_bank_transaction env s tx t st)"
proof (rule ingest_cases [of env s tx t st])
  fix r0 r self2
  assume "self2 = store_transaction (ti_signature tx) (stored_meta env s tx t r) r s
       (sat_sub (max (st_latest_slot st) s) (sat_sub (st_retain_slots st) 1)) (released (ti_signature tx) st)"
    and eq: "ingest_bank_transaction env s tx t st =
         (if st_latest_slot st < s then evict_old_slots (self2\<lparr>st_latest_slot := s\<rparr>) else self2)"
  then have "proof_ok self2"
    by (intro proof_ok_same [OF assms]) simp_all
  then show ?thesis
    using proof_ok_evict [of "self2\<lparr>st_latest_slot := s\<rparr>"] proof_ok_same [of self2] by (simp add: eq)
qed (simp add: assms)

lemma proof_ok_ingest_all: "proof_ok st \<Longrightarrow> proof_ok (ingest_all env s txs t st)"
  unfolding ingest_all_def by (induction txs arbitrary: st) (simp_all add: proof_ok_ingest)

lemma backfill_frame:
  fixes bt sigs
  defines "f \<equiv> fold (\<lambda>sig st. backfill_meta_block_time sig bt (backfill_transaction_block_time sig bt st)) sigs"
  shows "st_coverage (f st) = st_coverage st" "st_commitment (f st) = st_commitment st"
    and "st_tokens (f st) = st_tokens st" "st_next_token (f st) = st_next_token st"
  unfolding f_def by (induction sigs arbitrary: st)
    (simp_all add: backfill_meta_block_time_def backfill_transaction_block_time_def split: option.split)

lemma note_metadata_frame:
  "st_coverage (note_block_metadata m st) = st_coverage st"
  "st_commitment (note_block_metadata m st) = st_commitment st"
  "st_tokens (note_block_metadata m st) = st_tokens st"
  "st_next_token (note_block_metadata m st) = st_next_token st"
  by (simp_all add: note_block_metadata_def Let_def backfill_slot_block_time_def backfill_frame split: option.split)

lemma proof_ok_metadata: "proof_ok st \<Longrightarrow> proof_ok (note_block_metadata m st)"
  by (rule proof_ok_same) (simp_all add: note_metadata_frame)

section \<open>Operations on the chain proof\<close>

lemma proof_ok_coverage:
  "proof_ok st \<Longrightarrow> shrinks (st_coverage st) (f (st_coverage st)) \<Longrightarrow> proof_ok (on_coverage f st)"
  by (erule proof_ok_shrinks) simp_all

lemma proof_ok_ops:
  assumes "proof_ok st"
  shows "proof_ok (on_coverage (head_coverage_retain s n) st)" "proof_ok (on_coverage (head_coverage_observe s cm now) st)"
    and "proof_ok (on_coverage (head_coverage_validate_parent s p) st)"
    and "proof_ok (on_coverage (head_coverage_invalidate_branch s) st)"
  by (rule proof_ok_coverage [OF assms], rule shrinks_ops shrinks_invalidate_branch, rule proof_ok_head [OF assms])+

lemma proof_ok_publish:
  assumes "proof_ok st" "hm_get (st_commitment st) s = Some e" "rank c \<le> rank e"
  shows "proof_ok (on_coverage (head_coverage_publish s c) st)"
proof -
  have "\<exists>e. hm_get (st_commitment st) x = Some e \<and> rank cm \<le> rank e"
    if v: "valid_node (head_coverage_publish s c (st_coverage st)) x nd'" and cm: "nd_commitment nd' = Some cm" for x nd' cm
    using valid_publish [OF proof_ok_head [OF assms(1)] v] cm assms unfolding proof_ok_def by fastforce
  then show ?thesis
    using head_ok_ops(5) [OF proof_ok_head [OF assms(1)]] by (simp add: proof_ok_def)
qed

lemma proof_ok_select:
  assumes "proof_ok st"
  shows "proof_ok (on_coverage (head_coverage_select_bank l) st)"
proof -
  have "\<exists>e. hm_get (st_commitment st) x = Some e \<and> rank cm \<le> rank e"
    if v: "valid_node (head_coverage_select_bank l (st_coverage st)) x nd" and cm: "nd_commitment nd = Some cm" for x nd cm
    using valid_select [OF proof_ok_head [OF assms] v] cm assms unfolding proof_ok_def
    by (auto simp: node_default_def)
  then show ?thesis
    using head_ok_ops(7) [OF proof_ok_head [OF assms]] by (simp add: proof_ok_def)
qed

section \<open>Bank operations\<close>

lemma proof_invD:
  assumes "proof_inv self"
  shows "proof_ok (hk_store self)" "tokens_small (hk_store self)" "selected_min (hk_banks self) (hk_store self)"
  using assms by (simp_all add: proof_inv_def)

lemma proof_inv_store:
  assumes "proof_inv self" "proof_ok (f (hk_store self))"
    and "st_tokens (f (hk_store self)) = st_tokens (hk_store self)"
    and "st_next_token (f (hk_store self)) = st_next_token (hk_store self)"
  shows "proof_inv (on_store f self)"
  using assms by (simp add: proof_inv_def on_store_def tokens_small_def selected_min_def)

lemma proof_inv_retain: "proof_inv self \<Longrightarrow> proof_inv (retain_banks self)"
  unfolding proof_inv_def retain_banks_def Let_def on_banks_def selected_min_def by (auto simp: hm_gets)

lemma proof_inv_highest: "proof_inv self \<Longrightarrow> proof_inv (raise_highest s self)"
  by (simp add: proof_inv_def raise_highest_def on_banks_def selected_min_def)

lemma proof_inv_or_default:
  assumes inv: "proof_inv self" and ent: "bank_or_default key self = (self', b)"
  shows "proof_inv self'"
proof (cases "hm_get (bs_banks (hk_banks self)) key")
  case None
  define t where "t = st_next_token (hk_store self)"
  have self': "self' = self\<lparr>hk_banks := (hk_banks self)\<lparr>bs_banks := hm_insert key (bank_default t) (bs_banks (hk_banks self))\<rparr>,
        hk_store := (hk_store self)\<lparr>st_tokens := (st_tokens (hk_store self))(t := 0), st_next_token := Suc t\<rparr>\<rparr>"
    using arg_cong [OF bank_or_default_fresh [OF None], of fst] by (simp add: ent t_def)
  note inv' = proof_invD [OF inv]
  have low: "bk_commitment b < t" if "hm_get (bs_banks (hk_banks self)) k = Some b" for k b
    using inv'(3) that unfolding selected_min_def t_def by blast
  have "proof_ok (hk_store self')"
    by (rule proof_ok_same [OF inv'(1)]) (simp_all add: self')
  moreover have "tokens_small (hk_store self')"
    using inv'(2) by (simp add: tokens_small_def self')
  moreover have "selected_min (hk_banks self') (hk_store self')"
    unfolding selected_min_def
  proof (intro conjI allI impI)
    fix k b
    assume "hm_get (bs_banks (hk_banks self')) k = Some b"
    then show "bk_commitment b < st_next_token (hk_store self')"
      using low [of k b] by (auto simp: self' hm_gets bank_default_def split: if_splits)
  next
    fix s i
    assume "hm_get (bs_selected (hk_banks self')) s = Some i"
    then have "hm_get (bs_selected (hk_banks self)) s = Some i"
      by (simp add: self')
    then obtain b where b: "hm_get (bs_banks (hk_banks self)) (s, i) = Some b" "bk_metadata b \<noteq> None"
      "bk_transactions b \<noteq> None" "bs_minimum_commitment (hk_banks self) \<le> st_tokens (hk_store self) (bk_commitment b)"
      using selected_minE [OF inv'(3)] by blast
    then show "\<exists>b. hm_get (bs_banks (hk_banks self')) (s, i) = Some b \<and> bk_metadata b \<noteq> None \<and> bk_transactions b \<noteq> None \<and>
        bs_minimum_commitment (hk_banks self') \<le> st_tokens (hk_store self') (bk_commitment b)"
      using low [OF b(1)] None by (intro exI [of _ b]) (auto simp: self' hm_gets)
  qed
  ultimately show ?thesis
    by (simp add: proof_inv_def)
qed (use inv ent in \<open>simp add: bank_or_default_def\<close>)

lemma proof_inv_put:
  assumes inv: "proof_inv self" and b: "hm_get (bs_banks (hk_banks self)) key = Some b"
    and same: "bk_commitment b' = bk_commitment b" "bk_metadata b \<noteq> None \<Longrightarrow> bk_metadata b' \<noteq> None"
      "bk_transactions b \<noteq> None \<Longrightarrow> bk_transactions b' \<noteq> None"
  shows "proof_inv (put_bank key b' self)"
proof -
  have "selected_min (hk_banks (put_bank key b' self)) (hk_store self)"
    unfolding selected_min_def
  proof (intro conjI allI impI)
    fix k x
    assume "hm_get (bs_banks (hk_banks (put_bank key b' self))) k = Some x"
    then obtain y where "hm_get (bs_banks (hk_banks self)) k = Some y" "bk_commitment x = bk_commitment y"
      using b same(1) by (auto simp: put_bank_def hm_gets split: if_splits)
    then show "bk_commitment x < st_next_token (hk_store self)"
      using proof_invD(3) [OF inv] unfolding selected_min_def by metis
  next
    fix s i
    assume "hm_get (bs_selected (hk_banks (put_bank key b' self))) s = Some i"
    then have "hm_get (bs_selected (hk_banks self)) s = Some i"
      by (simp add: put_bank_def)
    then obtain x where "hm_get (bs_banks (hk_banks self)) (s, i) = Some x" "bk_metadata x \<noteq> None"
      "bk_transactions x \<noteq> None" "bs_minimum_commitment (hk_banks self) \<le> st_tokens (hk_store self) (bk_commitment x)"
      using selected_minE [OF proof_invD(3) [OF inv]] by blast
    then show "\<exists>x. hm_get (bs_banks (hk_banks (put_bank key b' self))) (s, i) = Some x \<and> bk_metadata x \<noteq> None \<and>
        bk_transactions x \<noteq> None \<and>
        bs_minimum_commitment (hk_banks (put_bank key b' self)) \<le> st_tokens (hk_store self) (bk_commitment x)"
      using same b by (intro exI [of _ "if (s, i) = key then b' else x"]) (auto simp: put_bank_def hm_gets)
  qed
  then show ?thesis
    using inv by (simp add: proof_inv_def put_bank_def)
qed

lemma proof_inv_token:
  assumes inv: "proof_inv self" and r: "r \<le> 2"
  shows "proof_inv (on_store (\<lambda>st. st\<lparr>st_tokens := (st_tokens st)(t := max (st_tokens (hk_store self) t) r)\<rparr>) self)"
proof -
  have "st_tokens (hk_store self) x \<le> ((st_tokens (hk_store self))(t := max (st_tokens (hk_store self) t) r)) x" for x
    by simp
  then have "selected_min (hk_banks self) ((hk_store self)\<lparr>st_tokens :=
      (st_tokens (hk_store self))(t := max (st_tokens (hk_store self) t) r)\<rparr>)"
    using proof_invD(3) [OF inv] unfolding selected_min_def by (simp del: fun_upd_apply) (meson order_trans)
  then show ?thesis
    using proof_ok_same [OF proof_invD(1) [OF inv]] proof_invD(2) [OF inv] r
    by (simp add: proof_inv_def on_store_def tokens_small_def)
qed

lemma proof_inv_unselect:
  assumes "proof_inv self" "proof_ok st" "st_tokens st = st_tokens (hk_store self)"
    "st_next_token st = st_next_token (hk_store self)"
  shows "proof_inv \<lparr>hk_banks = (hk_banks self)\<lparr>bs_selected := hm_remove s (bs_selected (hk_banks self))\<rparr>, hk_store = st\<rparr>"
  using assms unfolding proof_inv_def tokens_small_def selected_min_def by (simp add: hm_gets)

lemma proof_inv_remove_selected:
  "proof_inv self \<Longrightarrow> proof_inv
     \<lparr>hk_banks = (hk_banks self)\<lparr>bs_selected := hm_remove s (bs_selected (hk_banks self))\<rparr>,
      hk_store = remove_slot_inner s (hk_store self)\<rparr>"
  by (rule proof_inv_unselect) (simp_all add: proof_ok_remove_slot proof_invD)

text \<open>Publishing a bank: the slot shows at least the commitment of the bank if the bank is selected.\<close>

lemma proof_inv_select:
  assumes inv: "proof_inv self" and b: "hm_get (bs_banks (hk_banks self)) (s, i) = Some b"
    and full: "bk_metadata b \<noteq> None" "bk_transactions b \<noteq> None"
    and min: "bs_minimum_commitment (hk_banks self) \<le> st_tokens (hk_store self) (bk_commitment b)"
    and X: "hm_get X = (hm_get (bs_selected (hk_banks self)))(s \<mapsto> i)"
    and st: "proof_ok st" "st_tokens st = st_tokens (hk_store self)" "st_next_token st = st_next_token (hk_store self)"
  shows "proof_inv \<lparr>hk_banks = (hk_banks self)\<lparr>bs_selected := X\<rparr>, hk_store = st\<rparr>"
  using assms unfolding proof_inv_def tokens_small_def selected_min_def by auto

lemma proof_inv_publish:
  assumes inv: "proof_inv self"
  shows "proof_inv (publish_bank env (s, i) self)"
    and "hm_get (bs_selected (hk_banks (publish_bank env (s, i) self))) s = Some i \<Longrightarrow>
      hm_get (bs_banks (hk_banks self)) (s, i) = Some b \<Longrightarrow>
      \<exists>e. hm_get (st_commitment (hk_store (publish_bank env (s, i) self))) s = Some e \<and>
        st_tokens (hk_store self) (bk_commitment b) \<le> rank e"
proof -
  let ?P = "publish_bank env (s, i) self"
  let ?r = "\<lambda>b. st_tokens (hk_store self) (bk_commitment b)"
  define cur where "cur = hm_get (bs_selected (hk_banks self)) s"
  have "proof_inv ?P \<and> (\<forall>b. hm_get (bs_selected (hk_banks ?P)) s = Some i \<longrightarrow>
      hm_get (bs_banks (hk_banks self)) (s, i) = Some b \<longrightarrow>
      (\<exists>e. hm_get (st_commitment (hk_store ?P)) s = Some e \<and> ?r b \<le> rank e))"
  proof (cases "\<exists>b m txs. hm_get (bs_banks (hk_banks self)) (s, i) = Some b \<and> bk_metadata b = Some m \<and>
      bk_transactions b = Some txs")
    case False
    then have "?P = self"
      by (auto simp: publish_bank_def split: option.split)
    moreover have "cur \<noteq> Some i"
    proof
      assume "cur = Some i"
      then obtain b where "hm_get (bs_banks (hk_banks self)) (s, i) = Some b" "bk_metadata b \<noteq> None"
        "bk_transactions b \<noteq> None"
        unfolding cur_def by (rule selected_minE [OF proof_invD(3) [OF inv]])
      with False show False
        by blast
    qed
    ultimately show ?thesis
      using inv by (simp add: cur_def)
  next
    case True
    then obtain b m txs where b: "hm_get (bs_banks (hk_banks self)) (s, i) = Some b" "bk_metadata b = Some m"
      "bk_transactions b = Some txs"
      by blast
    define cm where "cm = decode_commitment (?r b)"
    have rank: "rank cm = ?r b"
      using proof_invD(2) [OF inv] by (simp add: cm_def rank_decode tokens_small_def)
    define f where "f = (\<lambda>cov. let cov1 = head_coverage_select_bank (metadata_link m) cov;
        cov2 = head_coverage_publish s cm cov1
      in (case bk_observed_at b of None \<Rightarrow> cov2 | Some at \<Rightarrow> head_coverage_observe s cm at cov2))"
    define noted where "noted = (\<lambda>st. note_slot_commitment s cm (ingest_all env s txs (bk_commitment b) st))"
    define st0 where "st0 = (if cur = None then hk_store self else remove_slot_inner s (hk_store self))"
    define st1 where "st1 = noted (note_block_metadata m st0)"
    define X where "X = hm_insert s i (bs_selected (hk_banks self))"
    have eq: "?P =
       (if ?r b < bs_minimum_commitment (hk_banks self) then self
        else if cur \<noteq> None \<and> cur \<noteq> Some i \<and> cm = Processed then self
        else if cur = Some i then on_store noted self
        else \<lparr>hk_banks = (hk_banks self)\<lparr>bs_selected := X\<rparr>, hk_store = on_coverage f st1\<rparr>)"
      by (simp add: publish_bank_def b Let_def cm_def [symmetric] cur_def [symmetric] f_def st0_def st1_def
          X_def noted_def on_store_def rank cong: option.case_cong)
    have reach: "\<exists>e. hm_get (st_commitment (noted st)) s = Some e \<and> ?r b \<le> rank e" for st
      using note_commitment_reached [of s cm] by (simp add: noted_def rank)
    have ok: "proof_ok st0" "proof_ok st1" "proof_ok (noted (hk_store self))"
      using proof_invD(1) [OF inv]
      by (simp_all add: st0_def st1_def noted_def proof_ok_remove_slot proof_ok_note_commitment proof_ok_ingest_all
          proof_ok_metadata)
    obtain e where e: "hm_get (st_commitment st1) s = Some e" "?r b \<le> rank e"
      using reach [of "note_block_metadata m st0"] by (auto simp: st1_def)
    have "proof_ok (on_coverage (head_coverage_publish s cm) (on_coverage (head_coverage_select_bank (metadata_link m)) st1))"
      by (rule proof_ok_publish [OF proof_ok_select [OF ok(2)]]) (use e in \<open>simp_all add: rank\<close>)
    then have ok1: "proof_ok (on_coverage f st1)"
      using proof_ok_ops(2) unfolding f_def Let_def by (cases "bk_observed_at b") (fastforce simp: on_coverage_def)+
    have new: "proof_inv \<lparr>hk_banks = (hk_banks self)\<lparr>bs_selected := X\<rparr>, hk_store = on_coverage f st1\<rparr>"
      if "bs_minimum_commitment (hk_banks self) \<le> ?r b"
    proof (rule proof_inv_select [OF inv b(1) _ _ that])
      show "hm_get X = (hm_get (bs_selected (hk_banks self)))(s \<mapsto> i)"
        by (rule ext) (simp add: X_def hm_gets)
      show "proof_ok (on_coverage f st1)"
        by (rule ok1)
    qed (simp_all add: b st1_def noted_def st0_def note_metadata_frame)
    have again: "proof_inv (on_store noted self)"
      by (rule proof_inv_store [OF inv]) (simp_all add: ok(3), simp_all add: noted_def)
    show ?thesis
    proof (cases "cur = Some i")
      case True
      then have "\<not> ?r b < bs_minimum_commitment (hk_banks self)"
        using selected_minE [OF proof_invD(3) [OF inv], of s i] b(1) unfolding cur_def by fastforce
      with True have "?P = on_store noted self"
        unfolding eq by simp
      then show ?thesis
        using again reach [of "hk_store self"] b(1) by (simp add: on_store_def)
    next
      case False
      then consider "?P = self"
        | "?P = \<lparr>hk_banks = (hk_banks self)\<lparr>bs_selected := X\<rparr>, hk_store = on_coverage f st1\<rparr>"
            "bs_minimum_commitment (hk_banks self) \<le> ?r b"
        unfolding eq by (meson leI)
      then show ?thesis
        by cases (use inv False new e b(1) in \<open>simp_all add: cur_def\<close>)
    qed
  qed
  then show "proof_inv ?P" and "hm_get (bs_selected (hk_banks ?P)) s = Some i \<Longrightarrow>
      hm_get (bs_banks (hk_banks self)) (s, i) = Some b \<Longrightarrow>
      \<exists>e. hm_get (st_commitment (hk_store ?P)) s = Some e \<and> ?r b \<le> rank e"
    by blast+
qed

lemma proof_inv_entry:
  assumes "proof_inv self" "bank_or_default key self = (self', b)" "bk_commitment b' = bk_commitment b"
    and "bk_metadata b \<noteq> None \<Longrightarrow> bk_metadata b' \<noteq> None" "bk_transactions b \<noteq> None \<Longrightarrow> bk_transactions b' \<noteq> None"
  shows "proof_inv (put_bank key b' self')"
  using proof_inv_put [OF proof_inv_or_default [OF assms(1,2)] bank_or_default_frame(1) [OF assms(2)]] assms(3-) by blast

lemma proof_inv_stage_metadata:
  assumes inv: "proof_inv self"
  shows "proof_inv (stage_bank_metadata n i m self)"
proof -
  obtain self1 b where ent: "bank_or_default (bm_slot m, i) (raise_highest (bm_slot m) self) = (self1, b)"
    by fastforce
  note hi = proof_inv_highest [OF inv, of "bm_slot m"]
  show ?thesis
    using inv proof_inv_or_default [OF hi ent] proof_inv_entry [OF hi ent, of "b\<lparr>bk_metadata := Some (m\<lparr>bm_footer := bk_footer b\<rparr>)\<rparr>"]
    by (auto simp: stage_bank_metadata_def Let_def ent intro: proof_inv_retain)
qed

lemma proof_inv_stage_footer:
  assumes inv: "proof_inv self"
  shows "proof_inv (stage_bank_footer n s i f self)"
proof -
  obtain self1 b where ent: "bank_or_default (s, i) self = (self1, b)"
    by fastforce
  define b' where "b' = b\<lparr>bk_metadata := map_option (\<lambda>m. m\<lparr>bm_footer := Some f\<rparr>) (bk_metadata b), bk_footer := Some f\<rparr>"
  define self2 where "self2 = put_bank (s, i) b' self1"
  have put: "proof_inv self2"
    unfolding self2_def by (rule proof_inv_entry [OF inv ent]) (simp_all add: b'_def)
  have "proof_inv (on_store (\<lambda>st. st\<lparr>st_block_metadata :=
      hm_modify s (\<lambda>m. m\<lparr>bm_footer := Some f\<rparr>) (st_block_metadata st)\<rparr>) self2)"
    by (rule proof_inv_store [OF put]) (simp_all add: proof_ok_same [OF proof_invD(1) [OF put]])
  then show ?thesis
    using inv put proof_inv_or_default [OF inv ent] unfolding self2_def b'_def
    by (auto simp: stage_bank_footer_def Let_def ent intro!: proof_inv_retain)
qed

lemma proof_inv_stage_entry: "proof_inv self \<Longrightarrow> proof_inv (stage_bank_entry n e self)"
  using proof_inv_entry [of self "(eu_slot e, eu_bank_id e)"] proof_inv_or_default [of self "(eu_slot e, eu_bank_id e)"]
  by (auto simp: stage_bank_entry_def Let_def split: prod.split)

lemma proof_inv_freeze:
  assumes inv: "proof_inv self"
  shows "proof_inv (freeze_bank env n s i h txs self)"
proof -
  obtain self1 b where ent: "bank_or_default (s, i) self = (self1, b)"
    by fastforce
  have "proof_inv (put_bank (s, i) (b\<lparr>bk_sealed_hash := Some h, bk_transactions := Some txs\<rparr>) self1)"
    by (rule proof_inv_entry [OF inv ent]) simp_all
  then show ?thesis
    using inv proof_inv_or_default [OF inv ent] proof_inv_publish(1)
    by (auto simp: freeze_bank_def Let_def ent intro!: proof_inv_retain)
qed

lemma proof_inv_drop:
  assumes "proof_inv self" "\<And>s i. (s, i) \<in> set ks \<Longrightarrow> hm_get (bs_selected (hk_banks self)) s \<noteq> Some i"
  shows "proof_inv (self\<lparr>hk_banks := fold drop_loser ks (hk_banks self)\<rparr>)"
  using assms unfolding proof_inv_def selected_min_def by (auto simp: drop_losers)

lemma proof_inv_displace:
  assumes inv: "proof_inv self"
  shows "proof_inv (displace_rivals (s, i) self)"
proof -
  define self0 where "self0 = (if hm_get (bs_selected (hk_banks self)) s \<in> {None, Some i} then self
      else \<lparr>hk_banks = (hk_banks self)\<lparr>bs_selected := hm_remove s (bs_selected (hk_banks self))\<rparr>,
            hk_store = remove_slot_inner s (hk_store self)\<rparr>)"
  have "proof_inv self0"
    using inv proof_inv_remove_selected [OF inv] by (simp add: self0_def)
  then have inv1: "proof_inv (on_banks (\<lambda>bs. bs\<lparr>bs_canonical := hm_insert s i (bs_canonical bs)\<rparr>) self0)"
    by (simp add: proof_inv_def on_banks_def selected_min_def)
  have "hm_get (bs_selected (hk_banks self0)) s \<in> {None, Some i}"
    by (simp add: self0_def hm_gets)
  then show ?thesis
    unfolding displace_rivals_eq self0_def [symmetric] by (intro proof_inv_drop [OF inv1]) (auto simp: on_banks_def)
qed

text \<open>The last step of a commit: the proof observes the commitment and publishes it for the selected bank.\<close>

lemma proof_inv_cover:
  assumes inv: "proof_inv self"
    and reached: "sel \<Longrightarrow> \<exists>e. hm_get (st_commitment (hk_store self)) s = Some e \<and> rank c \<le> rank e"
  shows "proof_inv (on_store (on_coverage (\<lambda>cov.
      let cov1 = head_coverage_observe s c at cov;
          cov2 = (if sel then head_coverage_publish s c (head_coverage_validate_parent s parent cov1) else cov1)
      in head_coverage_retain s n cov2)) self)" (is "proof_inv (on_store (on_coverage ?f) self)")
proof -
  define st1 where "st1 = on_coverage (head_coverage_observe s c at) (hk_store self)"
  have st1: "proof_ok st1" "st_commitment st1 = st_commitment (hk_store self)"
    unfolding st1_def by (rule proof_ok_ops(2) [OF proof_invD(1) [OF inv]]) simp
  define st2 where "st2 = (if sel then on_coverage (head_coverage_publish s c)
      (on_coverage (head_coverage_validate_parent s parent) st1) else st1)"
  have "proof_ok st2"
    using reached st1 proof_ok_publish [OF proof_ok_ops(3) [OF st1(1)]] by (auto simp: st2_def)
  then have "proof_ok (on_coverage ?f (hk_store self))"
    using proof_ok_ops(1) [of st2 s n] by (auto simp: st2_def st1_def on_coverage_def Let_def)
  then show ?thesis
    by (intro proof_inv_store [OF inv]) (simp_all add: on_coverage_def)
qed

lemma proof_inv_commit:
  assumes inv: "proof_inv self" and step: "commit_bank env n s i c parent now self = Some self'"
  shows "proof_inv self'"
proof (cases "accept_bank n (s, i) self")
  case False
  then show ?thesis
    using inv step by (simp add: commit_bank_def)
next
  case True
  define self1 where "self1 = (if c \<noteq> Processed then displace_rivals (s, i) self else self)"
  obtain self2 b where ent: "bank_or_default (s, i) (raise_highest s self1) = (self2, b)"
    by fastforce
  have "proof_inv self1"
    using inv proof_inv_displace by (simp add: self1_def)
  note inv2 = proof_inv_or_default [OF proof_inv_highest [OF this] ent]
  define previous where "previous = st_tokens (hk_store self2) (bk_commitment b)"
  define self3 where "self3 = on_store (\<lambda>st. st\<lparr>st_tokens :=
      (st_tokens st)(bk_commitment b := max previous (rank c))\<rparr>) self2"
  have inv3: "proof_inv self3"
    unfolding self3_def previous_def by (rule proof_inv_token [OF inv2]) (cases c; simp)
  define b' where "b' = (if bk_observed_at b = None \<or> previous < rank c then b\<lparr>bk_observed_at := Some now\<rparr> else b)"
  have b: "hm_get (bs_banks (hk_banks self3)) (s, i) = Some b"
    using bank_or_default_frame(1) [OF ent] by (simp add: self3_def on_store_def)
  have put: "proof_inv (put_bank (s, i) b' self3)"
    by (rule proof_inv_put [OF inv3 b]) (simp_all add: b'_def)
  define self4 where "self4 = publish_bank env (s, i) (put_bank (s, i) b' self3)"
  note pub = proof_inv_publish [OF put, of env s i, folded self4_def]
  have b4: "hm_get (bs_banks (hk_banks self4)) (s, i) = Some b'" "bk_observed_at b' \<noteq> None"
    by (simp_all add: self4_def put_bank_def hm_gets b'_def)
  have reached: "\<exists>e. hm_get (st_commitment (hk_store self4)) s = Some e \<and> rank c \<le> rank e"
    if "hm_get (bs_selected (hk_banks self4)) s = Some i"
  proof -
    have "hm_get (bs_banks (hk_banks (put_bank (s, i) b' self3))) (s, i) = Some b'"
      by (simp add: put_bank_def hm_gets)
    from pub(2) [OF that this] show ?thesis
      by (auto simp: put_bank_def self3_def on_store_def b'_def split: if_splits)
  qed
  obtain at where at: "bk_observed_at b' = Some at"
    using b4(2) by blast
  have "self' = retain_banks (on_store (on_coverage (\<lambda>cov.
      let cov1 = head_coverage_observe s c at cov;
          cov2 = (if hm_get (bs_selected (hk_banks self4)) s = Some i
                  then head_coverage_publish s c (head_coverage_validate_parent s parent cov1) else cov1)
      in head_coverage_retain s (st_retain_slots (hk_store self4)) cov2)) self4)"
    using step True b4(1) at
    unfolding commit_bank_def Let_def self1_def [symmetric] ent prod.case previous_def [symmetric]
      self3_def [symmetric] b'_def [symmetric] self4_def [symmetric] by simp
  then show ?thesis
    using proof_inv_retain [OF proof_inv_cover [OF pub(1) reached]] by simp
qed

lemma proof_inv_discard:
  assumes inv: "proof_inv self"
  shows "proof_inv (discard_bank n s i self)"
proof (cases "bs_session (hk_banks self) = n")
  case True
  define self0 where "self0 = (if hm_get (bs_selected (hk_banks self)) s = Some i
    then \<lparr>hk_banks = (hk_banks self)\<lparr>bs_selected := hm_remove s (bs_selected (hk_banks self))\<rparr>,
          hk_store = remove_slot s (hk_store self)\<rparr>
    else self)"
  have "proof_ok (remove_slot s (hk_store self))"
    unfolding remove_slot_def by (intro proof_ok_remove_slot proof_ok_ops proof_invD(1) [OF inv])
  then have "proof_inv self0"
    using inv proof_inv_unselect [OF inv] by (simp add: self0_def remove_slot_def)
  moreover have "hm_get (bs_selected (hk_banks self0)) s \<noteq> Some i"
    by (simp add: self0_def hm_gets)
  ultimately have "proof_inv (self0\<lparr>hk_banks := fold drop_loser [(s, i)] (hk_banks self0)\<rparr>)"
    by (intro proof_inv_drop) simp_all
  moreover have "discard_bank n s i self = retain_banks (self0\<lparr>hk_banks := fold drop_loser [(s, i)] (hk_banks self0)\<rparr>)"
    using True by (cases self; cases "hk_banks self")
      (auto simp: discard_bank_def Let_def on_banks_def on_store_def drop_loser_def self0_def)
  ultimately show ?thesis
    by (simp add: proof_inv_retain)
qed (use inv in \<open>simp add: discard_bank_def\<close>)

section \<open>Runs\<close>

lemma proof_ok_fresh: "proof_ok (on_coverage head_coverage_connect st)" "proof_ok (on_coverage head_coverage_disconnect st)"
  "st_coverage st = head_coverage_default \<Longrightarrow> proof_ok st"
  using cov_ok_empty [THEN cov_ok_head]
  by (simp_all add: proof_ok_def valid_node_def head_coverage_connect_def head_coverage_disconnect_def
      head_coverage_default_def bt_get_def)

lemma remove_all_frame: "st_tokens (remove_all_slots st) = st_tokens st" "st_next_token (remove_all_slots st) = st_next_token st"
  by (simp_all add: remove_all_slots_def)

lemma proof_inv_session:
  assumes inv: "proof_inv self"
  shows "start_bank_session c self = Some (self', n) \<Longrightarrow> proof_inv self'"
    and "end_bank_session n self = Some self' \<Longrightarrow> proof_inv self'"
  using inv
  by (auto simp: start_bank_session_def end_bank_session_def Let_def proof_inv_def proof_ok_fresh selected_min_def
      tokens_small_def bank_state_default_def remove_all_frame split: option.splits if_splits)

lemma proof_inv_apply:
  assumes inv: "proof_inv self" and step: "bank_apply env x self = Some self'"
  shows "proof_inv self'"
  using step proof_inv_session [OF inv] proof_inv_stage_metadata [OF inv] proof_inv_stage_footer [OF inv]
    proof_inv_stage_entry [OF inv] proof_inv_freeze [OF inv] proof_inv_commit [OF inv] proof_inv_discard [OF inv]
  by (cases x) auto

lemma proof_inv_run: "proof_inv self \<Longrightarrow> bank_run env ops self = Some self' \<Longrightarrow> proof_inv self'"
  by (induction ops arbitrary: self) (auto split: option.splits dest: proof_inv_apply)

lemma reachable_proof_inv: "bank_run env ops (head_cache_new r k) = Some self \<Longrightarrow> proof_inv self"
  by (rule proof_inv_run [of "head_cache_new r k"])
    (simp_all add: proof_inv_def head_cache_new_def head_store_new_def proof_ok_fresh tokens_small_def selected_min_def
      bank_state_default_def)

end
