(* ===== verification/Head_Answers.thy ===== *)
theory Head_Answers
  imports Head_Proof "HOL-Library.Multiset"
begin

text \<open>
  The answers of the head cache.  Each property takes an arbitrary run of the bank operations on a new
  cache and reads one query off the invariant of \<open>Head_Serving\<close>: whole blocks, single transactions,
  the rows of an address, and the span of slots the chain proof vouches for.
\<close>

section \<open>A run for the witnesses\<close>

text \<open>The phases of \<open>commit_bank\<close> as separate functions, so that a run is evaluated one phase after the other.\<close>

definition commit_publish ::
  "convert_env \<Rightarrow> bank_key \<Rightarrow> commitment_level \<Rightarrow> instant \<Rightarrow> head_cache \<times> bank \<Rightarrow> head_cache" where
  "commit_publish env key c now entry =
     (let self2 = fst entry; b = snd entry; previous = st_tokens (hk_store self2) (bk_commitment b)
      in publish_bank env key (put_bank key
           (if bk_observed_at b = None \<or> previous < rank c then b\<lparr>bk_observed_at := Some now\<rparr> else b)
           (on_store (\<lambda>st. st\<lparr>st_tokens := (st_tokens st)(bk_commitment b := max previous (rank c))\<rparr>) self2)))"

definition commit_cover ::
  "bank_key \<Rightarrow> commitment_level \<Rightarrow> slot option \<Rightarrow> head_cache \<Rightarrow> head_cache option" where
  "commit_cover key c parent self4 =
     (case hm_get (bs_banks (hk_banks self4)) key of
        None \<Rightarrow> None
      | Some b4 \<Rightarrow>
          (case bk_observed_at b4 of
             None \<Rightarrow> None
           | Some at \<Rightarrow>
               Some (retain_banks (self4\<lparr>hk_store := (hk_store self4)\<lparr>st_coverage :=
                 head_coverage_retain (fst key) (st_retain_slots (hk_store self4))
                   (if hm_get (bs_selected (hk_banks self4)) (fst key) = Some (snd key)
                    then head_coverage_publish (fst key) c (head_coverage_validate_parent (fst key) parent
                           (head_coverage_observe (fst key) c at (st_coverage (hk_store self4))))
                    else head_coverage_observe (fst key) c at (st_coverage (hk_store self4)))\<rparr>\<rparr>))))"

lemma commit_bank_phases [code]:
  "commit_bank env n s i c parent now self =
     (if \<not> accept_bank n (s, i) self then Some self
      else commit_cover (s, i) c parent (commit_publish env (s, i) c now
             (bank_or_default (s, i) (raise_highest s
               (if c \<noteq> Processed then displace_rivals (s, i) self else self)))))"
  unfolding commit_bank_def commit_publish_def commit_cover_def Let_def on_store_def on_coverage_def split_def
    fst_conv snd_conv ..

text \<open>A run that confirms one block of two transactions.\<close>

definition demo_env :: convert_env where
  "demo_env = \<lparr>ev_convert = (\<lambda>s tx. Some \<lparr>tr_signature = ti_signature tx, tr_slot = s, tr_slot_idx = ti_index tx,
       tr_block_time = None, tr_account_keys = [ti_payload tx], tr_loaded_writable = [[9]], tr_loaded_readonly = [],
       tr_meta_err = None, tr_payload = []\<rparr>),
     ev_memo = (\<lambda>_. None), ev_json = Some, ev_bs58 = (\<lambda>_. []), ev_accounts = (\<lambda>_. [])\<rparr>"

definition demo_metadata :: block_metadata where
  "demo_metadata = \<lparr>bm_slot = 5, bm_parent_slot = 4, bm_blockhash = [1], bm_parent_blockhash = [0],
     bm_block_time = Some 77, bm_block_height = Some 3, bm_executed_transaction_count = 2, bm_entry_count = 1,
     bm_rewards = [], bm_footer = None\<rparr>"

definition demo_txs :: "tx_info list" where
  "demo_txs = [\<lparr>ti_signature = replicate 64 1, ti_index = 1, ti_payload = [6]\<rparr>,
     \<lparr>ti_signature = replicate 64 2, ti_index = 0, ti_payload = [7]\<rparr>]"

definition demo_ops :: "bank_op list" where
  "demo_ops = [Start Processed, Stage_metadata 1 3 demo_metadata,
     Stage_entry 1 \<lparr>eu_slot = 5, eu_bank_id = 3, eu_index = 0, eu_hash = replicate 32 0,
       eu_executed_transaction_count = 2, eu_starting_transaction_index = 0\<rparr>, Freeze 1 5 3 [1] demo_txs,
     Commit 1 5 3 Confirmed (Some 4) 0]"

definition demo_cache :: head_cache where
  "demo_cache = the (bank_run demo_env demo_ops (head_cache_new 8 4))"

lemma demo_run: "bank_run demo_env demo_ops (head_cache_new 8 4) = Some demo_cache"
proof -
  have "bank_run demo_env demo_ops (head_cache_new 8 4) \<noteq> None"
    by code_simp
  then show ?thesis
    by (auto simp: demo_cache_def)
qed

section \<open>Blocks\<close>

text \<open>A blockhash stands for one block: reports of a bank that agree on slot and hash agree on the count.\<close>

definition metadata_agree :: "bank_op list \<Rightarrow> bool" where
  "metadata_agree ops \<longleftrightarrow>
     (\<forall>x\<in>set ops. \<forall>y\<in>set ops. case (x, y) of
        (Stage_metadata n i m, Stage_metadata n' i' m') \<Rightarrow>
          bm_slot m = bm_slot m' \<longrightarrow> bm_blockhash m = bm_blockhash m' \<longrightarrow>
          bm_executed_transaction_count m = bm_executed_transaction_count m'
      | _ \<Rightarrow> True)"

lemma same_blockD:
  assumes "same_block m m'"
  shows "bm_slot m = bm_slot m'" "bm_blockhash m = bm_blockhash m'" "bm_block_time m = bm_block_time m'"
    "bm_executed_transaction_count m = bm_executed_transaction_count m'" "bm_parent_slot m = bm_parent_slot m'"
    "bm_parent_blockhash m = bm_parent_blockhash m'"
  using assms unfolding same_block_def by (cases m; cases m'; simp)+

lemma same_block_trans: "same_block a b \<Longrightarrow> same_block b c \<Longrightarrow> same_block a c"
  by (simp add: same_block_def)

lemma staged_agree:
  assumes "metadata_agree ops" "staged ops n (s, i) m" "staged ops n (s, i) m'" "bm_blockhash m = bm_blockhash m'"
  shows "bm_executed_transaction_count m = bm_executed_transaction_count m'"
proof -
  obtain m0 m1 where m0: "Stage_metadata n i m0 \<in> set ops" "bm_slot m0 = s" "same_block m m0"
    and m1: "Stage_metadata n i m1 \<in> set ops" "bm_slot m1 = s" "same_block m' m1"
    using assms(2,3) unfolding staged_def by auto
  moreover from m0(1) m1(1) have "bm_slot m0 = bm_slot m1 \<longrightarrow> bm_blockhash m0 = bm_blockhash m1 \<longrightarrow>
      bm_executed_transaction_count m0 = bm_executed_transaction_count m1"
    using assms(1) unfolding metadata_agree_def by fastforce
  ultimately show ?thesis
    using same_blockD [OF m0(3)] same_blockD [OF m1(3)] assms(4) by simp
qed

lemma ordered_loop_Some:
  "ordered_loop self s sigs = Some out \<Longrightarrow>
   map (\<lambda>(_, sig, _). sig) out = sigs \<and>
   (\<forall>(idx, sig, str)\<in>set out. \<exists>meta. hm_get (st_meta self) sig = Some meta \<and> meta_slot meta = s \<and>
      idx = si_idx (mt_pos meta) \<and> str = mt_signature_str meta)"
proof (induction sigs arbitrary: out)
  case (Cons sig sigs)
  then obtain meta out' where "hm_get (st_meta self) sig = Some meta" "meta_slot meta = s"
    "ordered_loop self s sigs = Some out'" "out = (si_idx (mt_pos meta), sig, mt_signature_str meta) # out'"
    by (auto split: option.splits if_splits)
  with Cons.IH [of out'] show ?case
    by auto
qed simp

lemma records_loop_Some:
  "records_loop self sigs = Some out \<Longrightarrow> list_all2 (\<lambda>sig r. hm_get (st_tx self) sig = Some r) sigs out"
proof (induction sigs arbitrary: out)
  case (Cons sig sigs)
  then show ?case
    by (auto split: option.splits)
qed simp

text \<open>A full block of a consistent store: every transaction of the bank, in the order of their positions.\<close>

definition position_key :: "tx_info \<Rightarrow> nat \<times> signature" where
  "position_key tx = (min (ti_index tx) u32_max, ti_signature tx)"

lemma position_key_inj: "distinct (map ti_signature T) \<Longrightarrow> inj_on position_key (set T)"
  by (auto simp: inj_on_def position_key_def distinct_map)

lemma ordered_is_sorted:
  assumes ok: "store_ok env B self" and B: "B s = Some c" and sigs: "distinct (map ti_signature (ct_txs c))"
    and own: "sl = [] \<or> sl = hm_list (st_sigs_by_slot self) s" and len: "length sl = length (ct_txs c)"
    and out: "ordered_loop self s sl = Some out"
  shows "map (\<lambda>(_, sig, _). sig) (sort_key (\<lambda>(idx, sig, _). (idx, sig)) out) =
    map ti_signature (sort_key position_key (ct_txs c))"
proof -
  define g where "g = (\<lambda>tx::tx_info. (min (ti_index tx) u32_max, ti_signature tx, ev_bs58 env (ti_signature tx)))"
  let ?k = "\<lambda>(idx, sig, _::string). (idx, sig)"
  note o = ordered_loop_Some [OF out]
  have entry: "e \<in> g ` set (ct_txs c)" if e_in: "e \<in> set out" for e
  proof -
    obtain idx sig str where e: "e = (idx, sig, str)"
      by (cases e)
    obtain meta where meta: "hm_get (st_meta self) sig = Some meta" "meta_slot meta = s"
      "idx = si_idx (mt_pos meta)" "str = mt_signature_str meta"
      using o e_in e by fastforce
    obtain tx r where "tx \<in> set (ct_txs c)" "ti_signature tx = sig"
      "meta = stored_meta env s tx (Some (ct_token c)) r"
      using store_txD [OF ok meta(1)] meta(2) B unfolding tx_stored_def by auto
    then show ?thesis
      using meta(3,4) by (auto simp: e g_def stored_meta_def intro!: image_eqI [of _ _ tx])
  qed
  have dist: "distinct out"
  proof (rule distinct_map [THEN iffD1, THEN conjunct1])
    show "distinct (map (\<lambda>(_, sig, _). sig) out)"
      using o own store_distinctD [OF ok, of s] by auto
  qed
  have injg: "inj_on g (set (ct_txs c))"
    using sigs by (auto simp: inj_on_def g_def distinct_map)
  have "card (set out) = length (ct_txs c)"
    using o len distinct_card [OF dist] by (metis length_map)
  moreover have "card (g ` set (ct_txs c)) = length (ct_txs c)"
    using card_image [OF injg] sigs by (simp add: distinct_map distinct_card)
  ultimately have "set out = g ` set (ct_txs c)"
    using entry by (intro card_subset_eq) auto
  then have "mset out = mset (map g (ct_txs c))"
    using dist injg sigs by (subst set_eq_iff_mset_eq_distinct [symmetric]) (auto simp: distinct_map)
  then have "sort_key ?k out = map g (sort_key position_key (ct_txs c))"
  proof (intro sort_key_inj_key_eq)
    show "inj_on ?k (set out)"
      using sigs by (auto simp: \<open>set out = _\<close> inj_on_def g_def distinct_map)
    have "?k \<circ> g = position_key"
      by (auto simp: g_def position_key_def fun_eq_iff)
    then show "sorted (map ?k (map g (sort_key position_key (ct_txs c))))"
      by simp
  qed simp
  then show ?thesis
    by (simp add: g_def comp_def)
qed

lemma sorted_positions:
  assumes "distinct (map ti_index T)" "\<forall>tx\<in>set T. ti_index tx < length T" "length T \<le> u32_max"
  shows "map ti_index (sort_key position_key T) = [0..<length T]"
proof (rule sorted_distinct_set_unique)
  let ?S = "sort_key position_key T"
  have le: "ti_index a \<le> ti_index b" if "position_key a \<le> position_key b" "a \<in> set T" "b \<in> set T" for a b
    using that assms(2,3) by (auto simp: position_key_def less_eq_prod_def dest!: bspec)
  have "sorted_wrt (\<lambda>a b. position_key a \<le> position_key b) ?S"
    using sorted_sort_key [of position_key T] by (simp add: sorted_map)
  then show "sorted (map ti_index ?S)"
    unfolding sorted_map by (rule sorted_wrt_mono_rel [rotated]) (use le in simp)
  show dist: "distinct (map ti_index ?S)"
    using assms(1) by (simp add: distinct_map)
  have "card (ti_index ` set T) = length T"
    using assms(1) by (simp add: distinct_map card_image distinct_card)
  moreover have "ti_index ` set T \<subseteq> {0..<length T}"
    using assms(2) by auto
  ultimately show "set (map ti_index ?S) = set [0..<length T]"
    using card_subset_eq [of "{0..<length T}"] by auto
qed simp_all

lemma full_block_records:
  assumes ok: "store_ok env B self" and B: "B s = Some c" and good: "good_txs env s (ct_txs c)"
    and cnt: "bm_executed_transaction_count m = length (ct_txs c)" and small: "length txs \<le> u32_max"
    and m: "hm_get (st_block_metadata self) s = Some m"
    and get: "get_block env self s cl Details_full = Some (Payload_full m' txs)"
  shows "length txs = length (ct_txs c)"
    and "tx \<in> set (ct_txs c) \<Longrightarrow> block_record env s c tx = Some (txs ! ti_index tx)"
proof -
  let ?S = "sort_key position_key (ct_txs c)"
  define sl where "sl = (if bm_executed_transaction_count m = 0 then [] else hm_list (st_sigs_by_slot self) s)"
  obtain out where out: "length sl = length (ct_txs c)" "ordered_loop self s sl = Some out"
    "records_loop self (map (\<lambda>(_, sig, _). sig) (sort_key (\<lambda>(idx, sig, _). (idx, sig)) out)) = Some txs"
    using get m cnt by (auto simp: get_block_def Let_def sl_def hm_list_def split: if_splits option.splits)
  have dist: "distinct (map ti_signature (ct_txs c))" "distinct (map ti_index (ct_txs c))"
    "\<forall>tx\<in>set (ct_txs c). ti_index tx < length (ct_txs c)"
    using good by (auto simp: good_txs_def)
  have "sl = [] \<or> sl = hm_list (st_sigs_by_slot self) s"
    by (simp add: sl_def)
  note sorted = ordered_is_sorted [OF ok B dist(1) this out(1,2)]
  have all2: "list_all2 (\<lambda>sig r. hm_get (st_tx self) sig = Some r) (map ti_signature ?S) txs"
    using records_loop_Some [OF out(3)] sorted by simp
  then show len: "length txs = length (ct_txs c)"
    by (auto dest: list_all2_lengthD)
  have own: "set (map ti_signature ?S) = set sl"
    using ordered_loop_Some [OF out(2)] arg_cong [OF sorted, of set] by auto
  assume tx: "tx \<in> set (ct_txs c)"
  then obtain j where j: "j < length (ct_txs c)" "?S ! j = tx"
    using in_set_conv_nth [of tx ?S] by auto
  have "ti_index tx = j"
    using sorted_positions [OF dist(2,3)] small len j nth_map [of j ?S ti_index] by simp
  then have rec: "hm_get (st_tx self) (ti_signature tx) = Some (txs ! ti_index tx)"
    using list_all2_nthD [OF all2, of j] j by simp
  have "ti_signature tx \<in> set sl"
    using tx by (simp flip: own)
  then have "ti_signature tx \<in> set (hm_list (st_sigs_by_slot self) s)"
    by (simp add: sl_def split: if_splits)
  then obtain meta where meta: "hm_get (st_meta self) (ti_signature tx) = Some meta" "meta_slot meta = s"
    using store_sigsD [OF ok] by blast
  obtain tx' where "tx' \<in> set (ct_txs c)" "ti_signature tx' = ti_signature tx"
    "block_record env s c tx' = Some (txs ! ti_index tx)"
    using store_txD [OF ok meta(1)] meta(2) rec B unfolding tx_stored_def by auto
  then show "block_record env s c tx = Some (txs ! ti_index tx)"
    using inj_onD [OF dist(1) [unfolded distinct_map, THEN conjunct2]] tx by metis
qed

lemma served_content:
  assumes inv: "cache_inv env ops B self" and m: "hm_get (st_block_metadata (hk_store self)) s = Some m"
  obtains ct where "B s = Some ct" "same_block m (ct_metadata ct)"
    "content_ok env ops (bs_session (hk_banks self)) s ct"
    "committed ops (bs_session (hk_banks self)) (s, ct_bank ct) (rank (slot_commitment (hk_store self) s))"
    "\<forall>w. hm_get (bs_canonical (hk_banks self)) s = Some w \<longrightarrow> ct_bank ct = w"
proof -
  have "slot_ok B (hk_store self) s"
    by (rule store_slotD [OF cache_invD(1) [OF inv]])
  with m obtain ct where ct: "B s = Some ct" "same_block m (ct_metadata ct)"
    by (auto simp: slot_ok_def split: option.splits)
  moreover have "content_ok env ops (bs_session (hk_banks self)) s ct"
    using cache_invD(5) [OF inv] ct(1) by (simp add: banks_ok_def)
  moreover obtain cm where "hm_get (st_commitment (hk_store self)) s = Some cm"
    using cache_inv_commitment [OF inv ct(1)] by blast
  moreover from this have
    "committed ops (bs_session (hk_banks self)) (s, ct_bank ct) (rank (slot_commitment (hk_store self) s))"
    using cache_invD(8) [OF inv] ct(1) by (simp add: published_ok_def slot_commitment_def)
  ultimately show thesis
    using that cache_invD(8) [OF inv] unfolding published_ok_def by blast
qed

lemma committed_reported:
  "committed H n (s, i) r \<Longrightarrow> rank c \<le> r \<Longrightarrow>
   c = Processed \<or> (\<exists>c' p now. Commit n s i c' p now \<in> set H \<and> rank c \<le> rank c')"
  unfolding committed_def by (cases c) auto

text \<open>
  C6.  Run any sequence of bank operations on a new cache, and let the answer to a block request at a
  commitment level be a full block.  Then there is a bank of the current session that was frozen with
  exactly this block: its hash is the hash served, its metadata was staged for that bank, and the
  transactions served are its transactions, each converted with the block time of the block and placed
  at its own index, none missing and none added.  The bank was reported at the requested commitment or
  a higher one, unless the request was for \<open>processed\<close>, and no other bank is canonical at the slot.
\<close>

theorem served_block_exact:
  assumes "bank_run env ops (head_cache_new r k) = Some self" and "metadata_agree ops"
    and "get_block env (hk_store self) s c Details_full = Some (Payload_full m txs)" and "length txs \<le> u32_max"
  shows "\<exists>i T. Freeze (bs_session (hk_banks self)) s i (bm_blockhash m) T \<in> set ops \<and>
      length txs = length T \<and> distinct (map ti_index T) \<and>
      (\<forall>tx\<in>set T. ti_index tx < length T \<and>
         map_option (\<lambda>r. r\<lparr>tr_block_time := bm_block_time m\<rparr>) (ev_convert env s tx) = Some (txs ! ti_index tx)) \<and>
      (\<exists>m0. Stage_metadata (bs_session (hk_banks self)) i m0 \<in> set ops \<and> bm_slot m0 = s \<and> same_block m m0) \<and>
      (c = Processed \<or> (\<exists>c' p now. Commit (bs_session (hk_banks self)) s i c' p now \<in> set ops \<and> rank c \<le> rank c')) \<and>
      (\<forall>w. hm_get (bs_canonical (hk_banks self)) s = Some w \<longrightarrow> w = i)"
proof -
  let ?n = "bs_session (hk_banks self)"
  obtain B where inv: "cache_inv env ops B self"
    using reachable_inv [OF assms(1)] by blast
  have m: "hm_get (st_block_metadata (hk_store self)) s = Some m" "rank c \<le> rank (slot_commitment (hk_store self) s)"
    using assms(3) by (auto simp: get_block_def Let_def commitment_meets_def split: if_splits option.splits)
  obtain ct where ct: "B s = Some ct" "same_block m (ct_metadata ct)"
    "content_ok env ops ?n s ct" "committed ops ?n (s, ct_bank ct) (rank (slot_commitment (hk_store self) s))"
    "\<forall>w. hm_get (bs_canonical (hk_banks self)) s = Some w \<longrightarrow> ct_bank ct = w"
    by (rule served_content [OF inv m(1)])
  note meta = same_blockD [OF ct(2)]
  have sealed: "staged ops ?n (s, ct_bank ct) (ct_metadata ct)"
    "sealed_ok env ops ?n (s, ct_bank ct) (bm_blockhash m) (ct_txs ct)"
    using ct(3) by (simp_all add: content_ok_def meta(2))
  then have frozen: "Freeze ?n s (ct_bank ct) (bm_blockhash m) (ct_txs ct) \<in> set ops" "good_txs env s (ct_txs ct)"
    by (simp_all add: sealed_ok_def)
  from sealed(2) obtain m' where m': "staged ops ?n (s, ct_bank ct) m'" "bm_blockhash m' = bm_blockhash m"
    "bm_executed_transaction_count m' = length (ct_txs ct)"
    unfolding sealed_ok_def by blast
  have "bm_executed_transaction_count m = length (ct_txs ct)"
    using staged_agree [OF assms(2) sealed(1) m'(1)] m'(2,3) meta(2,4) by simp
  note full = full_block_records [OF cache_invD(1) [OF inv] ct(1) frozen(2) this assms(4) m(1) assms(3)]
  have "ti_index tx < length (ct_txs ct) \<and>
      map_option (\<lambda>r. r\<lparr>tr_block_time := bm_block_time m\<rparr>) (ev_convert env s tx) = Some (txs ! ti_index tx)"
    if "tx \<in> set (ct_txs ct)" for tx
    using full(2) [OF that] frozen(2) that by (simp add: block_record_def meta(3) good_txs_def)
  moreover have "distinct (map ti_index (ct_txs ct))"
    using frozen(2) by (simp add: good_txs_def)
  moreover have "\<exists>m0. Stage_metadata ?n (ct_bank ct) m0 \<in> set ops \<and> bm_slot m0 = s \<and> same_block m m0"
    using sealed(1) same_block_trans [OF ct(2)] unfolding staged_def by auto
  ultimately show ?thesis
    using frozen(1) full(1) committed_reported [OF ct(4) m(2)] ct(5)
    by (intro exI [of _ "ct_bank ct"] exI [of _ "ct_txs ct"] conjI) simp_all
qed

theorem served_block_exact_witness:
  "\<exists>m txs i T. get_block demo_env (hk_store demo_cache) 5 Confirmed Details_full = Some (Payload_full m txs) \<and>
     map tr_slot_idx txs = [0, 1] \<and> Freeze (bs_session (hk_banks demo_cache)) 5 i (bm_blockhash m) T \<in> set demo_ops \<and>
     length T = 2"
proof -
  have "case get_block demo_env (hk_store demo_cache) 5 Confirmed Details_full of
      Some (Payload_full m txs) \<Rightarrow> map tr_slot_idx txs = [0, 1] | _ \<Rightarrow> False"
    by code_simp
  then obtain m txs where get: "get_block demo_env (hk_store demo_cache) 5 Confirmed Details_full = Some (Payload_full m txs)"
    and idx: "map tr_slot_idx txs = [0, 1]"
    by (auto split: option.splits stored_block_payload.splits)
  have "metadata_agree demo_ops"
    by (simp add: metadata_agree_def demo_ops_def)
  note exact = served_block_exact [OF demo_run this get]
  have len: "length txs = 2"
    using arg_cong [OF idx, of length] by simp
  then have "length txs \<le> u32_max"
    by (simp add: u32_max_def)
  then obtain i T where
    "Freeze (bs_session (hk_banks demo_cache)) 5 i (bm_blockhash m) T \<in> set demo_ops" "length txs = length T"
    using exact [OF \<open>length txs \<le> u32_max\<close>] by (elim exE conjE) (erule that; assumption)
  with get idx len show ?thesis
    by (intro exI [of _ m] exI [of _ txs] exI [of _ i] exI [of _ T] conjI) simp_all
qed

section \<open>Transactions\<close>

text \<open>
  C12.  A transaction served by signature at a commitment level, after any run, belongs to a bank of the
  current session that was frozen with it: the answer is that transaction converted at the slot of the
  bank, with the block time of metadata staged for the bank under the frozen hash.  The bank was reported
  at the requested level or a higher one, unless the request was for \<open>processed\<close>.
\<close>

theorem served_transaction_witnessed:
  assumes "bank_run env ops (head_cache_new r k) = Some self"
    and "get_tx (hk_store self) sig c = Some answer"
  shows "\<exists>s i m T tx. Freeze (bs_session (hk_banks self)) s i (bm_blockhash m) T \<in> set ops \<and>
      Stage_metadata (bs_session (hk_banks self)) i m \<in> set ops \<and> bm_slot m = s \<and>
      tx \<in> set T \<and> ti_signature tx = sig \<and>
      map_option (\<lambda>r. r\<lparr>tr_block_time := bm_block_time m\<rparr>) (ev_convert env s tx) = Some answer \<and>
      (c = Processed \<or> (\<exists>c' p now. Commit (bs_session (hk_banks self)) s i c' p now \<in> set ops \<and> rank c \<le> rank c'))"
proof -
  let ?n = "bs_session (hk_banks self)"
  obtain B where inv: "cache_inv env ops B self"
    using reachable_inv [OF assms(1)] by blast
  obtain meta where meta: "hm_get (st_meta (hk_store self)) sig = Some meta"
    "rank c \<le> rank (meta_commitment (hk_store self) meta)" "hm_get (st_tx (hk_store self)) sig = Some answer"
    using assms(2) by (auto simp: get_tx_def commitment_meets_def split: option.splits if_splits)
  obtain ct tx where ct: "B (meta_slot meta) = Some ct" "tx \<in> set (ct_txs ct)" "ti_signature tx = sig"
    "block_record env (meta_slot meta) ct tx = Some answer" "mt_bank_commitment meta = Some (ct_token ct)"
    using store_txD [OF cache_invD(1) [OF inv] meta(1)] meta(3) unfolding tx_stored_def stored_meta_def
    by (metis head_tx_meta.select_convs(1) option.inject)
  let ?s = "meta_slot meta" and ?i = "ct_bank ct"
  have "committed ops ?n (?s, ?i) (st_tokens (hk_store self) (ct_token ct))"
    using cache_invD(7) [OF inv] ct(1) unfolding tokens_ok_def by blast
  then have rep: "c = Processed \<or> (\<exists>c' p now. Commit ?n ?s ?i c' p now \<in> set ops \<and> rank c \<le> rank c')"
    using meta(2) committed_rank by (intro committed_reported) (simp_all add: meta_commitment_def ct(5))
  have ok: "content_ok env ops ?n ?s ct"
    using cache_invD(5) [OF inv] ct(1) by (simp add: banks_ok_def)
  then obtain m where m: "Stage_metadata ?n ?i m \<in> set ops" "bm_slot m = ?s" "same_block (ct_metadata ct) m"
    by (auto simp: content_ok_def staged_def)
  with ok rep ct(2-4) show ?thesis
    using same_blockD [OF m(3)]
    by (intro exI [of _ ?s] exI [of _ ?i] exI [of _ m] exI [of _ "ct_txs ct"] exI [of _ tx])
      (simp add: content_ok_def sealed_ok_def block_record_def)
qed

theorem served_transaction_witnessed_witness:
  "\<exists>answer s i (m::block_metadata) T tx. get_tx (hk_store demo_cache) (replicate 64 2) Confirmed = Some answer \<and> tr_slot_idx answer = 0 \<and>
     Freeze (bs_session (hk_banks demo_cache)) s i (bm_blockhash m) T \<in> set demo_ops \<and>
     tx \<in> set T \<and> ti_signature tx = replicate 64 2"
proof -
  have "map_option tr_slot_idx (get_tx (hk_store demo_cache) (replicate 64 2) Confirmed) = Some 0"
    by code_simp
  then obtain answer where answer: "get_tx (hk_store demo_cache) (replicate 64 2) Confirmed = Some answer"
    "tr_slot_idx answer = 0"
    by auto
  obtain s i and m :: block_metadata and T tx where
    "Freeze (bs_session (hk_banks demo_cache)) s i (bm_blockhash m) T \<in> set demo_ops"
    "tx \<in> set T" "ti_signature tx = replicate 64 2"
    using served_transaction_witnessed [OF demo_run answer(1)] by (elim exE conjE) (erule that; assumption)
  with answer show ?thesis
    by (intro exI [of _ answer] exI [of _ s] exI [of _ i] exI [of _ m] exI [of _ T] exI [of _ tx] conjI) assumption+
qed

section \<open>The rows of an address\<close>

lemma signatures_loop_take:
  assumes "length out < limit"
  shows "signatures_loop self sel limit ks out =
    out @ take (limit - length out) (List.map_filter (\<lambda>k. if sel k then hm_get (st_meta self) (sk_signature k) else None) ks)"
  using assms
proof (induction ks arbitrary: out)
  case (Cons k ks)
  let ?f = "\<lambda>k. if sel k then hm_get (st_meta self) (sk_signature k) else None"
  show ?case
  proof (cases "?f k")
    case None
    then show ?thesis
      using Cons by (auto simp: map_filter_simps split: if_splits)
  next
    case (Some meta)
    show ?thesis
    proof (cases "limit \<le> Suc (length out)")
      case True
      then have "limit - length out = 1"
        using Cons.prems by linarith
      then show ?thesis
        using Some True by (simp add: map_filter_simps split: if_splits)
    next
      case False
      then have "limit - length out = Suc (limit - Suc (length out))"
        by linarith
      then show ?thesis
        using Some False Cons.IH [of "out @ [meta]"] by (simp add: map_filter_simps split: if_splits)
    qed
  qed
qed (simp add: map_filter_simps)

lemma key_order_lt: "slot_index_lt (sk_pos k) (sk_pos k') \<longleftrightarrow> key_order k < key_order k'"
  by (auto simp: slot_index_lt_def key_order_def)

text \<open>The answer over a consistent index: the entries of the first keys of the list that are selected.\<close>

definition selected_keys ::
  "head_store \<Rightarrow> pubkey \<Rightarrow> slot_boundary option \<Rightarrow> slot_boundary option \<Rightarrow> commitment_level \<Rightarrow> head_sig_key list" where
  "selected_keys st a bef unt c = filter (key_selected st bef unt c) (hm_list (st_sigs_by_address st) a)"

definition key_meta :: "head_store \<Rightarrow> head_sig_key \<Rightarrow> head_tx_meta" where
  "key_meta st k = the (hm_get (st_meta st) (sk_signature k))"

lemma key_meta:
  assumes "index_ok lo st" "k \<in> set (hm_list (st_sigs_by_address st) a)"
  shows "hm_get (st_meta st) (sk_signature k) = Some (key_meta st k)" "mt_pos (key_meta st k) = sk_pos k"
  using index_metaD [OF assms] by (auto simp: key_meta_def)

lemma signatures_over_index:
  assumes ix: "index_ok lo st" and "0 < limit"
  shows "signatures_for_address st a bef unt limit c = map (key_meta st) (take limit (selected_keys st a bef unt c))"
proof -
  let ?ks = "hm_list (st_sigs_by_address st) a"
  have "List.map_filter (\<lambda>k. if sel k then hm_get (st_meta st) (sk_signature k) else None) xs =
      map (key_meta st) (filter sel xs)" if "set xs \<subseteq> set ?ks" for sel xs
    using that by (induction xs) (auto simp: map_filter_simps key_meta(1) [OF ix, of _ a])
  moreover have "signatures_for_address st a bef unt limit c = signatures_loop st (key_selected st bef unt c) limit ?ks []"
    by (simp add: signatures_for_address_def hm_list_def split: option.split)
  ultimately show ?thesis
    using signatures_loop_take [of "[]" limit] assms(2) by (simp add: selected_keys_def take_map)
qed

lemma selected_keysD:
  assumes "k \<in> set (selected_keys st a bef unt c)"
  shows "k \<in> set (hm_list (st_sigs_by_address st) a)" "key_selected st bef unt c k"
  using assms by (simp_all add: selected_keys_def)

lemma selected_keys_newest_first:
  assumes ix: "index_ok lo st"
  shows "sorted_wrt (\<lambda>k k'. \<not> slot_index_lt (mt_pos (key_meta st k)) (mt_pos (key_meta st k'))) (selected_keys st a bef unt c)"
proof -
  have "sorted_wrt (\<lambda>k k'. key_order k' \<le> key_order k) (selected_keys st a bef unt c)"
    using index_sortedD [OF ix, of a] by (simp add: selected_keys_def sorted_wrt_filter)
  then show ?thesis
    by (rule sorted_wrt_mono_rel [rotated])
      (auto simp: key_meta(2) [OF ix selected_keysD(1)] key_order_lt not_less)
qed

lemma row_of_key:
  assumes ix: "index_ok lo st" and k: "k \<in> set (selected_keys st a bef unt c)"
  shows "\<exists>sig answer. hm_get (st_meta st) sig = Some (key_meta st k) \<and> hm_get (st_tx st) sig = Some answer \<and>
      a \<in> set (unique_addresses answer) \<and>
      key_selected st bef unt c \<lparr>sk_signature = sig, sk_pos = mt_pos (key_meta st k)\<rparr>"
proof -
  note k' = selected_keysD [OF k]
  have "\<lparr>sk_signature = sk_signature k, sk_pos = mt_pos (key_meta st k)\<rparr> = k"
    using key_meta(2) [OF ix k'(1)] by (cases k) simp
  then show ?thesis
    using key_meta(1) [OF ix k'(1)] index_recordD [OF ix k'(1)] k'(2) by (intro exI [of _ "sk_signature k"]) auto
qed

lemma take_or_earlier:
  assumes "sorted_wrt R xs" "x \<in> set xs"
  shows "x \<in> set (take n xs) \<or> n < length xs \<and> (\<forall>y\<in>set (take n xs). R y x)"
proof (cases "x \<in> set (take n xs)")
  case False
  have "sorted_wrt R (take n xs @ drop n xs)" "x \<in> set (take n xs @ drop n xs)"
    using assms by simp_all
  then have drop: "x \<in> set (drop n xs)" "\<forall>y\<in>set (take n xs). R y x"
    using False unfolding sorted_wrt_append set_append by blast+
  moreover have "n < length xs"
    using drop(1) by (cases "n < length xs") simp_all
  ultimately show ?thesis
    by simp
qed simp

lemma address_floor_above:
  assumes "address_floor st a chain = Some lo" "lo < u64_max" "lo \<le> s"
  shows "min_retained_slot st \<le> s" "above_truncation st a s"
  using assms by (auto simp: address_floor_def above_truncation_def Let_def sat_add_def split: option.splits)

text \<open>
  C11.  The rows of an address, after any run of bank operations.  The list has at most as many rows as
  asked for, newest first; every row is a stored transaction that names the address and passes the two
  boundaries and the commitment.  It is complete above the floor the cache reports for the address: a
  stored transaction at or above the floor that names the address and passes the filters is in the
  list, unless the list is full and ends before that transaction.
\<close>

theorem address_rows_exact:
  assumes "bank_run env ops (head_cache_new r k) = Some self" and "st = hk_store self"
    and "address_floor st a chain = Some lo" and "lo < u64_max" and "0 < limit"
    and "rows = signatures_for_address st a bef unt limit c"
  shows "length rows \<le> limit \<and> sorted_wrt (\<lambda>x y. \<not> slot_index_lt (mt_pos x) (mt_pos y)) rows \<and>
    (\<forall>meta\<in>set rows. \<exists>sig answer. hm_get (st_meta st) sig = Some meta \<and> hm_get (st_tx st) sig = Some answer \<and>
      a \<in> set (unique_addresses answer) \<and> key_selected st bef unt c \<lparr>sk_signature = sig, sk_pos = mt_pos meta\<rparr>) \<and>
    (\<forall>sig meta answer. hm_get (st_meta st) sig = Some meta \<longrightarrow> hm_get (st_tx st) sig = Some answer \<longrightarrow>
      a \<in> set (unique_addresses answer) \<longrightarrow> lo \<le> si_slot (mt_pos meta) \<longrightarrow>
      key_selected st bef unt c \<lparr>sk_signature = sig, sk_pos = mt_pos meta\<rparr> \<longrightarrow>
      meta \<in> set rows \<or> length rows = limit \<and> (\<forall>x\<in>set rows. \<not> slot_index_lt (mt_pos x) (mt_pos meta)))"
proof -
  obtain B where inv: "cache_inv env ops B self"
    using reachable_inv [OF assms(1)] by blast
  have ix: "index_ok (min_retained_slot st) st"
    using cache_invD(2) [OF inv] by (simp add: assms(2))
  let ?sel = "selected_keys st a bef unt c"
  have rows: "rows = map (key_meta st) (take limit ?sel)"
    unfolding assms(6) by (rule signatures_over_index [OF ix assms(5)])
  note desc = selected_keys_newest_first [OF ix, of a bef unt c]
  have sorted: "sorted_wrt (\<lambda>x y. \<not> slot_index_lt (mt_pos x) (mt_pos y)) rows"
    using sorted_wrt_take [OF desc] by (simp add: rows sorted_wrt_map)
  have sound: "\<exists>sig answer. hm_get (st_meta st) sig = Some meta \<and> hm_get (st_tx st) sig = Some answer \<and>
      a \<in> set (unique_addresses answer) \<and> key_selected st bef unt c \<lparr>sk_signature = sig, sk_pos = mt_pos meta\<rparr>"
    if meta: "meta \<in> set rows" for meta
  proof -
    obtain key where "key \<in> set ?sel" "meta = key_meta st key"
      using meta by (auto simp: rows dest: in_set_takeD)
    then show ?thesis
      using row_of_key [OF ix] by simp
  qed
  have complete: "meta \<in> set rows \<or> length rows = limit \<and> (\<forall>x\<in>set rows. \<not> slot_index_lt (mt_pos x) (mt_pos meta))"
    if meta: "hm_get (st_meta st) sig = Some meta" "hm_get (st_tx st) sig = Some answer" "a \<in> set (unique_addresses answer)"
      "lo \<le> si_slot (mt_pos meta)" "key_selected st bef unt c \<lparr>sk_signature = sig, sk_pos = mt_pos meta\<rparr>" for sig meta answer
  proof -
    define key where "key = \<lparr>sk_signature = sig, sk_pos = mt_pos meta\<rparr>"
    have "key \<in> set (hm_list (st_sigs_by_address st) a)"
      unfolding key_def using address_floor_above [OF assms(3,4) meta(4)] by (intro index_completeD [OF ix meta(1-3)])
    then have key: "key \<in> set ?sel" "key_meta st key = meta"
      using meta(1,5) by (simp_all add: selected_keys_def key_meta_def key_def)
    from take_or_earlier [OF desc key(1), of limit] show ?thesis
      unfolding rows key(2) by (auto simp: key(2) [symmetric])
  qed
  have "length rows \<le> limit"
    by (simp add: rows)
  with sorted sound complete show ?thesis
    by (intro conjI ballI allI impI)
qed

theorem address_rows_exact_witness:
  "let rows = signatures_for_address (hk_store demo_cache) [9] None None 1 Confirmed
   in address_floor (hk_store demo_cache) [9] (Some 0) = Some 0 \<and> map mt_pos rows = [\<lparr>si_slot = 5, si_idx = 1\<rparr>] \<and>
     (\<exists>sig answer. hm_get (st_tx (hk_store demo_cache)) sig = Some answer \<and> [9] \<in> set (unique_addresses answer))"
proof -
  define rows where "rows = signatures_for_address (hk_store demo_cache) [9] None None 1 Confirmed"
  have rows: "map mt_pos rows = [\<lparr>si_slot = 5, si_idx = 1\<rparr>]"
    unfolding rows_def by code_simp
  have lo: "address_floor (hk_store demo_cache) [9] (Some 0) = Some 0"
    by code_simp
  have "\<forall>meta\<in>set rows. \<exists>sig answer. hm_get (st_meta (hk_store demo_cache)) sig = Some meta \<and>
      hm_get (st_tx (hk_store demo_cache)) sig = Some answer \<and> [9] \<in> set (unique_addresses answer) \<and>
      key_selected (hk_store demo_cache) None None Confirmed \<lparr>sk_signature = sig, sk_pos = mt_pos meta\<rparr>"
    using address_rows_exact [OF demo_run refl lo _ _ rows_def] by (simp add: u64_max_def)
  moreover have "rows \<noteq> []"
    using rows by auto
  ultimately have "\<exists>sig answer. hm_get (st_tx (hk_store demo_cache)) sig = Some answer \<and> [9] \<in> set (unique_addresses answer)"
    by (cases rows) auto
  with rows lo show ?thesis
    unfolding Let_def rows_def by (intro conjI)
qed

section \<open>The span the chain proof vouches for\<close>

definition staged_true :: "ledger \<Rightarrow> bank_op list \<Rightarrow> bool" where
  "staged_true L ops \<longleftrightarrow>
     (\<forall>x\<in>set ops. case x of Stage_metadata n i m \<Rightarrow> link_true L (metadata_link m) | _ \<Rightarrow> True)"

lemma metadata_link_same: "same_block m m' \<Longrightarrow> metadata_link m = metadata_link m'"
  by (simp add: metadata_link_def same_blockD)

lemma stored_link_true:
  assumes inv: "cache_inv env ops B self" and true: "staged_true L ops"
    and m: "hm_get (st_block_metadata (hk_store self)) s = Some m"
  shows "link_true L (metadata_link m)" "bm_slot m = s"
proof -
  obtain ct where ct: "same_block m (ct_metadata ct)" "content_ok env ops (bs_session (hk_banks self)) s ct"
    by (rule served_content [OF inv m])
  then obtain m0 where m0: "Stage_metadata (bs_session (hk_banks self)) (ct_bank ct) m0 \<in> set ops"
    "same_block (ct_metadata ct) m0" "bm_slot m0 = s"
    by (auto simp: content_ok_def staged_def)
  have "link_true L (metadata_link m0)"
    using true m0(1) unfolding staged_true_def by fastforce
  then show "link_true L (metadata_link m)" "bm_slot m = s"
    using metadata_link_same [OF same_block_trans [OF ct(1) m0(2)]] same_blockD(1) [OF same_block_trans [OF ct(1) m0(2)]] m0(3)
    by simp_all
qed

lemma served_metadata_true:
  assumes "cache_inv env ops B self" "staged_true L ops"
    and "get_block env (hk_store self) s c Details_none = Some (Payload_metadata m)"
  shows "link_true L (metadata_link m) \<and> bm_slot m = s"
  using stored_link_true [OF assms(1,2)] assms(3) by (auto simp: get_block_def split: if_splits option.splits)

text \<open>A bank the proof trusts at a level is the block the store serves at that level.\<close>

lemma trusted_link_served:
  assumes inv: "cache_inv env ops B self" and pinv: "proof_inv self"
    and l: "head_coverage_link (st_coverage (hk_store self)) s c = Some l"
  shows "\<exists>m. get_block env (hk_store self) s c Details_none = Some (Payload_metadata m) \<and> metadata_link m = l"
proof -
  obtain nd cm where nd: "bt_get (hc_nodes (st_coverage (hk_store self))) s = Some nd" "nd_link nd = Some l"
    "\<not> nd_invalid nd" "nd_commitment nd = Some cm" "commitment_meets cm c"
    using l by (rule head_coverage_linkD)
  then have v: "valid_node (st_coverage (hk_store self)) s nd"
    by (simp add: valid_node_def)
  obtain ct where ct: "B s = Some ct" "l = metadata_link (ct_metadata ct)"
    using cache_inv_covD [OF inv] v nd(2) unfolding cov_ok_def by fastforce
  obtain m where m: "hm_get (st_block_metadata (hk_store self)) s = Some m" "same_block m (ct_metadata ct)"
    using store_slotD [OF cache_invD(1) [OF inv], of s] ct(1) by (auto simp: slot_ok_def)
  obtain e where "hm_get (st_commitment (hk_store self)) s = Some e" "rank cm \<le> rank e"
    using proof_invD(1) [OF pinv] v nd(4) unfolding proof_ok_def by blast
  then have "commitment_meets (slot_commitment (hk_store self) s) c"
    using nd(5) by (simp add: slot_commitment_def commitment_meets_def)
  then show ?thesis
    using m ct(2) metadata_link_same [OF m(2)] by (auto simp: get_block_def)
qed

text \<open>What a reported floor says about the walk behind it.\<close>

lemma chain_floor_walk:
  assumes ok: "head_ok (st_coverage st)" and fl: "chain_floor st c now = Some (Some f)"
  obtains t ls where "hc_tips (st_coverage st) ! rank c = Some t" "ls \<noteq> []" "chain_linked ls"
    "\<forall>l\<in>set ls. head_coverage_link (st_coverage st) (lk_slot l) c = Some l"
    "lk_slot (hd ls) = tip_slot t" "lk_slot (last ls) = f" "f \<le> tip_slot t"
proof -
  obtain t ls hi rest where t: "hc_tips (st_coverage st) ! rank c = Some t"
    and ls: "head_coverage_chain (st_coverage st) (tip_slot t) c = Some ls"
    and iv: "sc_intervals (chain_coverage ls 0 (tip_slot t)) = (f, hi) # rest"
    using fl by (auto simp: chain_floor_def head_coverage_snapshot_def trusted_chain_def Let_def
        split: option.splits if_splits sum.splits prod.splits list.splits)
  have ne: "ls \<noteq> []"
    using iv by (auto simp: chain_coverage_def slot_coverage_default_def)
  have walk: "chain_linked ls" "\<forall>l\<in>set ls. head_coverage_link (st_coverage st) (lk_slot l) c = Some l"
    "lk_slot (hd ls) = tip_slot t"
    using chain_returns [OF ok, of "tip_slot t" c] ls ne by auto
  moreover have "lk_slot (last ls) = f" "f \<le> tip_slot t"
    using iv ne walk(3) by (auto simp: chain_coverage_def slot_coverage_default_def slot_coverage_new_def Let_def
        split: list.splits if_splits)
  ultimately show thesis
    using that t ne by blast
qed

text \<open>A walk over trusted links, against the ledger: the store serves the fork from its first block on.\<close>

lemma walk_serves_fork:
  assumes inv: "cache_inv env ops B self" and pinv: "proof_inv self" and ledger: "ledger_ok L" and staged: "staged_true L ops"
    and walk: "ls \<noteq> []" "chain_linked ls" "\<forall>l\<in>set ls. head_coverage_link (st_coverage (hk_store self)) (lk_slot l) c = Some l"
  shows "l \<in> set ls \<Longrightarrow> lk_slot l \<in> fork_slots L (lk_hash (hd ls))"
    and "lk_slot (last ls) \<le> s \<Longrightarrow> s \<in> fork_slots L (lk_hash (hd ls)) \<longleftrightarrow>
      (\<exists>m. get_block env (hk_store self) s c Details_none = Some (Payload_metadata m) \<and> ancestor L (lk_hash (hd ls)) (bm_blockhash m))"
proof -
  have served: "\<exists>m. get_block env (hk_store self) (lk_slot l) c Details_none = Some (Payload_metadata m) \<and> metadata_link m = l"
    if "l \<in> set ls" for l
    using trusted_link_served [OF inv pinv] walk(3) that by blast
  have true: "\<forall>l\<in>set ls. link_true L l"
    using served served_metadata_true [OF inv staged] by metis
  note anc = chain_linked_ancestors [OF ledger walk(2) true walk(1)]
  show "lk_slot l \<in> fork_slots L (lk_hash (hd ls))" if "l \<in> set ls" for l
    using anc(1) true that by (auto simp: fork_slots_def link_true_def)
  show "s \<in> fork_slots L (lk_hash (hd ls)) \<longleftrightarrow>
      (\<exists>m. get_block env (hk_store self) s c Details_none = Some (Payload_metadata m) \<and> ancestor L (lk_hash (hd ls)) (bm_blockhash m))"
    if s: "lk_slot (last ls) \<le> s" for s
  proof
    assume "s \<in> fork_slots L (lk_hash (hd ls))"
    then obtain x p ph where x: "ancestor L (lk_hash (hd ls)) x" "L x = Some (s, p, ph)"
      by (auto simp: fork_slots_def)
    then obtain l where l: "l \<in> set ls" "lk_hash l = x"
      using anc(2) [OF x] s  by auto
    then have "lk_slot l = s"
      using true x(2) by (auto simp: link_true_def)
    with served [OF l(1)] x(1) l(2) show "\<exists>m. get_block env (hk_store self) s c Details_none = Some (Payload_metadata m) \<and>
        ancestor L (lk_hash (hd ls)) (bm_blockhash m)"
      by (auto simp: metadata_link_def)
  next
    assume "\<exists>m. get_block env (hk_store self) s c Details_none = Some (Payload_metadata m) \<and> ancestor L (lk_hash (hd ls)) (bm_blockhash m)"
    then show "s \<in> fork_slots L (lk_hash (hd ls))"
      using served_metadata_true [OF inv staged] by (fastforce simp: fork_slots_def link_true_def metadata_link_def)
  qed
qed

text \<open>
  C5.  The chain proof and the block store together.  Let the metadata staged in a run be true of a
  ledger.  Asking for the floor of the cache at a commitment level always returns; and when it reports
  a slot, there is one fork of the ledger, through the tip observed at that level, such that between
  the floor and the tip the slots that hold a block of the fork are exactly the slots at which the
  cache serves a block of that fork at that level.
\<close>

theorem floor_blocks_served:
  assumes "bank_run env ops (head_cache_new r k) = Some self" and "ledger_ok L" and "staged_true L ops"
  shows "\<exists>fl. chain_floor (hk_store self) c now = Some fl \<and>
    (\<forall>f. fl = Some f \<longrightarrow> (\<exists>t h. hc_tips (st_coverage (hk_store self)) ! rank c = Some t \<and>
       f \<le> tip_slot t \<and> tip_slot t \<in> fork_slots L h \<and> f \<in> fork_slots L h \<and>
       (\<forall>s. f \<le> s \<and> s \<le> tip_slot t \<longrightarrow>
          (s \<in> fork_slots L h \<longleftrightarrow>
           (\<exists>m. get_block env (hk_store self) s c Details_none = Some (Payload_metadata m) \<and>
              ancestor L h (bm_blockhash m))))))"
proof -
  let ?st = "hk_store self"
  obtain B where inv: "cache_inv env ops B self"
    using reachable_inv [OF assms(1)] by blast
  note pinv = reachable_proof_inv [OF assms(1)]
  note ok = proof_ok_head [OF proof_invD(1) [OF pinv]]
  have "\<exists>t h. hc_tips (st_coverage ?st) ! rank c = Some t \<and> f \<le> tip_slot t \<and> tip_slot t \<in> fork_slots L h \<and>
      f \<in> fork_slots L h \<and> (\<forall>s. f \<le> s \<and> s \<le> tip_slot t \<longrightarrow> (s \<in> fork_slots L h \<longleftrightarrow>
        (\<exists>m. get_block env ?st s c Details_none = Some (Payload_metadata m) \<and> ancestor L h (bm_blockhash m))))"
    if fl: "chain_floor ?st c now = Some (Some f)" for f
  proof -
    obtain t ls where walk: "hc_tips (st_coverage ?st) ! rank c = Some t" "ls \<noteq> []" "chain_linked ls"
      "\<forall>l\<in>set ls. head_coverage_link (st_coverage ?st) (lk_slot l) c = Some l"
      "lk_slot (hd ls) = tip_slot t" "lk_slot (last ls) = f" "f \<le> tip_slot t"
      by (rule chain_floor_walk [OF ok fl])
    note fork = walk_serves_fork [OF inv pinv assms(2,3) walk(2-4)]
    show ?thesis
      using walk(1,5-7) fork(2) fork(1) [OF hd_in_set [OF walk(2)]] fork(1) [OF last_in_set [OF walk(2)]]
      by (intro exI [of _ t] exI [of _ "lk_hash (hd ls)"]) simp
  qed
  moreover have "\<exists>fl. chain_floor ?st c now = Some fl"
    using chain_returns [OF ok] by (fastforce simp: chain_floor_def head_coverage_snapshot_def trusted_chain_def split: option.split)
  ultimately show ?thesis
    by auto
qed

definition demo_block_metadata :: "slot \<Rightarrow> slot \<Rightarrow> block_metadata" where
  "demo_block_metadata s p = \<lparr>bm_slot = s, bm_parent_slot = p, bm_blockhash = [s], bm_parent_blockhash = [p],
     bm_block_time = None, bm_block_height = None, bm_executed_transaction_count = 0, bm_entry_count = 0,
     bm_rewards = [], bm_footer = None\<rparr>"

definition demo_chain_ops :: "bank_op list" where
  "demo_chain_ops = [Start Processed,
     Stage_metadata 1 0 (demo_block_metadata 5 4), Freeze 1 5 0 [5] [], Commit 1 5 0 Confirmed None 0,
     Stage_metadata 1 0 (demo_block_metadata 7 5), Freeze 1 7 0 [7] [], Commit 1 7 0 Confirmed None 1]"

definition demo_chain_cache :: head_cache where
  "demo_chain_cache = the (bank_run demo_env demo_chain_ops (head_cache_new 8 4))"

lemma demo_chain_run: "bank_run demo_env demo_chain_ops (head_cache_new 8 4) = Some demo_chain_cache"
proof -
  have "bank_run demo_env demo_chain_ops (head_cache_new 8 4) \<noteq> None"
    by code_simp
  then show ?thesis
    by (auto simp: demo_chain_cache_def)
qed

theorem floor_blocks_served_witness:
  "chain_floor (hk_store demo_chain_cache) Confirmed 2 = Some (Some 5) \<and>
   (\<exists>t h. hc_tips (st_coverage (hk_store demo_chain_cache)) ! rank Confirmed = Some t \<and> 5 \<le> tip_slot t \<and>
      5 \<in> fork_slots [[5] \<mapsto> (5, 4, [4]), [7] \<mapsto> (7, 5, [5])] h)"
proof -
  let ?L = "[[5] \<mapsto> (5, 4, [4]), [7] \<mapsto> (7, 5, [5])] :: ledger"
  have "ledger_ok ?L"
    by (auto simp: ledger_ok_def split: if_splits)
  moreover have "staged_true ?L demo_chain_ops"
    by (simp add: staged_true_def demo_chain_ops_def link_true_def metadata_link_def demo_block_metadata_def)
  moreover have fl: "chain_floor (hk_store demo_chain_cache) Confirmed 2 = Some (Some 5)"
    by code_simp
  ultimately show ?thesis
    using floor_blocks_served [OF demo_chain_run, of ?L Confirmed 2] by auto
qed

end
