(* ===== verification/Spec2Isabelle.thy ===== *)
theory Spec2Isabelle
  imports Block_Index_Scan Block_Ranges Verify_Accounting Head_Answers
begin

text \<open>
  A verification development for superbank, a Solana RPC server over ClickHouse with its ingest,
  archive and verification tools.  It covers two programs of the workspace: the parts of
  \<^verbatim>\<open>src/crates/superbank-rpc\<close> that decide which slots hold a block and what the head of the chain looks
  like, and \<^verbatim>\<open>src/crates/superbank-verify\<close>, which audits a range of stored blocks.

  \<^bold>\<open>How the server's parts interact.\<close>  A stream subscription feeds banks into the head cache; the
  selected bank of a slot is published into the head store and into a proof of the chain near the
  tip.  A disk cache holds older blocks, a map of the slots it covers and a block-time index filled
  by a scanning worker.  The slot-range methods answer from the head proof, the index and the disk
  cache in that order and ask ClickHouse for the gaps that remain.  The verifier reads blocks in
  windows, checks each one, walks the chain of parents, writes findings and checkpoints, and ends
  with an exit code.

  \<^bold>\<open>Theories and sources.\<close>
  \<^item> \<open>Superbank_Prelude\<close>: fixed-width arithmetic (saturating, checked, wrapping) on naturals with the
    width as a hypothesis, spans of slots and list lemmas.  \<open>Rust_Collections\<close>: \<open>BTreeMap\<close> and \<open>HashMap\<close>,
    with the locale \<open>finite_store\<close> interpreted for both.  \<open>Rust_Strings\<close>: the string functions the parsers
    use.
  \<^item> \<open>Slot_Coverage\<close> (\<^verbatim>\<open>slot_coverage.rs\<close>): answers made of proven intervals; merging, gaps, conflicts.
  \<^item> \<open>Coverage_Map\<close> (\<^verbatim>\<open>disk_cache/coverage.rs\<close>): disjoint spans as a refinement of a set of slots
    (locale \<open>slot_set\<close>).
  \<^item> \<open>Head_Coverage\<close> (\<^verbatim>\<open>head_cache/coverage.rs\<close>): the chain proof, its operations and the parent walk.
  \<^item> \<open>Head_Store\<close> (\<^verbatim>\<open>head_cache/mod.rs\<close>): the maps of recent transactions with their reads, writes and
    eviction.  \<open>Head_Banks\<close> (\<^verbatim>\<open>head_cache/banks.rs\<close>): sessions and banks, and runs of bank operations.
    \<open>Head_Index\<close>: the consistency of the maps under every write.  \<open>Head_Serving\<close>: where the stored records
    of a run of bank operations come from.  \<open>Head_Proof\<close>: the chain proof only vouches for banks whose
    block is stored.  \<open>Head_Answers\<close>: what blocks, transactions and address rows are served after any run.
  \<^item> \<open>Bitmaps\<close>, \<open>Block_Index\<close>, \<open>Block_Index_Scan\<close> (\<^verbatim>\<open>disk_cache/block_index.rs\<close>): segments, evictions,
    reads, and the scans of the worker.
  \<^item> \<open>Block_Ranges\<close> (\<^verbatim>\<open>handlers/block_ranges.rs\<close>, \<^verbatim>\<open>handlers/blocks.rs\<close>, \<^verbatim>\<open>disk_cache/mod.rs\<close>): requests,
    memory and disk answers, gap filling, the two methods.  Its locale \<open>coverage_source\<close> is the contract of
    whoever provides coverage; the head proof, the block-time index and the disk cache interpret it.
  \<^item> \<open>Range_Spec\<close> (\<^verbatim>\<open>range.rs\<close>, \<^verbatim>\<open>eras.rs\<close>), \<open>Verify_Report\<close> (\<^verbatim>\<open>report.rs\<close>), \<open>Poh\<close> (\<^verbatim>\<open>verify/poh.rs\<close>),
    \<open>Verify_Block\<close> (\<^verbatim>\<open>verify/mod.rs\<close>, \<^verbatim>\<open>verify/structural.rs\<close>), \<open>Chain_Walk\<close> (\<^verbatim>\<open>chain.rs\<close>),
    \<open>Verify_Checkpoint\<close> (\<^verbatim>\<open>checkpoint.rs\<close>, \<^verbatim>\<open>alpenglow.rs\<close>) and \<open>Verify_Run\<close> (\<^verbatim>\<open>runner.rs\<close>, \<^verbatim>\<open>chdb.rs\<close>,
    \<^verbatim>\<open>cli.rs\<close>).  \<open>Verify_Statuses\<close> follows the status of every slot through a window, and
    \<open>Verify_Accounting\<close> proves what a whole run counts and reports.

  \<^bold>\<open>Reading the model.\<close>  A struct is a record, an enum a datatype, a method
  \<open>T::m\<close> a definition taking and returning the state.  Unsigned integers are naturals; where a result
  depends on the width it is a hypothesis \<open>is_u64\<close>, and wrapping is written out.  Errors are sums or
  options; \<open>None\<close> of an operation that returns a state is a panic.  Queries, hashes, clocks and codecs are arguments.

  \<^bold>\<open>Loops.\<close>  No fuel is used.  Loops are structural recursion or \<open>function\<close>s with a measure; those that
  may run forever are \<open>partial_function\<close>s whose outer option is not returning, and the properties show
  that they return (or, for a range ending at the largest slot, that the run does not).

  \<^bold>\<open>What is shown.\<close>  Coverage answers list exactly the produced slots of what they claim, through merging,
  gap filling, scanning and eviction; the slot-range methods list exactly the ledger's blocks up to the
  served end, which is the requested one or a trusted tip below it, and drop what memory says when head
  and index contradict each other.  The chain proof lists the fork that ends at the trusted tip, and what
  the head cache serves comes from banks frozen and committed in the current session.  Block verification
  accepts exactly the well-formed blocks whose hash chain recomputes.  A verification run returns and,
  when parent claims lie below their blocks, counts every slot once under its status in the table; the
  exit code reflects the report, and a checkpoint resumes exactly the jobs that continue it.  Parsers
  round-trip.

  \<^bold>\<open>Not modelled.\<close>  SQL generation, the ClickHouse and chDB clients, gRPC subscriptions, HTTP, JSON and
  protobuf codecs, Parquet and object storage, metrics and logs: they are I/O or calls into crates
  outside the sources, and enter as parameters where a model uses their results.  Threads appear only
  through the locks that serialise them: each operation under a write lock is one step.
\<close>

end
